(* ===== verification/Prelude.thy ===== *)
theory Prelude
  imports Main "HOL-Library.Word" "HOL-Library.Monad_Syntax"
begin

unbundle bit_operations_syntax

text \<open>
  Shared vocabulary of the development.

  A raw \<^verbatim>\<open>unsigned char*\<close> buffer of the C++ code is a list of bytes.  Every
  access states the bound the C++ code relies on: \<^verbatim>\<open>peek\<close> and \<^verbatim>\<open>poke\<close> are
  \<^verbatim>\<open>None\<close> when the access leaves the allocation.  A \<^verbatim>\<open>cursor\<close> is a buffer with the
  running offset \<^verbatim>\<open>pos\<close> that the \<^verbatim>\<open>flush_to_buff\<close> functions advance, and \<^verbatim>\<open>emit\<close>
  is one store through it.  The law \<^verbatim>\<open>emit_emit\<close> collapses a sequence of stores into one,
  so that a flush function is compared with a pure encoder by rewriting.
\<close>

type_synonym byte = "8 word"
type_synonym u8 = "8 word"
type_synonym u16 = "16 word"
type_synonym u32 = "32 word"
type_synonym u64 = "64 word"

named_theorems width_simps \<open>lengths of the byte strings written by the stores\<close>
named_theorems codec_simps \<open>load after store\<close>

text \<open>
  The result of a loop run for a bounded number of rounds: it ended, it was still running, or an access
  was undefined.
\<close>

datatype 'a loop_result = Finished 'a | Running | Fault

fun then_loop :: "'a option \<Rightarrow> ('a \<Rightarrow> 'b loop_result) \<Rightarrow> 'b loop_result" where
  "then_loop None f = Fault"
| "then_loop (Some x) f = f x"


section \<open>Buffers\<close>

definition peek :: "nat \<Rightarrow> byte list \<Rightarrow> nat \<Rightarrow> byte list option" where
  "peek n buf pos = (if pos + n \<le> length buf then Some (take n (drop pos buf)) else None)"

definition poke :: "byte list \<Rightarrow> nat \<Rightarrow> byte list \<Rightarrow> byte list option" where
  "poke buf pos bs =
     (if pos + length bs \<le> length buf
      then Some (take pos buf @ bs @ drop (pos + length bs) buf) else None)"

type_synonym cursor = "byte list \<times> nat"

definition emit :: "byte list \<Rightarrow> cursor \<Rightarrow> cursor option" where
  "emit bs c = (case c of (buf, pos) \<Rightarrow>
     map_option (\<lambda>buf'. (buf', pos + length bs)) (poke buf pos bs))"

lemma peek_append_skip [simp]:
  "length xs \<le> pos \<Longrightarrow> peek n (xs @ ys) pos = peek n ys (pos - length xs)"
  by (auto simp: peek_def)

lemma peek_append_here [simp]:
  "n = length xs \<Longrightarrow> peek n (xs @ ys) 0 = Some xs"
  by (auto simp: peek_def)

lemma peek_whole [simp]: "n = length xs \<Longrightarrow> peek n xs 0 = Some xs"
  by (auto simp: peek_def)

lemma peek_Cons_Suc [simp]: "peek n (b # bs) (Suc p) = peek n bs p"
  by (simp add: peek_def)

lemma peek_zero [simp]: "peek 0 xs 0 = Some []"
  by (simp add: peek_def)

lemma peek_SomeD: "peek n buf pos = Some bs \<Longrightarrow> length bs = n \<and> pos + n \<le> length buf"
  by (auto simp: peek_def split: if_splits)

lemma poke_length: "poke buf pos bs = Some buf' \<Longrightarrow> length buf' = length buf"
  by (auto simp: poke_def split: if_splits)

lemma poke_peek: "poke buf pos bs = Some buf' \<Longrightarrow> peek (length bs) buf' pos = Some bs"
  by (auto simp: poke_def peek_def split: if_splits)

lemma emit_nil [simp]: "pos \<le> length buf \<Longrightarrow> emit [] (buf, pos) = Some (buf, pos)"
  by (simp add: emit_def poke_def)

lemma emit_emit [simp]: "emit a c \<bind> emit b = emit (a @ b) c"
proof (cases c)
  case (Pair buf pos)
  show ?thesis
  proof (cases "pos + length a + length b \<le> length buf")
    case True
    then have "drop (length b) (drop (pos + length a) buf) = drop (pos + (length a + length b)) buf"
      by (simp add: ac_simps)
    with True Pair show ?thesis by (simp add: emit_def poke_def ac_simps)
  next
    case False
    with Pair show ?thesis by (simp add: emit_def poke_def)
  qed
qed

lemma emit_emit_cont [simp]: "emit a c \<bind> (\<lambda>c'. emit b c' \<bind> f) = emit (a @ b) c \<bind> f"
  by (simp flip: emit_emit)

lemma emit_fits:
  "length pre + length bs \<le> length pre + length rest \<Longrightarrow>
   emit bs (pre @ rest, length pre) = Some (pre @ bs @ drop (length bs) rest, length pre + length bs)"
  by (simp add: emit_def poke_def)

lemma emit_start: "length bs \<le> length buf \<Longrightarrow> emit bs (buf, 0) = Some (bs @ drop (length bs) buf, length bs)"
  by (simp add: emit_def poke_def)

lemma emit_overflow: "length buf < pos + length bs \<Longrightarrow> emit bs (buf, pos) = None"
  by (simp add: emit_def poke_def)

lemma emit_is_None [simp]: "emit bs (buf, pos) = None \<longleftrightarrow> length buf < pos + length bs"
  by (auto simp: emit_def poke_def)


section \<open>Little-endian and big-endian byte strings\<close>

definition le_bytes :: "nat \<Rightarrow> 'a::len word \<Rightarrow> byte list" where
  "le_bytes n w = map (\<lambda>i. ucast (drop_bit (8 * i) w)) [0..<n]"

primrec le_word :: "byte list \<Rightarrow> 'a::len word" where
  "le_word [] = 0"
| "le_word (b # bs) = ucast b OR push_bit 8 (le_word bs)"

lemma length_le_bytes [simp, width_simps]: "length (le_bytes n w) = n"
  by (simp add: le_bytes_def)

lemma bit_le_word:
  "bit (le_word bs :: 'a::len word) k \<longleftrightarrow>
   k < LENGTH('a) \<and> k div 8 < length bs \<and> bit (bs ! (k div 8)) (k mod 8)"
proof (induction bs arbitrary: k)
  case Nil
  then show ?case by simp
next
  case (Cons b bs)
  show ?case
  proof (cases "k < 8")
    case True
    then show ?thesis by (auto simp: bit_simps)
  next
    case False
    then obtain j where k: "k = j + 8" by (metis add.commute le_Suc_ex not_less)
    have "bit (ucast b :: 'a word) k = False" using False by (auto simp: bit_simps dest: bit_imp_le_length)
    moreover have "(j + 8) div 8 = Suc (j div 8)" by simp
    ultimately show ?thesis using Cons.IH[of j] by (simp add: k bit_simps) auto
  qed
qed

lemma le_word_le_bytes:
  "le_word (le_bytes n (w :: 'a::len word)) = take_bit (8 * n) w"
proof (rule bit_eqI)
  fix k assume "possible_bit TYPE('a word) k"
  have "k < 8 * n \<longleftrightarrow> k div 8 < n" by auto
  moreover have "8 * (k div 8) + k mod 8 = k" by simp
  ultimately show "bit (le_word (le_bytes n w) :: 'a word) k = bit (take_bit (8 * n) w) k"
    by (auto simp: bit_le_word le_bytes_def bit_simps dest: bit_imp_le_length)
qed

lemma le_word_le_bytes_full [simp]:
  "LENGTH('a) \<le> 8 * n \<Longrightarrow> le_word (le_bytes n (w :: 'a::len word)) = w"
  by (simp add: le_word_le_bytes take_bit_word_eq_self)

lemma le_word_le_bytes_small:
  "unat w < 2 ^ (8 * n) \<Longrightarrow> le_word (le_bytes n (w :: 'a::len word)) = w"
proof -
  assume "unat w < 2 ^ (8 * n)"
  then have "take_bit (8 * n) (unat w) = unat w" by (simp add: take_bit_nat_eq_self)
  then have "take_bit (8 * n) w = w" by (metis unsigned_take_bit_eq word_unat_eq_iff)
  then show ?thesis by (simp add: le_word_le_bytes)
qed

lemma le_bytes_le_word:
  assumes "8 * length bs \<le> LENGTH('a::len)"
  shows "le_bytes (length bs) (le_word bs :: 'a word) = bs"
proof (rule nth_equalityI)
  fix i assume "i < length (le_bytes (length bs) (le_word bs :: 'a word))"
  then have i: "i < length bs" by simp
  show "le_bytes (length bs) (le_word bs :: 'a word) ! i = bs ! i"
  proof (rule bit_eqI)
    fix k assume "possible_bit TYPE(8 word) k"
    then have "k < 8" by simp
    then have "(8 * i + k) div 8 = i" "(8 * i + k) mod 8 = k" "8 * i + k < LENGTH('a)" 
      using assms i by auto
    then show "bit (le_bytes (length bs) (le_word bs :: 'a word) ! i) k = bit (bs ! i) k"
      using i \<open>k < 8\<close> by (auto simp: le_bytes_def bit_simps bit_le_word)
  qed
qed simp

definition be_bytes :: "nat \<Rightarrow> 'a::len word \<Rightarrow> byte list" where
  "be_bytes n w = rev (le_bytes n w)"

lemma length_be_bytes [simp, width_simps]: "length (be_bytes n w) = n"
  by (simp add: be_bytes_def)

lemma le_word_rev_be_bytes: "le_word (rev (be_bytes n w)) = take_bit (8 * n) (w :: 'a::len word)"
  by (simp add: be_bytes_def le_word_le_bytes)


section \<open>Words and naturals\<close>

lemma unat_of_nat_small [simp]: "n < 2 ^ LENGTH('a) \<Longrightarrow> unat (of_nat n :: 'a::len word) = n"
  by (simp add: unsigned_of_nat take_bit_nat_eq_self)

lemma unat_bound: "unat (w :: 'a::len word) < 2 ^ LENGTH('a)"
  by (rule unsigned_less)

lemma unat_two_power: "n < LENGTH('a) \<Longrightarrow> unat (2 ^ n :: 'a::len word) = 2 ^ n"
  using unat_of_nat_small[of "2 ^ n", where 'a = 'a] by simp

lemma unat_ucast_small:
  "unat w < 2 ^ LENGTH('b) \<Longrightarrow> unat (ucast (w :: 'a::len word) :: 'b::len word) = unat w"
  by (simp add: unsigned_ucast_eq take_bit_nat_eq_self)

lemma unat_add_small:
  "unat (a :: 'a::len word) + unat b < 2 ^ LENGTH('a) \<Longrightarrow> unat (a + b) = unat a + unat b"
  by (simp add: unat_word_ariths)

lemma unat_sub_small: "unat (b :: 'a::len word) \<le> unat a \<Longrightarrow> unat (a - b) = unat a - unat b"
  by (metis word_le_nat_alt unat_sub)

lemma ucast_ucast_small:
  assumes "unat (w :: 'a::len word) < 2 ^ LENGTH('b::len)"
  shows "(ucast (ucast w :: 'b word) :: 'a word) = w"
proof -
  have "unat (ucast w :: 'b word) = unat w" using assms by (rule unat_ucast_small)
  moreover from this have "unat (ucast (ucast w :: 'b word) :: 'a word) = unat (ucast w :: 'b word)"
    by (intro unat_ucast_small) (simp add: unsigned_less)
  ultimately show ?thesis by (simp only: word_unat_eq_iff)
qed

lemma take_bit_small: "v < 2 ^ n \<Longrightarrow> n < LENGTH('a) \<Longrightarrow> take_bit n v = (v :: 'a::len word)"
proof -
  assume "v < 2 ^ n" "n < LENGTH('a)"
  then have "unat v < 2 ^ n" by (simp add: word_less_nat_alt unat_two_power)
  then have "take_bit n (unat v) = unat v" by (simp add: take_bit_nat_eq_self)
  then show ?thesis by (metis unsigned_take_bit_eq word_unat_eq_iff)
qed

end
