(* ===== verification/ByteOrder.thy ===== *)
theory ByteOrder
  imports Prelude
begin

unbundle bit_operations_syntax

text \<open>
  The integer stores and loads of \<^verbatim>\<open>src/codec/byte_decoder.h\<close> and the cursor based reads and
  writes of \<^verbatim>\<open>src/binlog/mysql-protocol/byte_order.h\<close>.

  A store is modelled by the bytes it leaves at \<^verbatim>\<open>T\<close>, in address order; a load reads the bytes at
  an offset of a buffer and is \<^verbatim>\<open>None\<close> when it would leave the allocation.  The stores that assign
  through a cast pointer (\<^verbatim>\<open>*((uint32_t*)T) = A\<close>) are those of a little-endian host, the only one
  for which the code defines its conversions.  A double is its 64-bit pattern.

  The interface \<^verbatim>\<open>fixed_codec\<close> states what the event code needs of a store/load pair; every pair
  of the header is an instance.
\<close>

section \<open>The interface of a fixed-width field\<close>

locale fixed_codec =
  fixes width :: nat
    and valid :: "'v \<Rightarrow> bool"
    and store :: "'v \<Rightarrow> byte list"
    and load :: "byte list \<Rightarrow> nat \<Rightarrow> 'v option"
  assumes store_width: "length (store v) = width"
    and load_local: "load buf pos = peek width buf pos \<bind> (\<lambda>bs. load bs 0)"
    and load_store: "valid v \<Longrightarrow> load (store v) 0 = Some v"
begin

lemma load_here: "valid v \<Longrightarrow> load (store v @ ys) 0 = Some v"
  by (subst load_local) (simp add: store_width load_store)

lemma load_skip: "length xs \<le> pos \<Longrightarrow> load (xs @ ys) pos = load ys (pos - length xs)"
  by (subst (1 2) load_local) simp

lemma load_in_bounds: "load buf pos = Some v \<Longrightarrow> pos + width \<le> length buf"
  by (subst (asm) load_local) (auto dest: peek_SomeD split: Option.bind_split_asm)

lemma load_emitted:
  assumes "valid v" and "emit (store v) (buf, pos) = Some (buf', pos')"
  shows "load buf' pos = Some v \<and> pos' = pos + width \<and> length buf' = length buf"
proof -
  from assms(2) have "poke buf pos (store v) = Some buf'" and pos': "pos' = pos + width"
    by (auto simp: emit_def store_width)
  then have "peek width buf' pos = Some (store v)" and "length buf' = length buf"
    using poke_peek poke_length store_width by metis+
  moreover have "load buf' pos = load (store v) 0"
    by (subst load_local) (simp add: calculation)
  ultimately show ?thesis using pos' load_store[OF assms(1)] by simp
qed

lemma stores_width: "length (concat (map store vs)) = width * length vs"
  by (induction vs) (simp_all add: store_width)

end


section \<open>Stores and loads of byte_decoder.h\<close>

definition int1store :: "u8 \<Rightarrow> byte list" where
  "int1store A = [A]"

definition int2store :: "u16 \<Rightarrow> byte list" where
  "int2store A = le_bytes 2 A"

definition be_int2store :: "u16 \<Rightarrow> byte list" where
  "be_int2store A = (let temp = (ucast A :: u32) in [ucast (drop_bit 8 temp), ucast temp])"

definition int4store :: "u32 \<Rightarrow> byte list" where
  "int4store A = le_bytes 4 A"

definition be_int4store :: "u32 \<Rightarrow> byte list" where
  "be_int4store A =
     [ucast (drop_bit 24 A), ucast (drop_bit 16 A), ucast (drop_bit 8 A), ucast A]"

definition int8store :: "u64 \<Rightarrow> byte list" where
  "int8store A = le_bytes 8 A"

definition int3store :: "u32 \<Rightarrow> byte list" where
  "int3store A = [ucast A, ucast (drop_bit 8 A), ucast (drop_bit 16 A)]"

definition be_int3store :: "u32 \<Rightarrow> byte list" where
  "be_int3store A = [ucast (drop_bit 16 A), ucast (drop_bit 8 A), ucast A]"

definition int5store :: "u64 \<Rightarrow> byte list" where
  "int5store A =
     [ucast A, ucast (drop_bit 8 A), ucast (drop_bit 16 A), ucast (drop_bit 24 A),
      ucast (drop_bit 32 A)]"

definition be_int5store :: "u64 \<Rightarrow> byte list" where
  "be_int5store A =
     [ucast (drop_bit 32 A), ucast (drop_bit 24 A), ucast (drop_bit 16 A), ucast (drop_bit 8 A),
      ucast A]"

definition int6store :: "u64 \<Rightarrow> byte list" where
  "int6store A =
     [ucast A, ucast (drop_bit 8 A), ucast (drop_bit 16 A), ucast (drop_bit 24 A),
      ucast (drop_bit 32 A), ucast (drop_bit 40 A)]"

definition int_variable_store :: "u64 \<Rightarrow> int \<Rightarrow> byte list" where
  "int_variable_store A variable =
     (if variable = 1 then int1store (ucast A)
      else if variable = 2 then int2store (ucast A)
      else if variable = 3 then int3store (ucast A)
      else if variable = 4 then int4store (ucast A)
      else if variable = 5 then int5store A
      else if variable = 6 then int6store A
      else if variable = 8 then int8store A
      else [])"

definition packet_store_length :: "u64 \<Rightarrow> byte list" where
  "packet_store_length len =
     (if len < 251 then [ucast len]
      else if len < 65536 then 252 # int2store (ucast (ucast len :: u32))
      else if len < 16777216 then 253 # int3store (ucast len)
      else 254 # int8store len)"

definition fill_bit_map :: "nat \<Rightarrow> byte list" where
  "fill_bit_map bytes = map (\<lambda>i. 0xFF) [0..<bytes]"

definition int1load :: "byte list \<Rightarrow> nat \<Rightarrow> u8 option" where
  "int1load T pos = map_option le_word (peek 1 T pos)"

definition int2load :: "byte list \<Rightarrow> nat \<Rightarrow> u16 option" where
  "int2load T pos = map_option le_word (peek 2 T pos)"

definition int4load :: "byte list \<Rightarrow> nat \<Rightarrow> u32 option" where
  "int4load T pos = map_option le_word (peek 4 T pos)"

definition int8load :: "byte list \<Rightarrow> nat \<Rightarrow> u64 option" where
  "int8load T pos = map_option le_word (peek 8 T pos)"

definition int6load :: "byte list \<Rightarrow> nat \<Rightarrow> u64 option" where
  "int6load T pos = map_option (\<lambda>t.
     ucast ((ucast (t ! 0) :: u32) + push_bit 8 (ucast (t ! 1)) + push_bit 16 (ucast (t ! 2))
            + push_bit 24 (ucast (t ! 3)))
     + push_bit 32 (ucast (t ! 4)) + push_bit 40 (ucast (t ! 5))) (peek 6 T pos)"

definition hf_int1store :: "u8 \<Rightarrow> byte list" where
  "hf_int1store A = [A]"

definition hf_int2store :: "u16 \<Rightarrow> byte list" where
  "hf_int2store A = (let def_temp = (ucast A :: u32) in [ucast (drop_bit 8 def_temp), ucast def_temp])"

definition hf_int3store :: "u32 \<Rightarrow> byte list" where
  "hf_int3store A = (let def_temp = (ucast A :: u64) in
     [ucast (drop_bit 16 def_temp), ucast (drop_bit 8 def_temp), ucast def_temp])"

definition hf_int4store :: "u32 \<Rightarrow> byte list" where
  "hf_int4store A = (let def_temp = (ucast A :: u64) in
     [ucast (drop_bit 24 def_temp), ucast (drop_bit 16 def_temp), ucast (drop_bit 8 def_temp),
      ucast def_temp])"

definition hf_int5store :: "u64 \<Rightarrow> byte list" where
  "hf_int5store A = (let def_temp = A; def_temp2 = drop_bit 32 A in
     [ucast def_temp2, ucast (drop_bit 24 def_temp), ucast (drop_bit 16 def_temp),
      ucast (drop_bit 8 def_temp), ucast def_temp])"

definition hf_int6store :: "u64 \<Rightarrow> byte list" where
  "hf_int6store A = (let def_temp = A; def_temp2 = drop_bit 32 A in
     [ucast (drop_bit 8 def_temp2), ucast def_temp2, ucast (drop_bit 24 def_temp),
      ucast (drop_bit 16 def_temp), ucast (drop_bit 8 def_temp), ucast def_temp])"

definition hf_int7store :: "u64 \<Rightarrow> byte list" where
  "hf_int7store A = (let def_temp = A; def_temp2 = drop_bit 32 A in
     [ucast (drop_bit 16 def_temp2), ucast (drop_bit 8 def_temp2), ucast def_temp2,
      ucast (drop_bit 24 def_temp), ucast (drop_bit 16 def_temp), ucast (drop_bit 8 def_temp),
      ucast def_temp])"

definition hf_int8store :: "u64 \<Rightarrow> byte list" where
  "hf_int8store A = (let def_temp3 = A; def_temp4 = drop_bit 32 A in
     hf_int4store (ucast def_temp4) @ hf_int4store (ucast def_temp3))"

definition be_float8store :: "u64 \<Rightarrow> byte list" where
  "be_float8store V = (let v = le_bytes 8 V in
     [v ! 7, v ! 6, v ! 5, v ! 4, v ! 3, v ! 2, v ! 1, v ! 0])"

definition float8store :: "u64 \<Rightarrow> byte list" where
  "float8store M = le_bytes 8 M"

definition float8get :: "byte list \<Rightarrow> u64 option" where
  "float8get M = map_option (\<lambda>m.
     le_word [m ! 7, m ! 6, m ! 5, m ! 4, m ! 3, m ! 2, m ! 1, m ! 0]) (peek 8 M 0)"


section \<open>Every store is the reference byte string\<close>

lemma le_bytes_unfold:
  "le_bytes 0 w = []" "le_bytes (Suc n) w = le_bytes n w @ [ucast (drop_bit (8 * n) w)]"
  by (simp_all add: le_bytes_def)

lemma le_bytes_numerals:
  "le_bytes (Suc 0) w = [ucast w]"
  "le_bytes 2 w = [ucast w, ucast (drop_bit 8 w)]"
  "le_bytes 3 w = [ucast w, ucast (drop_bit 8 w), ucast (drop_bit 16 w)]"
  "le_bytes 4 w = [ucast w, ucast (drop_bit 8 w), ucast (drop_bit 16 w), ucast (drop_bit 24 w)]"
  "le_bytes 5 w = [ucast w, ucast (drop_bit 8 w), ucast (drop_bit 16 w), ucast (drop_bit 24 w),
     ucast (drop_bit 32 w)]"
  "le_bytes 6 w = [ucast w, ucast (drop_bit 8 w), ucast (drop_bit 16 w), ucast (drop_bit 24 w),
     ucast (drop_bit 32 w), ucast (drop_bit 40 w)]"
  "le_bytes 7 w = [ucast w, ucast (drop_bit 8 w), ucast (drop_bit 16 w), ucast (drop_bit 24 w),
     ucast (drop_bit 32 w), ucast (drop_bit 40 w), ucast (drop_bit 48 w)]"
  "le_bytes 8 w = [ucast w, ucast (drop_bit 8 w), ucast (drop_bit 16 w), ucast (drop_bit 24 w),
     ucast (drop_bit 32 w), ucast (drop_bit 40 w), ucast (drop_bit 48 w), ucast (drop_bit 56 w)]"
  by (simp_all add: le_bytes_def upt_rec)

lemma ucast_drop_bit_ucast:
  "n + 8 \<le> LENGTH('b) \<Longrightarrow>
   (ucast (drop_bit n (ucast (w :: 'a::len word) :: 'b::len word)) :: byte) = ucast (drop_bit n w)"
  by (rule bit_eqI) (auto simp: bit_simps dest: bit_imp_le_length)

lemma le_bytes_ucast:
  "8 * n \<le> LENGTH('b) \<Longrightarrow> le_bytes n (ucast (w :: 'a::len word) :: 'b::len word) = le_bytes n w"
  by (auto simp: le_bytes_def intro!: ucast_drop_bit_ucast)

lemma ucast_byte_ucast:
  "8 \<le> LENGTH('b) \<Longrightarrow> (ucast (ucast (w :: 'a::len word) :: 'b::len word) :: byte) = ucast w"
  by (rule bit_eqI) (auto simp: bit_simps dest: bit_imp_le_length)

lemma stores_are_le_bytes:
  "int1store a = le_bytes 1 a" "int3store c = le_bytes 3 c"
  "int5store d = le_bytes 5 d" "int6store d = le_bytes 6 d"
  "float8store d = le_bytes 8 d"
  by (simp_all add: int1store_def int3store_def int5store_def int6store_def float8store_def
      le_bytes_numerals)

lemma be_stores_are_be_bytes:
  "be_int2store b = be_bytes 2 b" "be_int3store c = be_bytes 3 c" "be_int4store c = be_bytes 4 c"
  "be_int5store d = be_bytes 5 d" "be_float8store d = be_bytes 8 d"
  by (simp_all add: be_int2store_def be_int3store_def be_int4store_def be_int5store_def
      be_float8store_def be_bytes_def le_bytes_numerals ucast_drop_bit_ucast ucast_byte_ucast)

lemma hf_stores_are_be_bytes:
  "hf_int1store a = be_bytes 1 a" "hf_int2store b = be_bytes 2 b" "hf_int3store c = be_bytes 3 c"
  "hf_int4store c = be_bytes 4 c" "hf_int5store d = be_bytes 5 d" "hf_int6store d = be_bytes 6 d"
  "hf_int7store d = be_bytes 7 d" "hf_int8store d = be_bytes 8 d"
  by (simp_all add: hf_int1store_def hf_int2store_def hf_int3store_def hf_int4store_def
      hf_int5store_def hf_int6store_def hf_int7store_def hf_int8store_def be_bytes_def
      le_bytes_numerals ucast_drop_bit_ucast ucast_byte_ucast)

lemma store_lengths [simp, width_simps]:
  "length (int1store a) = 1" "length (int2store b) = 2" "length (int3store c) = 3"
  "length (int4store c) = 4" "length (int5store d) = 5" "length (int6store d) = 6"
  "length (int8store d) = 8"
  by (simp_all add: int1store_def int2store_def int3store_def int4store_def int5store_def
      int6store_def int8store_def)

lemma fill_bit_map_eq: "fill_bit_map n = replicate n 0xFF"
  by (simp add: fill_bit_map_def map_replicate_const)

lemma le_word_Cons_add: "(le_word (b # bs) :: 'a::len word) = ucast b + push_bit 8 (le_word bs)"
proof -
  have "(ucast b :: 'a word) AND push_bit 8 (le_word bs) = 0"
    by (rule bit_eqI) (auto simp: bit_simps dest: bit_imp_le_length)
  then show ?thesis by (simp add: disjunctive_add_eq_or)
qed

lemma le_word_append:
  "(le_word (xs @ ys) :: 'a::len word) = le_word xs OR push_bit (8 * length xs) (le_word ys)"
  by (induction xs) (simp_all add: push_bit_or or.assoc ac_simps)

lemma ucast_le_word:
  "8 * length bs \<le> LENGTH('a::len) \<Longrightarrow> 8 * length bs \<le> LENGTH('b::len) \<Longrightarrow>
   (ucast (le_word bs :: 'a word) :: 'b word) = le_word bs"
  by (rule bit_eqI) (auto simp: bit_simps bit_le_word)

lemma int6load_le_word: "int6load T pos = map_option le_word (peek 6 T pos)"
proof (cases "peek 6 T pos")
  case (Some t)
  then have "length t = 6" by (simp add: peek_SomeD)
  then obtain a b c d e f where t: "t = [a, b, c, d, e, f]"
    by (auto simp: eval_nat_numeral length_Suc_conv)
  have "(ucast a :: u32) + push_bit 8 (ucast b) + push_bit 16 (ucast c) + push_bit 24 (ucast d)
      = le_word [a, b, c, d]"
    by (simp add: le_word_Cons_add push_bit_eq_mult algebra_simps del: le_word.simps(2))
  moreover have "(le_word [a, b, c, d, e, f] :: u64)
      = le_word [a, b, c, d] + push_bit 32 (ucast e) + push_bit 40 (ucast f)"
    by (simp add: le_word_Cons_add push_bit_eq_mult algebra_simps del: le_word.simps(2))
  ultimately show ?thesis
    using ucast_le_word[of "[a, b, c, d]", where 'a = 32 and 'b = 64]
    by (simp add: int6load_def Some t del: le_word.simps)
qed (simp add: int6load_def)


section \<open>The pairs as instances of the field interface\<close>

lemma map_option_peek_local:
  "map_option f (peek n buf pos) = peek n buf pos \<bind> (\<lambda>bs. map_option f (peek n bs 0))"
  by (cases "peek n buf pos") (auto dest: peek_SomeD)

lemmas store_load_defs =
  int1store_def int2store_def int4store_def int8store_def
  int1load_def int2load_def int4load_def int8load_def

interpretation f1: fixed_codec 1 "\<lambda>_. True" int1store int1load
proof
  show "int1load buf pos = peek 1 buf pos \<bind> (\<lambda>bs. int1load bs 0)" for buf pos
    unfolding int1load_def by (rule map_option_peek_local)
qed (simp_all add: int1store_def int1load_def)

interpretation f2: fixed_codec 2 "\<lambda>_. True" int2store int2load
proof
  show "int2load buf pos = peek 2 buf pos \<bind> (\<lambda>bs. int2load bs 0)" for buf pos
    unfolding int2load_def by (rule map_option_peek_local)
qed (simp_all add: int2store_def int2load_def)

interpretation f4: fixed_codec 4 "\<lambda>_. True" int4store int4load
proof
  show "int4load buf pos = peek 4 buf pos \<bind> (\<lambda>bs. int4load bs 0)" for buf pos
    unfolding int4load_def by (rule map_option_peek_local)
qed (simp_all add: int4store_def int4load_def)

interpretation f8: fixed_codec 8 "\<lambda>_. True" int8store int8load
proof
  show "int8load buf pos = peek 8 buf pos \<bind> (\<lambda>bs. int8load bs 0)" for buf pos
    unfolding int8load_def by (rule map_option_peek_local)
qed (simp_all add: int8store_def int8load_def)

interpretation f6: fixed_codec 6 "\<lambda>v. unat v < 2 ^ 48" int6store int6load
proof
  show "int6load buf pos = peek 6 buf pos \<bind> (\<lambda>bs. int6load bs 0)" for buf pos
    unfolding int6load_le_word by (rule map_option_peek_local)
  show "int6load (int6store v) 0 = Some v" if "unat v < 2 ^ 48" for v
    using that le_word_le_bytes_small[of v 6]
    by (simp add: int6load_le_word stores_are_le_bytes)
qed simp

lemmas load_here [simp, codec_simps] =
  f1.load_here [OF TrueI] f2.load_here [OF TrueI] f4.load_here [OF TrueI] f8.load_here [OF TrueI]
  f6.load_here

lemmas load_alone [simp, codec_simps] =
  f1.load_store [OF TrueI] f2.load_store [OF TrueI] f4.load_store [OF TrueI]
  f8.load_store [OF TrueI] f6.load_store

lemmas load_skip [simp, codec_simps] =
  f1.load_skip f2.load_skip f4.load_skip f8.load_skip f6.load_skip


section \<open>The first byte of a length-encoded integer\<close>

lemma packet_store_length_first:
  "\<exists>b bs. packet_store_length v = b # bs \<and>
     (v < 251 \<and> b < 251 \<and> bs = [] \<and> ucast b = v
      \<or> b = 252 \<and> length bs = 2 \<and> le_word bs = v
      \<or> b = 253 \<and> length bs = 3 \<and> le_word bs = v
      \<or> b = 254 \<and> length bs = 8 \<and> le_word bs = v)"
proof -
  have small: "le_word (le_bytes n v) = v" if "v < 2 ^ (8 * n)" "8 * n < 64" for n
  proof -
    have "unat v < 2 ^ (8 * n)" using that by (simp add: word_less_nat_alt unat_two_power)
    then show ?thesis by (rule le_word_le_bytes_small)
  qed
  have one: "ucast (ucast v :: u8) = v" "(ucast v :: u8) < 251" if "v < 251"
  proof -
    have "unat v < 251" using that by (simp add: word_less_nat_alt)
    then show "ucast (ucast v :: u8) = v" "(ucast v :: u8) < 251"
      using ucast_ucast_small[of v, where 'b = 8] unat_ucast_small[of v, where 'b = 8]
      by (simp_all add: word_less_nat_alt)
  qed
  consider "v < 251" | "\<not> v < 251" "v < 65536" | "\<not> v < 65536" "v < 16777216" | "\<not> v < 16777216"
    by blast
  then show ?thesis
  proof cases
    case 1
    then show ?thesis using one by (simp add: packet_store_length_def)
  next
    case 2
    then show ?thesis using small[of 2]
      by (simp add: packet_store_length_def int2store_def le_bytes_ucast)
  next
    case 3
    then have "\<not> v < 251" by (simp add: word_less_nat_alt)
    with 3 show ?thesis using small[of 3]
      by (simp add: packet_store_length_def stores_are_le_bytes le_bytes_ucast)
  next
    case 4
    then have "\<not> v < 251" "\<not> v < 65536" by (simp_all add: word_less_nat_alt)
    with 4 show ?thesis by (simp add: packet_store_length_def int8store_def)
  qed
qed


section \<open>Cursor reads and writes of byte_order.h\<close>

text \<open>
  \<^verbatim>\<open>read_index\<close> and \<^verbatim>\<open>write_index\<close> are \<^verbatim>\<open>uint32_t&\<close>: the result carries the advanced index,
  which wraps.
\<close>

definition encoded_bytes_length :: "u64 \<Rightarrow> u8" where
  "encoded_bytes_length v =
     (if v < 0xFB then 1 else if v < push_bit 16 1 then 3 else if v < push_bit 24 1 then 4 else 9)"

definition read_le8toh :: "byte list \<Rightarrow> u32 \<Rightarrow> (u8 \<times> u32) option" where
  "read_le8toh buf read_index = do {
     bs \<leftarrow> peek 1 buf (unat read_index);
     Some (le_word bs, read_index + 1) }"

definition read_le16toh :: "byte list \<Rightarrow> u32 \<Rightarrow> (u16 \<times> u32) option" where
  "read_le16toh buf read_index = do {
     p \<leftarrow> peek 2 buf (unat read_index);
     Some (le_word p, read_index + 2) }"

definition read_le24toh :: "byte list \<Rightarrow> u32 \<Rightarrow> (u32 \<times> u32) option" where
  "read_le24toh buf read_index = do {
     (l_16, read_index) \<leftarrow> read_le16toh buf read_index;
     (m_8, read_index) \<leftarrow> read_le8toh buf read_index;
     Some (push_bit 16 (ucast m_8) OR ucast l_16, read_index) }"

definition read_le32toh :: "byte list \<Rightarrow> u32 \<Rightarrow> (u32 \<times> u32) option" where
  "read_le32toh buf read_index = do {
     p \<leftarrow> peek 4 buf (unat read_index);
     Some (le_word p, read_index + 4) }"

definition read_le48toh :: "byte list \<Rightarrow> u32 \<Rightarrow> (u64 \<times> u32) option" where
  "read_le48toh buf read_index = do {
     (l_32, read_index) \<leftarrow> read_le32toh buf read_index;
     (m_16, read_index) \<leftarrow> read_le16toh buf read_index;
     Some (push_bit 32 (ucast m_16) OR ucast l_32, read_index) }"

definition read_le64toh :: "byte list \<Rightarrow> u32 \<Rightarrow> (u64 \<times> u32) option" where
  "read_le64toh buf read_index = do {
     p \<leftarrow> peek 8 buf (unat read_index);
     Some (le_word p, read_index + 8) }"

definition write_htole8 :: "byte list \<Rightarrow> u32 \<Rightarrow> u8 \<Rightarrow> (byte list \<times> u32) option" where
  "write_htole8 buf write_index v = do {
     buf \<leftarrow> poke buf (unat write_index) [v];
     Some (buf, write_index + 1) }"

definition write_htole16 :: "byte list \<Rightarrow> u32 \<Rightarrow> u16 \<Rightarrow> (byte list \<times> u32) option" where
  "write_htole16 buf write_index v = do {
     buf \<leftarrow> poke buf (unat write_index) (le_bytes 2 v);
     Some (buf, write_index + 2) }"

definition write_htole24 :: "byte list \<Rightarrow> u32 \<Rightarrow> u32 \<Rightarrow> (byte list \<times> u32) option" where
  "write_htole24 buf write_index v = do {
     (buf, write_index) \<leftarrow> write_htole16 buf write_index (ucast v);
     write_htole8 buf write_index (ucast (drop_bit 16 v)) }"

definition write_htole32 :: "byte list \<Rightarrow> u32 \<Rightarrow> u32 \<Rightarrow> (byte list \<times> u32) option" where
  "write_htole32 buf write_index v = do {
     buf \<leftarrow> poke buf (unat write_index) (le_bytes 4 v);
     Some (buf, write_index + 4) }"

definition write_htole48 :: "byte list \<Rightarrow> u32 \<Rightarrow> u64 \<Rightarrow> (byte list \<times> u32) option" where
  "write_htole48 buf write_index v = do {
     (buf, write_index) \<leftarrow> write_htole32 buf write_index (ucast v);
     write_htole16 buf write_index (ucast (drop_bit 32 v)) }"

definition write_htole64 :: "byte list \<Rightarrow> u32 \<Rightarrow> u64 \<Rightarrow> (byte list \<times> u32) option" where
  "write_htole64 buf write_index v = do {
     buf \<leftarrow> poke buf (unat write_index) (le_bytes 8 v);
     Some (buf, write_index + 8) }"

end
