(* ===== verification/ByteStream.thy ===== *)
theory ByteStream
  imports Prelude
begin

text \<open>
  The contract of a reader that consumes a byte sequence from the front.  Two classes of the code
  promise it: \<^verbatim>\<open>MsgBufReader\<close> over a chunked message buffer and \<^verbatim>\<open>PacketBuf\<close> over its readable
  region.  What a client may conclude from the contract is proved here once.
\<close>

locale byte_stream =
  fixes inv :: "'s \<Rightarrow> bool"
    and content :: "'s \<Rightarrow> byte list"
    and offset :: "'s \<Rightarrow> nat"
    and rd :: "nat \<Rightarrow> 's \<Rightarrow> (byte list \<times> 's) option"
  assumes offset_bound: "inv s \<Longrightarrow> offset s \<le> length (content s)"
    and rd_enough: "inv s \<Longrightarrow> offset s + n \<le> length (content s) \<Longrightarrow>
      \<exists>s'. rd n s = Some (take n (drop (offset s) (content s)), s') \<and> inv s'
           \<and> content s' = content s \<and> offset s' = offset s + n"
    and rd_short: "inv s \<Longrightarrow> length (content s) < offset s + n \<Longrightarrow> rd n s = None"
begin

definition rest :: "'s \<Rightarrow> byte list" where
  "rest s = drop (offset s) (content s)"

lemma rd_rest:
  assumes "inv s" and "rest s = bs @ more"
  shows "\<exists>s'. rd (length bs) s = Some (bs, s') \<and> inv s' \<and> rest s' = more
              \<and> content s' = content s \<and> offset s' = offset s + length bs"
proof -
  have "length (content s) - offset s = length bs + length more"
    using arg_cong[OF assms(2), of length] by (simp add: rest_def)
  then have "offset s + length bs \<le> length (content s)"
    using offset_bound[OF assms(1)] by linarith
  from rd_enough[OF assms(1) this] obtain s' where
    "rd (length bs) s = Some (take (length bs) (drop (offset s) (content s)), s')"
    "inv s'" "content s' = content s" "offset s' = offset s + length bs" by blast
  moreover from this have "rest s' = drop (length bs) (rest s)" by (simp add: rest_def ac_simps)
  moreover have "take (length bs) (drop (offset s) (content s)) = bs"
    using assms(2) by (simp add: rest_def)
  ultimately show ?thesis using assms(2) by auto
qed

lemma rd_SomeD:
  assumes "inv s" and "rd n s = Some (bs, s')"
  shows "inv s' \<and> rest s = bs @ rest s' \<and> length bs = n \<and> content s' = content s
         \<and> offset s' = offset s + n"
proof -
  have "offset s + n \<le> length (content s)"
    using assms rd_short by (metis not_less option.distinct(1))
  from rd_enough[OF assms(1) this] assms(2) this show ?thesis
    by (auto simp: rest_def) (metis append_take_drop_id drop_drop add.commute)
qed

lemma rd_None_iff: "inv s \<Longrightarrow> rd n s = None \<longleftrightarrow> length (rest s) < n"
  using rd_enough[of s n] rd_short[of s n] offset_bound[of s]
  by (cases "length (content s) < offset s + n") (auto simp: rest_def)

lemma rd_split:
  assumes "inv s"
  shows "map_option fst (rd (m + n) s) =
    (case rd m s of None \<Rightarrow> None
     | Some (a, s') \<Rightarrow> map_option (\<lambda>(b, _). a @ b) (rd n s'))"
proof (cases "offset s + (m + n) \<le> length (content s)")
  case True
  then obtain s' where s': "rd m s = Some (take m (drop (offset s) (content s)), s')" "inv s'"
    "content s' = content s" "offset s' = offset s + m"
    using rd_enough[OF assms, of m] by auto
  obtain s'' where "rd n s' = Some (take n (drop (offset s') (content s')), s'')"
    using rd_enough[OF s'(2), of n] True s' by auto
  moreover obtain s3 where "rd (m + n) s = Some (take (m + n) (drop (offset s) (content s)), s3)"
    using rd_enough[OF assms True] by auto
  ultimately show ?thesis using s' by (simp add: take_add ac_simps)
next
  case False
  then have none: "rd (m + n) s = None" using rd_short[OF assms] by simp
  show ?thesis
  proof (cases "rd m s")
    case (Some p)
    obtain a s' where p: "p = (a, s')" by (cases p)
    with rd_SomeD[OF assms] Some have "inv s'" "content s' = content s" "offset s' = offset s + m"
      by auto
    then have "rd n s' = None" using False rd_short by simp
    then show ?thesis using Some p none by simp
  qed (simp add: none)
qed

end

end
