(* ===== verification/MsgBuf.thy ===== *)
theory MsgBuf
  imports ByteOrder ByteStream
begin

text \<open>
  The chunked message buffer of \<^verbatim>\<open>src/common/msg_buf.{h,cpp}\<close>: \<^verbatim>\<open>MsgBuf\<close> is a deque of chunks,
  \<^verbatim>\<open>MsgBufReader\<close> an iterator into it, \<^verbatim>\<open>MysqlBufReader\<close> the length-encoded reads on top.  A chunk
  is its bytes (ownership of the memory is not modelled).  A read returns its status, the bytes it
  copied to the destination (a failed read has copied a prefix) and the reader.
\<close>

section \<open>MsgBuf\<close>

type_synonym chunks = "byte list list"

primrec MsgBuf_byte_size_loop :: "nat \<Rightarrow> chunks \<Rightarrow> nat" where
  "MsgBuf_byte_size_loop result [] = result"
| "MsgBuf_byte_size_loop result (chunk # cs) = MsgBuf_byte_size_loop (result + length chunk) cs"

definition MsgBuf_byte_size :: "chunks \<Rightarrow> nat" where
  "MsgBuf_byte_size cs = MsgBuf_byte_size_loop 0 cs"

primrec MsgBuf_bytes_loop :: "chunks \<Rightarrow> cursor \<Rightarrow> cursor option" where
  "MsgBuf_bytes_loop [] c = Some c"
| "MsgBuf_bytes_loop (chunk # cs) c = emit chunk c \<bind> MsgBuf_bytes_loop cs"

definition MsgBuf_bytes :: "chunks \<Rightarrow> byte list \<Rightarrow> (byte list \<times> nat) option" where
  "MsgBuf_bytes cs buff = MsgBuf_bytes_loop cs (buff, 0)"

definition MsgBuf_push_back :: "chunks \<Rightarrow> byte list \<Rightarrow> chunks" where
  "MsgBuf_push_back cs chunk = cs @ [chunk]"

definition MsgBuf_push_back_copy :: "chunks \<Rightarrow> byte list \<Rightarrow> nat \<Rightarrow> chunks option" where
  "MsgBuf_push_back_copy cs buffer sz = map_option (\<lambda>nbuf. cs @ [nbuf]) (peek sz buffer 0)"

definition MsgBuf_push_front :: "chunks \<Rightarrow> byte list \<Rightarrow> chunks" where
  "MsgBuf_push_front cs chunk = chunk # cs"

lemma MsgBuf_byte_size_loop: "MsgBuf_byte_size_loop n cs = n + length (concat cs)"
  by (induction cs arbitrary: n) simp_all

lemma MsgBuf_byte_size_concat: "MsgBuf_byte_size cs = length (concat cs)"
  by (simp add: MsgBuf_byte_size_def MsgBuf_byte_size_loop)

lemma MsgBuf_bytes_loop_emit:
  "snd c \<le> length (fst c) \<Longrightarrow> MsgBuf_bytes_loop cs c = emit (concat cs) c"
proof (induction cs arbitrary: c)
  case Nil
  then show ?case by (cases c) simp
next
  case (Cons chunk cs)
  obtain buf pos where c: "c = (buf, pos)" by (cases c)
  show ?case
  proof (cases "emit chunk c")
    case None
    then show ?thesis by (simp add: c emit_overflow)
  next
    case (Some c')
    moreover have "snd c' \<le> length (fst c')"
      using Some by (auto simp: c emit_def poke_def split: if_splits)
    moreover have "emit (concat (chunk # cs)) c = emit chunk c \<bind> emit (concat cs)" by simp
    ultimately show ?thesis using Cons.IH by simp
  qed
qed


section \<open>MsgBufReader\<close>

record MsgBufReader =
  rd_buffer :: chunks
  rd_iter :: nat
  rd_pos :: nat
  rd_byte_size :: nat
  rd_read_size :: nat

definition MsgBufReader_init :: "chunks \<Rightarrow> MsgBufReader" where
  "MsgBufReader_init buffer =
     \<lparr>rd_buffer = buffer, rd_iter = 0, rd_pos = 0,
      rd_byte_size = MsgBuf_byte_size buffer, rd_read_size = 0\<rparr>"

text \<open>
  The loop of \<^verbatim>\<open>read(buf, size, skip)\<close> from \<^verbatim>\<open>chunk_iter\<close> on.  The first component of the result
  is the new position, when the request was met.
\<close>

fun read_loop ::
  "chunks \<Rightarrow> nat \<Rightarrow> nat \<Rightarrow> nat \<Rightarrow> nat \<Rightarrow> byte list \<Rightarrow> (nat \<times> nat) option \<times> byte list" where
  "read_loop [] chunk_iter chunk_pos read_size sz out = (None, out)"
| "read_loop (chunk # cs) chunk_iter chunk_pos read_size sz out =
     (if \<not> read_size < sz then (None, out)
      else let chunk_size = length chunk - chunk_pos in
        if sz \<le> read_size + chunk_size
        then (Some (chunk_iter, chunk_pos + (sz - read_size)),
              out @ take (sz - read_size) (drop chunk_pos chunk))
        else read_loop cs (chunk_iter + 1) 0 (read_size + chunk_size) sz
               (out @ drop chunk_pos chunk))"

definition MsgBufReader_read_skip ::
  "MsgBufReader \<Rightarrow> nat \<Rightarrow> bool \<Rightarrow> int \<times> byte list \<times> MsgBufReader" where
  "MsgBufReader_read_skip rd sz skip =
     (let (found, out) = read_loop (drop (rd_iter rd) (rd_buffer rd)) (rd_iter rd) (rd_pos rd) 0 sz [];
          copied = (if skip then [] else out) in
      case found of
        Some (chunk_iter, chunk_pos) \<Rightarrow>
          (0, copied, rd\<lparr>rd_iter := chunk_iter, rd_pos := chunk_pos,
                        rd_read_size := rd_read_size rd + sz\<rparr>)
      | None \<Rightarrow> (-1, copied, rd))"

text \<open>The destination of \<^verbatim>\<open>read(buf, size)\<close> is never null at its call sites.\<close>

definition MsgBufReader_read :: "MsgBufReader \<Rightarrow> nat \<Rightarrow> int \<times> byte list \<times> MsgBufReader" where
  "MsgBufReader_read rd sz =
     (if sz = 0 then (0, [], rd) else MsgBufReader_read_skip rd sz False)"

definition MsgBufReader_forward :: "MsgBufReader \<Rightarrow> nat \<Rightarrow> int \<times> MsgBufReader" where
  "MsgBufReader_forward rd count =
     (let (ret, _, rd') = MsgBufReader_read_skip rd count True in (ret, rd'))"

text \<open>An integer variable of \<^verbatim>\<open>w\<close> bits whose first bytes are overwritten in memory.\<close>

definition overlay :: "byte list \<Rightarrow> 'a::len word \<Rightarrow> 'a word" where
  "overlay bs w = le_word (bs @ drop (length bs) (le_bytes (LENGTH('a) div 8) w))"

definition read_into :: "MsgBufReader \<Rightarrow> nat \<Rightarrow> 'a::len word \<Rightarrow> int \<times> 'a word \<times> MsgBufReader" where
  "read_into rd sz i =
     (let (ret, bs, rd') = MsgBufReader_read rd sz in (ret, overlay bs i, rd'))"

definition MsgBufReader_read_uint8 :: "MsgBufReader \<Rightarrow> u8 \<Rightarrow> int \<times> u8 \<times> MsgBufReader" where
  "MsgBufReader_read_uint8 rd i = read_into rd 1 i"

definition MsgBufReader_read_uint16 :: "MsgBufReader \<Rightarrow> u16 \<Rightarrow> int \<times> u16 \<times> MsgBufReader" where
  "MsgBufReader_read_uint16 rd i = read_into rd 2 i"

definition MsgBufReader_read_uint24 :: "MsgBufReader \<Rightarrow> u32 \<Rightarrow> int \<times> u32 \<times> MsgBufReader" where
  "MsgBufReader_read_uint24 rd i = read_into rd 3 i"

definition MsgBufReader_read_uint32 :: "MsgBufReader \<Rightarrow> u32 \<Rightarrow> int \<times> u32 \<times> MsgBufReader" where
  "MsgBufReader_read_uint32 rd i = read_into rd 4 i"

definition MsgBufReader_read_uint48 :: "MsgBufReader \<Rightarrow> u64 \<Rightarrow> int \<times> u64 \<times> MsgBufReader" where
  "MsgBufReader_read_uint48 rd i = read_into rd 6 i"

definition MsgBufReader_read_uint64 :: "MsgBufReader \<Rightarrow> u64 \<Rightarrow> int \<times> u64 \<times> MsgBufReader" where
  "MsgBufReader_read_uint64 rd i = read_into rd 8 i"

text \<open>
  \<^verbatim>\<open>next\<close> hands out the rest of the current chunk, skipping empty ones.  It moves the iterator and
  leaves \<^verbatim>\<open>_read_size\<close> alone.  The first argument of the loop is the list of chunks from the
  iterator on, not empty.
\<close>

fun next_loop :: "chunks \<Rightarrow> nat \<Rightarrow> nat \<Rightarrow> byte list \<times> nat" where
  "next_loop [] it p = ([], it)"
| "next_loop (chunk # cs) it p =
     (let piece = drop p chunk in
      if piece = [] \<and> cs \<noteq> [] then next_loop cs (it + 1) 0 else (piece, it + 1))"

definition MsgBufReader_next :: "MsgBufReader \<Rightarrow> int \<times> byte list \<times> MsgBufReader" where
  "MsgBufReader_next rd =
     (if length (rd_buffer rd) \<le> rd_iter rd then (-1, [], rd)
      else let (piece, it) = next_loop (drop (rd_iter rd) (rd_buffer rd)) (rd_iter rd) (rd_pos rd);
               rd' = rd\<lparr>rd_iter := it, rd_pos := 0\<rparr> in
           if piece = [] \<and> length (rd_buffer rd) \<le> it then (-1, piece, rd') else (0, piece, rd'))"

text \<open>\<^verbatim>\<open>--chunk_iter\<close> at \<^verbatim>\<open>begin()\<close> is undefined behaviour, the value \<^verbatim>\<open>None\<close> of the loop.\<close>

fun backward_loop :: "chunks \<Rightarrow> nat \<Rightarrow> nat \<Rightarrow> nat \<Rightarrow> (nat \<times> nat) option" where
  "backward_loop cs chunk_iter chunk_pos backward_count =
     (if chunk_pos < backward_count
      then case chunk_iter of 0 \<Rightarrow> None
           | Suc it \<Rightarrow> backward_loop cs it (length (cs ! it)) (backward_count - chunk_pos)
      else Some (chunk_iter, if 0 < backward_count then chunk_pos - backward_count else chunk_pos))"

declare backward_loop.simps [simp del]

definition MsgBufReader_backward :: "MsgBufReader \<Rightarrow> nat \<Rightarrow> (int \<times> MsgBufReader) option" where
  "MsgBufReader_backward rd count =
     (if rd_read_size rd < count then Some (-1, rd)
      else map_option (\<lambda>(it, p). (0, rd\<lparr>rd_iter := it, rd_pos := p,
                                     rd_read_size := rd_read_size rd - count\<rparr>))
             (backward_loop (rd_buffer rd) (rd_iter rd) (rd_pos rd) count))"

definition MsgBufReader_remain_size :: "MsgBufReader \<Rightarrow> nat" where
  "MsgBufReader_remain_size rd = rd_byte_size rd - rd_read_size rd"

fun has_more_loop :: "chunks \<Rightarrow> nat \<Rightarrow> bool" where
  "has_more_loop [] p = False"
| "has_more_loop (chunk # cs) p = (if p < length chunk then True else has_more_loop cs 0)"

definition MsgBufReader_has_more :: "MsgBufReader \<Rightarrow> bool" where
  "MsgBufReader_has_more rd = has_more_loop (drop (rd_iter rd) (rd_buffer rd)) (rd_pos rd)"


section \<open>MysqlBufReader\<close>

text \<open>The statuses of the inner reads are ignored by the code.\<close>

definition MysqlBufReader_read_lenenc_uint :: "MsgBufReader \<Rightarrow> int \<times> u64 \<times> MsgBufReader" where
  "MysqlBufReader_read_lenenc_uint rd =
     (let (_, b, rd) = read_into rd 1 (0 :: u8) in
      if b < 251 then (0, ucast b, rd)
      else if b = 252 then (let (_, v, rd) = read_into rd 2 0 in (0, v, rd))
      else if b = 253 then (let (_, v, rd) = read_into rd 3 0 in (0, v, rd))
      else if b = 254 then (let (_, v, rd) = read_into rd 8 0 in (0, v, rd))
      else if b = 251 then (251, 0, rd)
      else if b = 255 then (255, 0, rd)
      else (0, 0, rd))"

definition MysqlBufReader_read_lenenc_str :: "MsgBufReader \<Rightarrow> byte list \<times> MsgBufReader" where
  "MysqlBufReader_read_lenenc_str rd =
     (let (_, len, rd) = MysqlBufReader_read_lenenc_uint rd;
          (_, bs, rd) = MsgBufReader_read rd (unat len) in
      (bs @ replicate (unat len - length bs) 0, rd))"


section \<open>The reader refines reading the flat byte sequence\<close>

definition rd_content :: "MsgBufReader \<Rightarrow> byte list" where
  "rd_content rd = concat (rd_buffer rd)"

definition rd_offset :: "MsgBufReader \<Rightarrow> nat" where
  "rd_offset rd = length (concat (take (rd_iter rd) (rd_buffer rd))) + rd_pos rd"

definition rd_pos_ok :: "MsgBufReader \<Rightarrow> bool" where
  "rd_pos_ok rd \<longleftrightarrow> rd_iter rd \<le> length (rd_buffer rd) \<and>
     (if rd_iter rd < length (rd_buffer rd) then rd_pos rd \<le> length (rd_buffer rd ! rd_iter rd)
      else rd_pos rd = 0)"

definition rd_inv :: "MsgBufReader \<Rightarrow> bool" where
  "rd_inv rd \<longleftrightarrow> rd_pos_ok rd \<and> rd_byte_size rd = length (rd_content rd)
     \<and> rd_read_size rd = rd_offset rd"

definition pos_fits :: "chunks \<Rightarrow> nat \<Rightarrow> bool" where
  "pos_fits cs p \<longleftrightarrow> (case cs of [] \<Rightarrow> p = 0 | c # _ \<Rightarrow> p \<le> length c)"

lemma read_loop_enough:
  assumes "pos_fits cs p" "rs < sz" "sz - rs \<le> length (drop p (concat cs))"
  shows "\<exists>k q. read_loop cs it p rs sz out = (Some (it + k, q), out @ take (sz - rs) (drop p (concat cs)))
    \<and> k < length cs \<and> q \<le> length (cs ! k) \<and> length (concat (take k cs)) + q = p + (sz - rs)"
  using assms
proof (induction cs arbitrary: it p rs out)
  case (Cons c cs)
  then have p: "p \<le> length c" by (simp add: pos_fits_def)
  show ?case
  proof (cases "sz \<le> rs + (length c - p)")
    case True
    then show ?thesis using Cons.prems p
      by (intro exI[of _ 0] exI[of _ "p + (sz - rs)"]) (simp add: Let_def)
  next
    case False
    let ?rs = "rs + (length c - p)"
    have "pos_fits cs 0" by (simp add: pos_fits_def split: list.splits)
    moreover have "?rs < sz" using False by simp
    moreover have "sz - ?rs \<le> length (drop 0 (concat cs))" using Cons.prems(3) p by simp
    ultimately obtain k q where kq:
      "read_loop cs (it + 1) 0 ?rs sz (out @ drop p c)
         = (Some (it + 1 + k, q), (out @ drop p c) @ take (sz - ?rs) (drop 0 (concat cs)))"
      "k < length cs" "q \<le> length (cs ! k)"
      "length (concat (take k cs)) + q = 0 + (sz - ?rs)"
      using Cons.IH by blast
    have "take (sz - rs) (drop p (concat (c # cs))) = drop p c @ take (sz - ?rs) (concat cs)"
      using p False by simp
    then show ?thesis using kq False Cons.prems(2) p
      by (intro exI[of _ "Suc k"] exI[of _ q]) (simp add: Let_def)
  qed
qed simp

lemma read_loop_short:
  assumes "pos_fits cs p" "length (drop p (concat cs)) < sz - rs"
  shows "read_loop cs it p rs sz out = (None, out @ drop p (concat cs))"
  using assms
proof (induction cs arbitrary: it p rs out)
  case (Cons c cs)
  then have p: "p \<le> length c" by (simp add: pos_fits_def)
  have "pos_fits cs 0" by (simp add: pos_fits_def split: list.splits)
  moreover have "length (drop 0 (concat cs)) < sz - (rs + (length c - p))"
    using Cons.prems(2) p by simp
  ultimately have "read_loop cs (it + 1) 0 (rs + (length c - p)) sz (out @ drop p c)
      = (None, (out @ drop p c) @ drop 0 (concat cs))"
    using Cons.IH by blast
  moreover have lt: "rs < sz" "\<not> sz \<le> rs + (length c - p)" using Cons.prems(2) p by auto
  ultimately show ?case using p by (simp add: Let_def lt)
qed simp

lemma rd_pos_ok_fits: "rd_pos_ok rd \<Longrightarrow> pos_fits (drop (rd_iter rd) (rd_buffer rd)) (rd_pos rd)"
  by (cases "rd_iter rd < length (rd_buffer rd)")
     (auto simp: rd_pos_ok_def pos_fits_def Cons_nth_drop_Suc[symmetric])

lemma rd_rest_eq:
  "rd_pos_ok rd \<Longrightarrow> drop (rd_offset rd) (rd_content rd)
     = drop (rd_pos rd) (concat (drop (rd_iter rd) (rd_buffer rd)))"
proof -
  have "rd_content rd = concat (take (rd_iter rd) (rd_buffer rd)) @ concat (drop (rd_iter rd) (rd_buffer rd))"
    unfolding rd_content_def by (metis append_take_drop_id concat_append)
  then show ?thesis by (simp add: rd_offset_def)
qed

lemma rd_offset_bound: "rd_pos_ok rd \<Longrightarrow> rd_offset rd \<le> length (rd_content rd)"
proof -
  assume ok: "rd_pos_ok rd"
  have "rd_pos rd \<le> length (concat (drop (rd_iter rd) (rd_buffer rd)))"
    using rd_pos_ok_fits[OF ok]
    by (auto simp: pos_fits_def split: list.splits)
  moreover have "length (rd_content rd) = length (concat (take (rd_iter rd) (rd_buffer rd)))
      + length (concat (drop (rd_iter rd) (rd_buffer rd)))"
    unfolding rd_content_def by (metis append_take_drop_id concat_append length_append)
  ultimately show ?thesis by (simp add: rd_offset_def)
qed

lemma read_skip_enough:
  assumes inv: "rd_inv rd" and n: "0 < n" "rd_offset rd + n \<le> length (rd_content rd)"
  shows "\<exists>rd'. MsgBufReader_read_skip rd n skip =
      (0, if skip then [] else take n (drop (rd_offset rd) (rd_content rd)), rd')
      \<and> rd_inv rd' \<and> rd_content rd' = rd_content rd \<and> rd_offset rd' = rd_offset rd + n"
proof -
  let ?cs = "drop (rd_iter rd) (rd_buffer rd)"
  have ok: "rd_pos_ok rd" using inv by (simp add: rd_inv_def)
  have "n - 0 \<le> length (drop (rd_pos rd) (concat ?cs))"
    using n rd_rest_eq[OF ok] rd_offset_bound[OF ok] by (metis diff_zero length_drop le_diff_conv2 add.commute)
  with read_loop_enough[OF rd_pos_ok_fits[OF ok], of 0 n "rd_iter rd" "[]"] n(1)
  obtain k q where kq: "read_loop ?cs (rd_iter rd) (rd_pos rd) 0 n []
      = (Some (rd_iter rd + k, q), take n (drop (rd_pos rd) (concat ?cs)))"
    "k < length ?cs" "q \<le> length (?cs ! k)" "length (concat (take k ?cs)) + q = rd_pos rd + n"
    by auto
  let ?rd = "rd\<lparr>rd_iter := rd_iter rd + k, rd_pos := q, rd_read_size := rd_read_size rd + n\<rparr>"
  have "take (rd_iter rd + k) (rd_buffer rd) = take (rd_iter rd) (rd_buffer rd) @ take k ?cs"
    by (simp add: take_add)
  then have off: "rd_offset ?rd = rd_offset rd + n" using kq(4) by (simp add: rd_offset_def)
  moreover have "rd_pos_ok ?rd" using kq(2,3) by (auto simp: rd_pos_ok_def)
  ultimately have "rd_inv ?rd" using inv by (simp add: rd_inv_def rd_content_def)
  then show ?thesis using kq(1) off rd_rest_eq[OF ok]
    by (simp add: MsgBufReader_read_skip_def rd_content_def)
qed

lemma read_skip_short:
  assumes inv: "rd_inv rd" and n: "length (rd_content rd) < rd_offset rd + n"
  shows "MsgBufReader_read_skip rd n skip =
      (- 1, if skip then [] else drop (rd_offset rd) (rd_content rd), rd)"
proof -
  have ok: "rd_pos_ok rd" using inv by (simp add: rd_inv_def)
  have "length (drop (rd_pos rd) (concat (drop (rd_iter rd) (rd_buffer rd)))) < n - 0"
    using n rd_rest_eq[OF ok, symmetric] rd_offset_bound[OF ok] by simp
  from read_loop_short[OF rd_pos_ok_fits[OF ok] this] show ?thesis
    by (simp add: MsgBufReader_read_skip_def rd_rest_eq[OF ok])
qed


definition rd_take :: "nat \<Rightarrow> MsgBufReader \<Rightarrow> (byte list \<times> MsgBufReader) option" where
  "rd_take n rd = (let (ret, bs, rd') = MsgBufReader_read rd n in if ret = 0 then Some (bs, rd') else None)"

interpretation mr: byte_stream rd_inv rd_content rd_offset rd_take
proof
  fix rd n assume inv: "rd_inv rd"
  then show "rd_offset rd \<le> length (rd_content rd)" by (simp add: rd_inv_def rd_offset_bound)
  show "\<exists>rd'. rd_take n rd = Some (take n (drop (rd_offset rd) (rd_content rd)), rd') \<and> rd_inv rd'
      \<and> rd_content rd' = rd_content rd \<and> rd_offset rd' = rd_offset rd + n"
    if "rd_offset rd + n \<le> length (rd_content rd)"
  proof (cases "n = 0")
    case True
    then show ?thesis using inv by (simp add: rd_take_def MsgBufReader_read_def)
  next
    case False
    then show ?thesis using read_skip_enough[OF inv _ that, of False]
      by (auto simp: rd_take_def MsgBufReader_read_def)
  qed
  show "rd_take n rd = None" if "length (rd_content rd) < rd_offset rd + n"
  proof -
    have "n \<noteq> 0" using that inv rd_offset_bound[of rd] by (auto simp: rd_inv_def)
    then show ?thesis using read_skip_short[OF inv that, of False]
      by (simp add: rd_take_def MsgBufReader_read_def)
  qed
qed

lemma MsgBufReader_init_inv: "rd_inv (MsgBufReader_init cs)"
  by (auto simp: rd_inv_def MsgBufReader_init_def rd_pos_ok_def rd_content_def rd_offset_def
      MsgBuf_byte_size_concat)

lemma rd_rest_init: "mr.rest (MsgBufReader_init cs) = concat cs"
  by (simp add: mr.rest_def MsgBufReader_init_def rd_offset_def rd_content_def)

lemma read_rest:
  assumes "rd_inv rd" "mr.rest rd = bs @ qs"
  shows "\<exists>rd'. MsgBufReader_read rd (length bs) = (0, bs, rd') \<and> rd_inv rd' \<and> mr.rest rd' = qs"
  using mr.rd_rest[OF assms] by (auto simp: rd_take_def split: prod.splits if_splits)

lemma remain_size_rest: "rd_inv rd \<Longrightarrow> MsgBufReader_remain_size rd = length (mr.rest rd)"
  by (simp add: rd_inv_def MsgBufReader_remain_size_def mr.rest_def)

lemma has_more_loop: "pos_fits cs p \<Longrightarrow> has_more_loop cs p \<longleftrightarrow> drop p (concat cs) \<noteq> []"
  by (induction cs p rule: has_more_loop.induct) (auto simp: pos_fits_def split: list.splits)

lemma has_more_rest: "rd_inv rd \<Longrightarrow> MsgBufReader_has_more rd \<longleftrightarrow> mr.rest rd \<noteq> []"
  by (simp add: rd_inv_def MsgBufReader_has_more_def mr.rest_def has_more_loop rd_pos_ok_fits rd_rest_eq
      del: drop_eq_Nil)

lemma forward_rest:
  assumes "rd_inv rd" "mr.rest rd = bs @ qs" "bs \<noteq> []"
  shows "\<exists>rd'. MsgBufReader_forward rd (length bs) = (0, rd') \<and> rd_inv rd' \<and> mr.rest rd' = qs"
proof -
  have "rd_offset rd + length bs \<le> length (rd_content rd)"
    using mr.offset_bound[OF assms(1)] arg_cong[OF assms(2), of length] by (simp add: mr.rest_def)
  from read_skip_enough[OF assms(1) _ this, of True] assms(3) obtain rd' where rd':
    "MsgBufReader_read_skip rd (length bs) True = (0, [], rd')" "rd_inv rd'"
    "rd_content rd' = rd_content rd" "rd_offset rd' = rd_offset rd + length bs" by auto
  have "mr.rest rd' = drop (length bs) (mr.rest rd)"
    using rd' by (simp add: mr.rest_def add.commute)
  then show ?thesis using rd' assms(2) by (simp add: MsgBufReader_forward_def)
qed

lemma backward_loop_ok:
  assumes "it \<le> length cs" "if it < length cs then p \<le> length (cs ! it) else p = 0"
    and "count \<le> length (concat (take it cs)) + p"
  shows "\<exists>it' q. backward_loop cs it p count = Some (it', q) \<and> it' \<le> length cs
    \<and> (if it' < length cs then q \<le> length (cs ! it') else q = 0)
    \<and> length (concat (take it' cs)) + q = length (concat (take it cs)) + p - count"
  using assms
proof (induction it arbitrary: p count)
  case 0
  then show ?case by (auto simp: backward_loop.simps)
next
  case (Suc it)
  show ?case
  proof (cases "p < count")
    case False
    then show ?thesis using Suc.prems by (subst backward_loop.simps) auto
  next
    case True
    have len: "length (concat (take (Suc it) cs)) = length (concat (take it cs)) + length (cs ! it)"
      using Suc.prems(1) by (simp add: take_Suc_conv_app_nth)
    have "count - p \<le> length (concat (take it cs)) + length (cs ! it)"
      using Suc.prems(3) len True by simp
    then obtain it' q where "backward_loop cs it (length (cs ! it)) (count - p) = Some (it', q)"
      "it' \<le> length cs" "if it' < length cs then q \<le> length (cs ! it') else q = 0"
      "length (concat (take it' cs)) + q = length (concat (take it cs)) + length (cs ! it) - (count - p)"
      using Suc.IH[of "length (cs ! it)" "count - p"] Suc.prems(1) by auto
    moreover have "backward_loop cs (Suc it) p count = backward_loop cs it (length (cs ! it)) (count - p)"
      using True by (subst backward_loop.simps) simp
    ultimately show ?thesis using len True Suc.prems(3) by auto
  qed
qed

lemma backward_ok:
  assumes inv: "rd_inv rd" and count: "count \<le> rd_offset rd"
  shows "\<exists>rd'. MsgBufReader_backward rd count = Some (0, rd') \<and> rd_inv rd'
     \<and> rd_content rd' = rd_content rd \<and> rd_offset rd' = rd_offset rd - count"
proof -
  from inv have ok: "rd_iter rd \<le> length (rd_buffer rd)"
    "if rd_iter rd < length (rd_buffer rd) then rd_pos rd \<le> length (rd_buffer rd ! rd_iter rd) else rd_pos rd = 0"
    and rs: "rd_read_size rd = rd_offset rd"
    by (simp_all add: rd_inv_def rd_pos_ok_def)
  from backward_loop_ok[OF ok, of count] count obtain it q where bl:
    "backward_loop (rd_buffer rd) (rd_iter rd) (rd_pos rd) count = Some (it, q)" "it \<le> length (rd_buffer rd)"
    "if it < length (rd_buffer rd) then q \<le> length (rd_buffer rd ! it) else q = 0"
    "length (concat (take it (rd_buffer rd))) + q = rd_offset rd - count"
    by (auto simp: rd_offset_def)
  let ?rd = "rd\<lparr>rd_iter := it, rd_pos := q, rd_read_size := rd_read_size rd - count\<rparr>"
  have "rd_offset ?rd = rd_offset rd - count" "rd_pos_ok ?rd" "rd_content ?rd = rd_content rd"
    "MsgBufReader_backward rd count = Some (0, ?rd)"
    using bl count rs by (simp_all add: rd_offset_def rd_pos_ok_def rd_content_def MsgBufReader_backward_def)
  then show ?thesis using inv by (simp add: rd_inv_def)
qed

lemma backward_too_far:
  "rd_inv rd \<Longrightarrow> rd_offset rd < count \<Longrightarrow> MsgBufReader_backward rd count = Some (-1, rd)"
  by (simp add: MsgBufReader_backward_def rd_inv_def)


section \<open>Length-encoded integers over the reader\<close>

lemma le_bytes_0: "le_bytes n (0 :: 'a::len word) = replicate n 0"
  by (simp add: le_bytes_def map_replicate_const)

lemma le_word_append_zeros: "le_word (bs @ replicate n 0) = (le_word bs :: 'a::len word)"
proof (induction bs)
  case Nil
  then show ?case by (induction n) simp_all
qed simp

lemma overlay_zero: "overlay bs (0 :: 'a::len word) = le_word bs"
  by (simp add: overlay_def le_bytes_0 le_word_append_zeros)

lemma overlay_full: "LENGTH('a) div 8 \<le> length bs \<Longrightarrow> overlay bs (w :: 'a::len word) = le_word bs"
  by (simp add: overlay_def)

lemma read_into_rest:
  assumes "rd_inv rd" "mr.rest rd = bs @ qs" "n = length bs"
  shows "\<exists>rd'. read_into rd n i = (0, overlay bs i, rd') \<and> rd_inv rd' \<and> mr.rest rd' = qs"
  using read_rest[OF assms(1,2)] assms(3) by (auto simp: read_into_def)

lemma read_lenenc_uint_rest:
  assumes inv: "rd_inv rd" and rest: "mr.rest rd = packet_store_length v @ qs"
  shows "\<exists>rd'. MysqlBufReader_read_lenenc_uint rd = (0, v, rd') \<and> rd_inv rd' \<and> mr.rest rd' = qs"
proof -
  from packet_store_length_first obtain b bs where b: "packet_store_length v = b # bs"
    and cases: "v < 251 \<and> b < 251 \<and> bs = [] \<and> ucast b = v
      \<or> b = 252 \<and> length bs = 2 \<and> le_word bs = v
      \<or> b = 253 \<and> length bs = 3 \<and> le_word bs = v
      \<or> b = 254 \<and> length bs = 8 \<and> le_word bs = v" by blast
  have "mr.rest rd = [b] @ bs @ qs" using rest b by simp
  from read_into_rest[OF inv this, of 1 "0 :: u8"] obtain rd1 where rd1:
    "read_into rd 1 (0 :: u8) = (0, b, rd1)" "rd_inv rd1" "mr.rest rd1 = bs @ qs"
    by (auto simp: overlay_zero)
  obtain rd2 where rd2: "read_into rd1 (length bs) (0 :: u64) = (0, le_word bs, rd2)" "rd_inv rd2"
    "mr.rest rd2 = qs"
    using read_into_rest[OF rd1(2,3) refl, of "0 :: u64"] by (auto simp: overlay_zero)
  from cases show ?thesis
    using rd1 rd2 by (auto simp: MysqlBufReader_read_lenenc_uint_def)
qed

lemma read_lenenc_str_rest:
  assumes "rd_inv rd" "mr.rest rd = packet_store_length (of_nat (length s)) @ s @ qs" "length s < 2 ^ 64"
  shows "\<exists>rd'. MysqlBufReader_read_lenenc_str rd = (s, rd') \<and> rd_inv rd' \<and> mr.rest rd' = qs"
proof -
  from read_lenenc_uint_rest[OF assms(1,2)] obtain rd1 where rd1:
    "MysqlBufReader_read_lenenc_uint rd = (0, of_nat (length s), rd1)" "rd_inv rd1" "mr.rest rd1 = s @ qs"
    by blast
  moreover have "unat (of_nat (length s) :: u64) = length s"
    using assms(3) by simp
  ultimately show ?thesis using read_rest[OF rd1(2,3)]
    by (auto simp: MysqlBufReader_read_lenenc_str_def)
qed


section \<open>Properties\<close>

text \<open>
  C12.  \<^verbatim>\<open>MsgBufReader::read\<close> does not depend on how the bytes are cut into chunks.  With the reader
  at an offset of the flat content, a read of \<^verbatim>\<open>n\<close> bytes returns the next \<^verbatim>\<open>n\<close> bytes and advances
  the offset by \<^verbatim>\<open>n\<close> when they are there; otherwise it returns -1 and, as its comment says, the
  reading position is untouched (the bytes that were there have been copied).
\<close>

theorem read_is_flat_read:
  assumes "rd_inv rd"
  shows "if rd_offset rd + n \<le> length (rd_content rd)
     then \<exists>rd'. MsgBufReader_read rd n = (0, take n (drop (rd_offset rd) (rd_content rd)), rd')
            \<and> rd_inv rd' \<and> rd_content rd' = rd_content rd \<and> rd_offset rd' = rd_offset rd + n
     else MsgBufReader_read rd n = (-1, drop (rd_offset rd) (rd_content rd), rd)"
proof (cases "rd_offset rd + n \<le> length (rd_content rd)")
  case True
  then show ?thesis using assms read_skip_enough[OF assms, of n False]
    by (cases "n = 0") (auto simp: MsgBufReader_read_def)
next
  case False
  then have "n \<noteq> 0" using mr.offset_bound[OF assms] by auto
  then show ?thesis using False read_skip_short[OF assms, of n False]
    by (simp add: MsgBufReader_read_def)
qed

theorem read_is_flat_read_witness:
  "rd_inv (MsgBufReader_init [[1, 2], [], [3, 4, 5]]) \<and>
   (\<exists>rd'. MsgBufReader_read (MsgBufReader_init [[1, 2], [], [3, 4, 5]]) 4 = (0, [1, 2, 3, 4], rd'))"
  using read_is_flat_read [of "MsgBufReader_init [[1, 2], [], [3, 4, 5]]" 4]
    MsgBufReader_init_inv[of "[[1, 2], [], [3, 4, 5]]"]
  by (auto simp: rd_offset_def rd_content_def MsgBufReader_init_def)

text \<open>
  C27.  \<^verbatim>\<open>backward\<close> never moves the iterator before the first chunk: it gives back any number of
  bytes that were consumed, and refuses more.
\<close>

theorem backward_is_flat_seek:
  assumes "rd_inv rd"
  shows "\<exists>ret rd'. MsgBufReader_backward rd count = Some (ret, rd') \<and> rd_inv rd'
     \<and> rd_content rd' = rd_content rd
     \<and> (if count \<le> rd_offset rd then ret = 0 \<and> rd_offset rd' = rd_offset rd - count
        else ret = -1 \<and> rd' = rd)"
  using backward_ok[OF assms, of count] backward_too_far[OF assms, of count] assms
  by (cases "count \<le> rd_offset rd") auto

theorem backward_is_flat_seek_witness:
  "let rd = snd (snd (MsgBufReader_read (MsgBufReader_init [[1, 2], [], [3, 4, 5]]) 4)) in
   rd_inv rd \<and> (\<exists>rd'. MsgBufReader_backward rd 3 = Some (0, rd') \<and> rd_offset rd' = 1)"
proof -
  let ?rd = "snd (snd (MsgBufReader_read (MsgBufReader_init [[1, 2], [], [3, 4, 5]]) 4))"
  have "rd_inv ?rd" "rd_offset ?rd = 4"
    by (simp_all add: MsgBufReader_read_def MsgBufReader_read_skip_def MsgBufReader_init_def
        MsgBuf_byte_size_def rd_inv_def rd_pos_ok_def rd_content_def rd_offset_def Let_def)
  then show ?thesis using backward_is_flat_seek [of ?rd 3] by (auto simp: Let_def)
qed

text \<open>
  C28.  A length-encoded integer written by \<^verbatim>\<open>packet_store_length\<close> is read back by
  \<^verbatim>\<open>MysqlBufReader::read_lenenc_uint\<close> for every 64-bit value and every way of cutting the message
  into chunks, and exactly its bytes are consumed.
\<close>

theorem lenenc_uint_roundtrip:
  assumes "concat cs = packet_store_length v @ qs"
  shows "\<exists>rd'. MysqlBufReader_read_lenenc_uint (MsgBufReader_init cs) = (0, v, rd')
     \<and> MsgBufReader_remain_size rd' = length qs"
proof -
  have "mr.rest (MsgBufReader_init cs) = packet_store_length v @ qs"
    using assms by (simp add: rd_rest_init)
  from read_lenenc_uint_rest[OF MsgBufReader_init_inv this] show ?thesis
    by (auto simp: remain_size_rest)
qed

theorem lenenc_uint_roundtrip_witness:
  "concat [[253, 0x45], [], [0x23, 0x01, 9]] = packet_store_length 0x012345 @ [9] \<and>
   (\<exists>rd'. MysqlBufReader_read_lenenc_uint (MsgBufReader_init [[253, 0x45], [], [0x23, 0x01, 9]])
      = (0, 0x012345, rd'))"
proof -
  have e: "concat [[253, 0x45], [], [0x23, 0x01, 9]] = packet_store_length 0x012345 @ [9]"
    by (simp add: packet_store_length_def int3store_def)
  show ?thesis using lenenc_uint_roundtrip [OF e] e by blast
qed

end
