(* ===== verification/MysqlPacket.thy ===== *)
theory MysqlPacket
  imports MsgBuf
begin

unbundle bit_operations_syntax

text \<open>
  The client side of the MySQL protocol, \<^verbatim>\<open>src/obaccess/ob_mysql_packet.{h,cpp}\<close>: length-encoded
  integers, and the packets the proxy exchanges with an observer.  A function that writes at a
  pointer returns its status and the bytes it wrote there.  A decoder takes the chunks of a message
  buffer and returns the status and the packet with the acc it assigned.  Memory from
  \<^verbatim>\<open>malloc\<close> is an argument \<^verbatim>\<open>mem\<close>: its bytes are arbitrary.
\<close>

section \<open>Strings and length-encoded integers\<close>

definition write_null_terminate_string :: "nat \<Rightarrow> byte list \<Rightarrow> int \<times> byte list" where
  "write_null_terminate_string capacity s =
     (if capacity < length s + 1 then (-1, []) else (int (length s) + 1, s @ [0]))"

definition write_string :: "nat \<Rightarrow> byte list \<Rightarrow> int \<times> byte list" where
  "write_string capacity s = (if capacity < length s then (-1, []) else (int (length s), s))"

definition write_lenenc_uint :: "nat \<Rightarrow> u64 \<Rightarrow> int \<times> byte list" where
  "write_lenenc_uint capacity integer =
     (if integer < 251 then (if 1 \<le> capacity then (1, [ucast integer]) else (-1, []))
      else if integer < 0x10000
        then (if 3 \<le> capacity then (3, 0xFC # le_bytes 2 (ucast integer :: u16)) else (-1, []))
      else if integer < 0x1000000
        then (if 4 \<le> capacity
              then (4, 0xFD # take 3 (drop 1 (le_bytes 4 (ucast integer :: u32)))) else (-1, []))
      else if integer < 0xFFFFFFFFFFFFFFFF
        then (if 9 \<le> capacity then (9, 0xFE # le_bytes 8 integer) else (-1, []))
      else if 1 \<le> capacity then (1, [0xFB]) else (-1, []))"

definition get_lenenc_uint :: "byte list \<Rightarrow> nat \<Rightarrow> (u64 \<times> nat) option" where
  "get_lenenc_uint buf pos = do {
     num \<leftarrow> int1load buf pos;
     if num < 251 then Some (ucast num, pos + 1)
     else if num = 251 then Some (0xFFFFFFFFFFFFFFFF, pos + 1)
     else if num = 252 then do {
       tmp \<leftarrow> peek 2 buf (pos + 1);
       Some (ucast (le_word tmp :: u32), pos + 3) }
     else if num = 253 then do {
       tmp \<leftarrow> peek 3 buf (pos + 1);
       Some (ucast (le_word tmp :: u32), pos + 4) }
     else do {
       tmp \<leftarrow> peek 4 buf (pos + 1);
       Some (ucast (le_word tmp :: u32), pos + 9) } }"

definition get_packed_integer :: "u64 \<Rightarrow> int" where
  "get_packed_integer v =
     (if v < 251 then 1 else if v < push_bit 16 2 then 3 else if v < push_bit 24 2 then 4 else 9)"


section \<open>Responses\<close>

record MySQLOkPacket =
  ok_affected_rows :: u64
  ok_last_insert_id :: u64

text \<open>
  The local \<^verbatim>\<open>packet_type\<close> is uninitialised when the read fails; \<^verbatim>\<open>junk\<close> is its initial value.
\<close>

definition MySQLOkPacket_decode :: "u8 \<Rightarrow> chunks \<Rightarrow> int \<times> MySQLOkPacket" where
  "MySQLOkPacket_decode junk msgbuf =
     (let reader = MsgBufReader_init msgbuf;
          (ret, packet_type, reader) = MsgBufReader_read_uint8 reader junk;
          (ret, affected, reader) = MysqlBufReader_read_lenenc_uint reader;
          (ret, last_id, reader) = MysqlBufReader_read_lenenc_uint reader in
      (if ret = 0 \<and> packet_type = 0 then 0 else -1,
       \<lparr>ok_affected_rows = affected, ok_last_insert_id = last_id\<rparr>))"

record MySQLEofPacket =
  eof_warnings_count :: u16
  eof_status_flags :: u16

definition MySQLEofPacket_decode :: "MySQLEofPacket \<Rightarrow> chunks \<Rightarrow> int \<times> MySQLEofPacket" where
  "MySQLEofPacket_decode eof msgbuf =
     (if 9 \<le> MsgBuf_byte_size msgbuf then (-1, eof)
      else let reader = MsgBufReader_init msgbuf;
               (_, code, reader) = MsgBufReader_read_uint8 reader 0 in
        if code \<noteq> 0xfe then (-1, eof)
        else let (_, w, reader) = MsgBufReader_read_uint16 reader (eof_warnings_count eof);
                 (_, f, reader) = MsgBufReader_read_uint16 reader (eof_status_flags eof) in
             (0, \<lparr>eof_warnings_count = w, eof_status_flags = f\<rparr>))"

definition MySQLEofPacket_serialize ::
  "MySQLEofPacket \<Rightarrow> byte list \<Rightarrow> chunks \<Rightarrow> chunks option" where
  "MySQLEofPacket_serialize eof mem msg_buf = do {
     buff \<leftarrow> poke mem 0 (int1store 0xfe);
     buff \<leftarrow> poke buff 1 (int2store (eof_warnings_count eof));
     buff \<leftarrow> poke buff 3 (int2store (eof_status_flags eof));
     MsgBuf_push_back_copy msg_buf buff (length mem) }"

record MySQLErrorPacket =
  err_code :: u16
  err_sql_state_marker :: "byte list"
  err_sql_state :: "byte list"
  err_message :: "byte list"

text \<open>\<^verbatim>\<open>str.resize(n)\<close> followed by a read into it: what was not read is the old content or zero.\<close>

definition resize :: "nat \<Rightarrow> byte list \<Rightarrow> byte list" where
  "resize n s = take n s @ replicate (n - length s) 0"

definition read_str :: "MsgBufReader \<Rightarrow> nat \<Rightarrow> byte list \<Rightarrow> int \<times> byte list \<times> MsgBufReader" where
  "read_str rd n s =
     (let (ret, bs, rd') = MsgBufReader_read rd n in (ret, bs @ drop (length bs) (resize n s), rd'))"

definition MySQLErrorPacket_decode :: "MySQLErrorPacket \<Rightarrow> chunks \<Rightarrow> int \<times> MySQLErrorPacket" where
  "MySQLErrorPacket_decode err msgbuf =
     (let reader = MsgBufReader_init msgbuf;
          (ret, code, reader) = MsgBufReader_read_uint16 reader (err_code err);
          err = err\<lparr>err_code := code\<rparr> in
      if ret \<noteq> 0 then (-1, err)
      else let (ret, marker, reader) = read_str reader 1 (err_sql_state_marker err);
               err = err\<lparr>err_sql_state_marker := marker\<rparr> in
      if ret \<noteq> 0 then (-1, err)
      else let (ret, state, reader) = read_str reader 6 (err_sql_state err);
               err = err\<lparr>err_sql_state := state\<rparr> in
      if ret \<noteq> 0 then (-1, err)
      else let remain_size = MsgBufReader_remain_size reader;
               (ret, message, reader) = read_str reader remain_size (err_message err);
               err = err\<lparr>err_message := message\<rparr> in
      if ret \<noteq> 0 then (-1, err) else (0, err))"

definition MAX_PACKET_SIZE :: nat where
  "MAX_PACKET_SIZE = 16777215"

text \<open>
  The result is \<^verbatim>\<open>None\<close> when a store leaves the \<^verbatim>\<open>len\<close> bytes of the allocation; the early returns
  leave the message buffer alone.
\<close>

definition MySQLErrorPacket_serialize ::
  "MySQLErrorPacket \<Rightarrow> byte list \<Rightarrow> chunks \<Rightarrow> (int \<times> chunks) option" where
  "MySQLErrorPacket_serialize err mem msg_buf = do {
     c \<leftarrow> emit (int1store 0xff) (mem, 0);
     c \<leftarrow> emit (int2store (err_code err)) c;
     let (ret, bs) = write_null_terminate_string MAX_PACKET_SIZE (err_sql_state_marker err);
     if ret = -1 then Some (-1, msg_buf) else do {
     c \<leftarrow> emit bs c;
     let (ret, bs) = write_null_terminate_string MAX_PACKET_SIZE (err_sql_state err);
     if ret = -1 then Some (-1, msg_buf) else do {
     c \<leftarrow> emit bs c;
     let (ret, bs) = write_null_terminate_string MAX_PACKET_SIZE (err_message err);
     if ret = -1 then Some (-1, msg_buf) else do {
     (buff, pos) \<leftarrow> emit bs c;
     msg_buf \<leftarrow> MsgBuf_push_back_copy msg_buf buff pos;
     Some (0, msg_buf) }}}}"

definition MySQLErrorPacket_get_serialize_size :: "MySQLErrorPacket \<Rightarrow> nat" where
  "MySQLErrorPacket_get_serialize_size err =
     3 + length (err_sql_state_marker err) + 1 + length (err_sql_state err) + 1
       + length (err_message err) + 1"

record MySQLCol =
  col_catalog :: "byte list"
  col_schema :: "byte list"
  col_table :: "byte list"
  col_org_table :: "byte list"
  col_name :: "byte list"
  col_org_name :: "byte list"
  col_len_of_fixed_len :: u8
  col_charset :: u16
  col_column_len :: u32
  col_type :: u8
  col_flags :: u16
  col_decimals :: u8
  col_filler :: u16

definition MySQLCol_decode :: "MySQLCol \<Rightarrow> chunks \<Rightarrow> int \<times> MySQLCol" where
  "MySQLCol_decode col msgbuf =
     (let reader = MsgBufReader_init msgbuf;
          (catalog, reader) = MysqlBufReader_read_lenenc_str reader;
          (schema, reader) = MysqlBufReader_read_lenenc_str reader;
          (table, reader) = MysqlBufReader_read_lenenc_str reader;
          (org_table, reader) = MysqlBufReader_read_lenenc_str reader;
          (name, reader) = MysqlBufReader_read_lenenc_str reader;
          (org_name, reader) = MysqlBufReader_read_lenenc_str reader;
          (_, fixed, reader) = MsgBufReader_read_uint8 reader (col_len_of_fixed_len col);
          (_, charset, reader) = MsgBufReader_read_uint16 reader (col_charset col);
          (_, column_len, reader) = MsgBufReader_read_uint32 reader (col_column_len col);
          (_, ty, reader) = MsgBufReader_read_uint8 reader (col_type col);
          (_, flags, reader) = MsgBufReader_read_uint16 reader (col_flags col);
          (_, decimals, reader) = MsgBufReader_read_uint8 reader (col_decimals col);
          (_, filler, reader) = MsgBufReader_read_uint16 reader (col_filler col) in
      (0, \<lparr>col_catalog = catalog, col_schema = schema, col_table = table,
           col_org_table = org_table, col_name = name, col_org_name = org_name,
           col_len_of_fixed_len = fixed, col_charset = charset, col_column_len = column_len,
           col_type = ty, col_flags = flags, col_decimals = decimals, col_filler = filler\<rparr>))"

primrec MySQLRow_decode_loop :: "nat \<Rightarrow> MsgBufReader \<Rightarrow> byte list list \<Rightarrow> byte list list" where
  "MySQLRow_decode_loop 0 reader acc = acc"
| "MySQLRow_decode_loop (Suc n) reader acc =
     (let (data, reader) = MysqlBufReader_read_lenenc_str reader in
      MySQLRow_decode_loop n reader (acc @ [data]))"

definition MySQLRow_decode :: "nat \<Rightarrow> chunks \<Rightarrow> byte list list" where
  "MySQLRow_decode col_count msgbuf = MySQLRow_decode_loop col_count (MsgBufReader_init msgbuf) []"

definition MySQLQueryPacket_encode_inplace :: "byte list \<Rightarrow> chunks \<Rightarrow> chunks" where
  "MySQLQueryPacket_encode_inplace sql msgbuf = MsgBuf_push_back (MsgBuf_push_back msgbuf [0x03]) sql"

record MySQLQueryResponsePacket =
  qr_col_count :: u64
  qr_ok :: MySQLOkPacket
  qr_err :: MySQLErrorPacket

definition MySQLQueryResponsePacket_decode ::
  "MySQLQueryResponsePacket \<Rightarrow> chunks \<Rightarrow> (int \<times> MySQLQueryResponsePacket) option" where
  "MySQLQueryResponsePacket_decode resp msgbuf =
     (let reader = MsgBufReader_init msgbuf;
          (_, packet_ret, reader) = MsgBufReader_read_uint8 reader 0xff in
      if packet_ret = 0xff
      then Some (-1, resp\<lparr>qr_err := snd (MySQLErrorPacket_decode (qr_err resp) msgbuf)\<rparr>)
      else if packet_ret = 0xfb then Some (-1, resp)
      else if packet_ret = 0 then Some (0, resp\<lparr>qr_ok := snd (MySQLOkPacket_decode 0 msgbuf)\<rparr>)
      else do {
        (_, reader) \<leftarrow> MsgBufReader_backward reader 1;
        let (_, col_count, reader) = MysqlBufReader_read_lenenc_uint reader;
        Some (0, resp\<lparr>qr_col_count := col_count\<rparr>) })"


section \<open>The handshake packets\<close>

definition ascii :: "string \<Rightarrow> byte list" where
  "ascii s = map of_char s"

definition CLIENT_CONNECT_WITH_DB :: u32 where "CLIENT_CONNECT_WITH_DB = 8"
definition CLIENT_PROTOCOL_41 :: u32 where "CLIENT_PROTOCOL_41 = 512"
definition CLIENT_SECURE_CONNECTION :: u32 where "CLIENT_SECURE_CONNECTION = 32768"
definition CLIENT_PLUGIN_AUTH :: u32 where "CLIENT_PLUGIN_AUTH = push_bit 19 1"
definition CLIENT_PLUGIN_AUTH_LENENC_CLIENT_DATA :: u32 where
  "CLIENT_PLUGIN_AUTH_LENENC_CLIENT_DATA = push_bit 21 1"

record MySQLInitialHandShakePacket =
  hs_protocol_version :: u8
  hs_capabilities_flag :: u32
  hs_auth_plugin_name :: "byte list"
  hs_scramble_valid :: bool
  hs_scramble :: "byte list"

text \<open>
  The two loops that read characters up to a zero byte.  Each round consumes a byte, so one more round
  than there are bytes is enough fuel (\<^verbatim>\<open>read_until_zero_total\<close>).
\<close>

fun read_until_zero :: "nat \<Rightarrow> int \<Rightarrow> MsgBufReader \<Rightarrow> byte list \<Rightarrow> (int \<times> byte list \<times> MsgBufReader) option" where
  "read_until_zero 0 ret rd acc = None"
| "read_until_zero (Suc fuel) ret rd acc =
     (if ret = 0 \<and> MsgBufReader_has_more rd
      then let (ret, c, rd) = read_into rd 1 (0 :: u8) in
        if c = 0 then Some (ret, acc, rd) else read_until_zero fuel ret rd (acc @ [c])
      else Some (ret, acc, rd))"

definition overlay_at :: "nat \<Rightarrow> byte list \<Rightarrow> u32 \<Rightarrow> u32" where
  "overlay_at k bs w = le_word (take k (le_bytes 4 w) @ bs @ drop (k + length bs) (le_bytes 4 w))"

definition hs_fuel :: "MsgBufReader \<Rightarrow> nat" where
  "hs_fuel rd = rd_byte_size rd + 1"

text \<open>The tail of \<^verbatim>\<open>decode\<close>, from the length of the authentication data on.\<close>

definition decode_auth_part ::
  "MySQLInitialHandShakePacket \<Rightarrow> MsgBufReader \<Rightarrow> (int \<times> MySQLInitialHandShakePacket) option" where
  "decode_auth_part hs rd =
     (let caps = hs_capabilities_flag hs;
          (ret, auth_plugin_data_len, rd) =
            (if caps AND CLIENT_PLUGIN_AUTH \<noteq> 0 then MsgBufReader_read_uint8 rd 0
             else let (_, rd) = MsgBufReader_forward rd 1 in (0, 0, rd)) in
      if ret \<noteq> 0 then Some (ret, hs)
      else let (ret, rd) = MsgBufReader_forward rd 10 in
      if ret \<noteq> 0 then Some (ret, hs)
      else let (ret, hs, rd) =
        (if caps AND CLIENT_SECURE_CONNECTION \<noteq> 0
         then let n = max 13 (unat auth_plugin_data_len - 8);
                  (ret, part2, rd) = read_str rd n [];
                  hs = hs\<lparr>hs_scramble := hs_scramble hs @ part2\<rparr> in
              (ret, if ret = 0 then hs\<lparr>hs_scramble_valid := True\<rparr> else hs, rd)
         else (ret, hs, rd)) in
      if ret \<noteq> 0 then Some (ret, hs)
      else do {
        (ret, hs) \<leftarrow>
          (if caps AND CLIENT_PLUGIN_AUTH \<noteq> 0
           then do { (ret, name, rd) \<leftarrow> read_until_zero (hs_fuel rd) ret rd (hs_auth_plugin_name hs);
                     Some (ret, hs\<lparr>hs_auth_plugin_name := name\<rparr>) }
           else Some (ret, hs));
        if hs_auth_plugin_name hs \<noteq> ascii ''mysql_native_password'' then Some (-1, hs)
        else Some (ret, if 20 < length (hs_scramble hs)
                        then hs\<lparr>hs_scramble := take 20 (hs_scramble hs)\<rparr> else hs) })"

definition MySQLInitialHandShakePacket_decode ::
  "MySQLInitialHandShakePacket \<Rightarrow> chunks \<Rightarrow> (int \<times> MySQLInitialHandShakePacket) option" where
  "MySQLInitialHandShakePacket_decode hs msgbuf =
     (let rd = MsgBufReader_init msgbuf;
          (ret, v, rd) = MsgBufReader_read_uint8 rd (hs_protocol_version hs);
          hs = hs\<lparr>hs_protocol_version := v\<rparr> in
      if ret \<noteq> 0 then Some (ret, hs)
      else if v \<noteq> 0x0a then Some (-1, hs)
      else do {
        (_, server_version, rd) \<leftarrow> read_until_zero (hs_fuel rd) ret rd [];
        let (ret, connection_id, rd) = MsgBufReader_read_uint32 rd 0;
        if ret \<noteq> 0 then Some (ret, hs)
        else let (ret, part1, rd) = read_str rd 8 (hs_scramble hs);
                 hs = hs\<lparr>hs_scramble := part1\<rparr> in
        if ret \<noteq> 0 then Some (ret, hs)
        else let (ret, rd) = MsgBufReader_forward rd 1 in
        if ret \<noteq> 0 then Some (ret, hs)
        else let (ret, bs, rd) = MsgBufReader_read rd 2;
                 hs = hs\<lparr>hs_capabilities_flag := overlay_at 0 bs (hs_capabilities_flag hs)\<rparr> in
        if ret \<noteq> 0 then Some (ret, hs)
        else if \<not> MsgBufReader_has_more rd then Some (0, hs\<lparr>hs_scramble_valid := True\<rparr>)
        else let hs = hs\<lparr>hs_scramble_valid := False\<rparr>; (ret, rd) = MsgBufReader_forward rd 3 in
        if ret \<noteq> 0 then Some (ret, hs)
        else let (ret, bs, rd) = MsgBufReader_read rd 2;
                 hs = hs\<lparr>hs_capabilities_flag := overlay_at 2 bs (hs_capabilities_flag hs)\<rparr> in
        if ret \<noteq> 0 then Some (ret, hs)
        else decode_auth_part hs rd })"

text \<open>
  \<^verbatim>\<open>MySQLHandShakeResponsePacket::encode\<close>: the buffer has 200 bytes and every string is given the
  remaining capacity.
\<close>

definition response_capabilities :: "byte list \<Rightarrow> u32" where
  "response_capabilities database =
     (let flags = 1 OR 4 OR CLIENT_PROTOCOL_41 OR 8192 OR CLIENT_SECURE_CONNECTION OR push_bit 16 1
            OR push_bit 17 1 OR push_bit 18 1 OR CLIENT_PLUGIN_AUTH
            OR CLIENT_PLUGIN_AUTH_LENENC_CLIENT_DATA OR push_bit 22 1 OR push_bit 27 1 in
      if database \<noteq> [] then flags OR CLIENT_CONNECT_WITH_DB else flags)"

text \<open>A bounded write at the current offset; the inner value is \<^verbatim>\<open>None\<close> when the write failed.\<close>

definition bounded :: "(nat \<Rightarrow> int \<times> byte list) \<Rightarrow> cursor \<Rightarrow> cursor option option" where
  "bounded w c = (case c of (buf, off) \<Rightarrow>
     let (ret, bs) = w (200 - off) in
     if ret < 0 then Some None else map_option Some (emit bs c))"

definition also_bounded ::
  "(nat \<Rightarrow> int \<times> byte list) \<Rightarrow> cursor option option \<Rightarrow> cursor option option" where
  "also_bounded w s = (case s of Some (Some c) \<Rightarrow> bounded w c | _ \<Rightarrow> s)"

definition MySQLHandShakeResponsePacket_encode ::
  "byte list \<Rightarrow> byte list \<Rightarrow> byte list \<Rightarrow> byte list \<Rightarrow> chunks \<Rightarrow> (int \<times> chunks) option" where
  "MySQLHandShakeResponsePacket_encode username database auth_response mem msgbuf = do {
     let caps = response_capabilities database;
     c \<leftarrow> emit (int4store caps) (mem, 0);
     c \<leftarrow> emit (int4store (16 * 1024 * 1024)) c;
     (buf, off) \<leftarrow> emit [33] c;
     s \<leftarrow> bounded (\<lambda>cap. write_null_terminate_string cap username) (buf, off + 23);
     s \<leftarrow> (if caps AND CLIENT_PLUGIN_AUTH_LENENC_CLIENT_DATA \<noteq> 0
           then also_bounded (\<lambda>cap. write_string cap auth_response)
                  (also_bounded (\<lambda>cap. write_lenenc_uint cap (of_nat (length auth_response))) (Some s))
           else if caps AND CLIENT_SECURE_CONNECTION \<noteq> 0
           then also_bounded (\<lambda>cap. write_string cap auth_response) (Some s)
           else also_bounded (\<lambda>cap. write_null_terminate_string cap auth_response) (Some s));
     s \<leftarrow> (if caps AND CLIENT_CONNECT_WITH_DB \<noteq> 0
           then also_bounded (\<lambda>cap. write_null_terminate_string cap database) (Some s) else Some s);
     s \<leftarrow> (if caps AND CLIENT_PLUGIN_AUTH \<noteq> 0
           then also_bounded (\<lambda>cap. write_null_terminate_string cap (ascii ''mysql_native_password'')) (Some s)
           else Some s);
     case s of None \<Rightarrow> Some (-1, msgbuf)
     | Some (buf, off) \<Rightarrow> Some (0, MsgBuf_push_back msgbuf (take off buf)) }"

lemma read_until_zero_rest:
  assumes "rd_inv rd" "mr.rest rd = s @ 0 # qs" "0 \<notin> set s" "length s < fuel"
  shows "\<exists>rd'. read_until_zero fuel 0 rd acc = Some (0, acc @ s, rd') \<and> rd_inv rd' \<and> mr.rest rd' = qs
     \<and> rd_byte_size rd' = rd_byte_size rd"
  using assms
proof (induction s arbitrary: fuel rd acc)
  case Nil
  obtain k where k: "fuel = Suc k" using Nil.prems(4) by (cases fuel) auto
  from read_into_rest[OF Nil.prems(1), of "[0]" qs 1 "0 :: u8"] Nil.prems(2) obtain rd' where
    "read_into rd 1 (0 :: u8) = (0, 0, rd')" "rd_inv rd'" "mr.rest rd' = qs"
    by (auto simp: overlay_zero)
  moreover have "rd_byte_size rd' = rd_byte_size rd"
    using calculation(1) by (auto simp: read_into_def MsgBufReader_read_def MsgBufReader_read_skip_def
        split: prod.splits option.splits if_splits)
  ultimately show ?case using Nil.prems(1,2) by (simp add: k has_more_rest)
next
  case (Cons c s)
  obtain k where k: "fuel = Suc k" using Cons.prems(4) by (cases fuel) auto
  from read_into_rest[OF Cons.prems(1), of "[c]" "s @ 0 # qs" 1 "0 :: u8"] Cons.prems(2) obtain rd' where
    rd': "read_into rd 1 (0 :: u8) = (0, c, rd')" "rd_inv rd'" "mr.rest rd' = s @ 0 # qs"
    by (auto simp: overlay_zero)
  moreover have "rd_byte_size rd' = rd_byte_size rd"
    using calculation(1) by (auto simp: read_into_def MsgBufReader_read_def MsgBufReader_read_skip_def
        split: prod.splits option.splits if_splits)
  moreover have "0 \<notin> set s" "length s < k" "c \<noteq> 0" using Cons.prems(3,4) k by auto
  ultimately show ?case using Cons.IH[OF rd'(2,3), of k "acc @ [c]"] Cons.prems(1,2)
    by (simp add: k has_more_rest)
qed


lemma read_until_zero_total:
  "rd_inv rd \<Longrightarrow> length (mr.rest rd) < fuel \<Longrightarrow> read_until_zero fuel ret rd acc \<noteq> None"
proof (induction fuel arbitrary: rd ret acc)
  case (Suc fuel)
  show ?case
  proof (cases "ret = 0 \<and> MsgBufReader_has_more rd")
    case True
    then obtain c qs where cq: "mr.rest rd = [c] @ qs"
      using has_more_rest[OF Suc.prems(1)] by (cases "mr.rest rd") auto
    from read_into_rest[OF Suc.prems(1) this, of 1 "0 :: u8"] obtain rd' where
      "read_into rd 1 (0 :: u8) = (0, c, rd')" "rd_inv rd'" "mr.rest rd' = qs"
      by (auto simp: overlay_zero)
    then show ?thesis using Suc.IH[of rd'] Suc.prems(2) True cq by simp
  qed auto
qed simp


section \<open>Length-encoded integers: what is written and what is read back\<close>

lemma take_le_bytes: "k \<le> n \<Longrightarrow> take k (le_bytes n w) = le_bytes k w"
  by (simp add: le_bytes_def take_map)

lemma drop_le_bytes: "drop k (le_bytes n w) = le_bytes (n - k) (drop_bit (8 * k) w)"
  by (rule nth_equalityI) (auto simp: le_bytes_def drop_bit_drop_bit algebra_simps)

lemma ucast_le_word_le_bytes:
  "n \<le> 4 \<Longrightarrow> ucast (le_word (le_bytes n v) :: u32) = (take_bit (8 * n) v :: u64)"
  using ucast_le_word[of "le_bytes n v", where 'a = 32 and 'b = 64]
  by (simp add: le_word_le_bytes)

lemma get_lenenc_uint_Cons:
  "get_lenenc_uint (b # bs) 0 =
     (if b < 251 then Some (ucast b, 1)
      else if b = 251 then Some (0xFFFFFFFFFFFFFFFF, 1)
      else if b = 252 then map_option (\<lambda>t. (ucast (le_word t :: u32), 3)) (peek 2 bs 0)
      else if b = 253 then map_option (\<lambda>t. (ucast (le_word t :: u32), 4)) (peek 3 bs 0)
      else map_option (\<lambda>t. (ucast (le_word t :: u32), 9)) (peek 4 bs 0))"
proof -
  have "int1load (b # bs) 0 = Some b"
    using f1.load_here[of b bs] by (simp add: int1store_def)
  then show ?thesis by (simp add: get_lenenc_uint_def map_conv_bind_option comp_def)
qed

lemma u64_max: "\<not> (v :: u64) < 0xFFFFFFFFFFFFFFFF \<longleftrightarrow> v = 0xFFFFFFFFFFFFFFFF"
proof -
  have "unat v < 2 ^ 64" using unsigned_less[of v] by simp
  then show ?thesis by (auto simp: word_less_nat_alt word_unat_eq_iff)
qed

lemma peek_le_bytes: "k \<le> n \<Longrightarrow> peek k (le_bytes n w @ rest) 0 = Some (le_bytes k w)"
  by (simp add: peek_def take_le_bytes)

text \<open>
  C24.  What \<^verbatim>\<open>get_lenenc_uint\<close> recovers from the bytes of \<^verbatim>\<open>write_lenenc_uint\<close>, for every 64-bit
  value.  Below \<^verbatim>\<open>2^16\<close> and for the null marker the value comes back.  From \<^verbatim>\<open>2^16\<close> to \<^verbatim>\<open>2^24\<close> the
  writer copies the bytes 1 to 3 of the number and the low byte is lost; from \<^verbatim>\<open>2^24\<close> on the
  reader takes four of the eight bytes and the value comes back modulo \<^verbatim>\<open>2^32\<close>.  The position
  advances by the number of bytes written in every case.
\<close>

theorem get_lenenc_after_write:
  assumes "9 \<le> capacity"
  shows "get_lenenc_uint (snd (write_lenenc_uint capacity v) @ rest) 0 =
    Some (if v < 0x10000 \<or> v = 0xFFFFFFFFFFFFFFFF then v
          else if v < 0x1000000 then v div 256
          else take_bit 32 v,
          nat (fst (write_lenenc_uint capacity v)))"
proof -
  consider "v < 251" | "\<not> v < 251" "v < 0x10000" | "\<not> v < 0x10000" "v < 0x1000000"
    | "\<not> v < 0x1000000" "v < 0xFFFFFFFFFFFFFFFF" | "v = 0xFFFFFFFFFFFFFFFF"
    using u64_max by blast
  then show ?thesis
  proof cases
    case 1
    then have "unat v < 251" by (simp add: word_less_nat_alt)
    then have "(ucast v :: u8) < 251" "ucast (ucast v :: u8) = v" "v < 0x10000"
      using unat_ucast_small[of v, where 'b = 8] ucast_ucast_small[of v, where 'b = 8]
      by (simp_all add: word_less_nat_alt)
    then show ?thesis using 1 assms by (simp add: write_lenenc_uint_def get_lenenc_uint_Cons)
  next
    case 2
    then show ?thesis using assms take_bit_small[of v 16]
      by (simp add: write_lenenc_uint_def get_lenenc_uint_Cons le_bytes_ucast peek_le_bytes
          ucast_le_word_le_bytes)
  next
    case 3
    then have n: "\<not> v < 251" "v \<noteq> 0xFFFFFFFFFFFFFFFF" by (auto simp: word_less_nat_alt)
    have "take 3 (drop (Suc 0) (le_bytes 4 (ucast v :: u32))) = le_bytes 3 (drop_bit 8 v)"
      using le_bytes_ucast[of 4 v, where 'b = 32] by (simp add: drop_le_bytes)
    moreover have "v div 256 < 2 ^ 24" using 3 by (simp add: word_less_nat_alt unat_div)
    then have "take_bit 24 (drop_bit 8 v) = v div 256"
      using take_bit_small[of "v div 256" 24] by (simp add: drop_bit_eq_div)
    ultimately show ?thesis using 3 n assms
      by (simp add: write_lenenc_uint_def get_lenenc_uint_Cons peek_le_bytes ucast_le_word_le_bytes)
  next
    case 4
    then have "\<not> v < 251" "\<not> v < 0x10000" "v \<noteq> 0xFFFFFFFFFFFFFFFF" by (auto simp: word_less_nat_alt)
    then show ?thesis using 4 assms
      by (simp add: write_lenenc_uint_def get_lenenc_uint_Cons peek_le_bytes ucast_le_word_le_bytes)
  next
    case 5
    then show ?thesis using assms by (simp add: write_lenenc_uint_def get_lenenc_uint_Cons)
  qed
qed

theorem get_lenenc_after_write_witness:
  "(9 :: nat) \<le> 9 \<and>
   get_lenenc_uint (snd (write_lenenc_uint 9 0x012345) @ [7]) 0 = Some (0x0123, 4)"
  using get_lenenc_after_write [of 9 "0x012345" "[7]"] by (simp add: write_lenenc_uint_def)

text \<open>
  The size \<^verbatim>\<open>get_packed_integer\<close> announces is the number of bytes \<^verbatim>\<open>write_lenenc_uint\<close> writes
  except between \<^verbatim>\<open>2^16\<close> and \<^verbatim>\<open>2^17\<close>, between \<^verbatim>\<open>2^24\<close> and \<^verbatim>\<open>2^25\<close>, where it is too small, and
  for the null marker.
\<close>

theorem packed_integer_size_iff:
  assumes "9 \<le> capacity"
  shows "get_packed_integer v = fst (write_lenenc_uint capacity v) \<longleftrightarrow>
    \<not> (0x10000 \<le> v \<and> v < 0x20000) \<and> \<not> (0x1000000 \<le> v \<and> v < 0x2000000)
    \<and> v \<noteq> 0xFFFFFFFFFFFFFFFF"
  using assms u64_max[of v]
  by (auto simp: get_packed_integer_def write_lenenc_uint_def word_less_nat_alt word_le_nat_alt)

theorem packed_integer_size_iff_witness:
  "(9 :: nat) \<le> 9 \<and> get_packed_integer 0x10000 \<noteq> fst (write_lenenc_uint 9 0x10000)
   \<and> get_packed_integer 0xFFFF = fst (write_lenenc_uint 9 0xFFFF)"
  using packed_integer_size_iff [of 9 "0x10000"] packed_integer_size_iff [of 9 "0xFFFF"] by simp


section \<open>Packets\<close>

lemma row_decode_loop_rest:
  assumes "rd_inv rd"
    and "mr.rest rd = concat (map (\<lambda>s. packet_store_length (of_nat (length s)) @ s) fs) @ qs"
    and "list_all (\<lambda>s. length s < 2 ^ 64) fs"
  shows "MySQLRow_decode_loop (length fs) rd acc = acc @ fs"
  using assms
proof (induction fs arbitrary: rd acc)
  case (Cons s fs)
  from Cons.prems obtain rd1 where "MysqlBufReader_read_lenenc_str rd = (s, rd1)" "rd_inv rd1"
    "mr.rest rd1 = concat (map (\<lambda>s. packet_store_length (of_nat (length s)) @ s) fs) @ qs"
    using read_lenenc_str_rest[of rd s] by auto
  then show ?case using Cons.IH[of rd1] Cons.prems(3) by simp
qed simp

text \<open>
  C21.  A text result row, the length-encoded strings of its columns one after the other, decodes to
  those strings, wherever the chunk boundaries of the message buffer fall.
\<close>

theorem row_decode_roundtrip:
  assumes "concat cs = concat (map (\<lambda>s. packet_store_length (of_nat (length s)) @ s) fs) @ qs"
    and "list_all (\<lambda>s. length s < 2 ^ 64) fs"
  shows "MySQLRow_decode (length fs) cs = fs"
  using row_decode_loop_rest[OF MsgBufReader_init_inv, of cs fs qs "[]"] assms
  by (simp add: MySQLRow_decode_def rd_rest_init)

theorem row_decode_roundtrip_witness:
  "MySQLRow_decode 2 [[2, 65], [66, 1], [67]] = [[65, 66], [67]]"
proof -
  have "concat [[2, 65], [66, 1], [67]]
      = concat (map (\<lambda>s. packet_store_length (of_nat (length s)) @ s) [[65, 66], [67]]) @ []"
    by (simp add: packet_store_length_def)
  from row_decode_roundtrip [OF this] show ?thesis by (simp flip: numeral_2_eq_2)
qed

lemma read_str_rest:
  assumes "rd_inv rd" "mr.rest rd = bs @ qs" "n = length bs"
  shows "\<exists>rd'. read_str rd n s = (0, bs, rd') \<and> rd_inv rd' \<and> mr.rest rd' = qs"
proof -
  have "length (resize n s) = n" by (simp add: resize_def)
  then show ?thesis using read_rest[OF assms(1,2)] assms(3) by (auto simp: read_str_def)
qed

lemma error_decode_rest:
  assumes "concat cs = [a, b, m] @ st @ msg" "length st = 6"
  shows "MySQLErrorPacket_decode err cs =
    (0, err\<lparr>err_code := le_word [a, b], err_sql_state_marker := [m], err_sql_state := st,
            err_message := msg\<rparr>)"
proof -
  let ?rd = "MsgBufReader_init cs"
  have "mr.rest ?rd = [a, b] @ [m] @ st @ msg" using assms(1) by (simp add: rd_rest_init)
  from read_into_rest[OF MsgBufReader_init_inv this, of 2 "err_code err"] obtain r1 where r1:
    "MsgBufReader_read_uint16 ?rd (err_code err) = (0, le_word [a, b], r1)" "rd_inv r1"
    "mr.rest r1 = [m] @ st @ msg"
    by (auto simp: MsgBufReader_read_uint16_def overlay_full)
  from read_str_rest[OF r1(2,3)] obtain r2 where r2:
    "read_str r1 1 (err_sql_state_marker err) = (0, [m], r2)" "rd_inv r2" "mr.rest r2 = st @ msg"
    by fastforce
  from read_str_rest[OF r2(2,3)] assms(2) obtain r3 where r3:
    "read_str r2 6 (err_sql_state err) = (0, st, r3)" "rd_inv r3" "mr.rest r3 = msg @ []"
    by fastforce
  then have "MsgBufReader_remain_size r3 = length msg" by (simp add: remain_size_rest)
  moreover from read_str_rest[OF r3(2,3) refl] obtain r4 where
    "read_str r3 (length msg) (err_message err) = (0, msg, r4)" by fastforce
  ultimately show ?thesis using r1 r2 r3 by (simp add: MySQLErrorPacket_decode_def)
qed

text \<open>
  C25.  The error code of an ERR packet is not what the server sent.  On the packet
  \<^verbatim>\<open>0xFF, code (2 bytes), '#', state (5 bytes), message\<close> a failed query decodes from offset 0: the
  message comes out right, because the six bytes taken for the state make up for the type byte, but
  the code is \<^verbatim>\<open>0xFF + 256 * (low byte of the code)\<close> and the marker is its high byte.
\<close>

theorem query_error_code_shifted:
  assumes "concat cs = [0xFF] @ int2store code @ [35] @ st @ msg" "length st = 5"
  shows "MySQLQueryResponsePacket_decode resp cs =
    Some (-1, resp\<lparr>qr_err := (qr_err resp)\<lparr>err_code := 0xFF + 256 * take_bit 8 code,
                 err_sql_state_marker := [ucast (drop_bit 8 code)],
                 err_sql_state := 35 # st, err_message := msg\<rparr>\<rparr>)"
proof -
  have e: "concat cs = [0xFF, ucast code, ucast (drop_bit 8 code)] @ (35 # st) @ msg"
    using assms(1) by (simp add: int2store_def le_bytes_numerals)
  have "mr.rest (MsgBufReader_init cs) = [0xFF] @ int2store code @ [35] @ st @ msg"
    using assms(1) by (simp add: rd_rest_init)
  from read_into_rest[OF MsgBufReader_init_inv this, of 1 "0xFF :: u8"] obtain rd1 where
    "MsgBufReader_read_uint8 (MsgBufReader_init cs) 0xff = (0, 0xFF, rd1)"
    by (auto simp: MsgBufReader_read_uint8_def overlay_full)
  moreover have "(le_word [0xFF, ucast code] :: u16) = 0xFF + 256 * take_bit 8 code"
  proof -
    have "(ucast (ucast code :: u8) :: u16) = take_bit 8 code"
      by (rule bit_eqI) (auto simp: bit_simps)
    then show ?thesis
      by (simp add: le_word_Cons_add push_bit_eq_mult del: le_word.simps(2))
  qed
  ultimately show ?thesis using error_decode_rest[OF e] assms(2)
    by (simp add: MySQLQueryResponsePacket_decode_def)
qed

definition blank_response :: MySQLQueryResponsePacket where
  "blank_response =
     \<lparr>qr_col_count = 0, qr_ok = \<lparr>ok_affected_rows = 0, ok_last_insert_id = 0\<rparr>,
      qr_err = \<lparr>err_code = 0, err_sql_state_marker = [], err_sql_state = [], err_message = []\<rparr>\<rparr>"

theorem query_error_code_shifted_witness:
  "let cs = [[0xFF, 0x15, 0x04, 35, 50, 56, 48, 48, 48, 72, 105]] in
   concat cs = [0xFF] @ int2store 1045 @ [35] @ [50, 56, 48, 48, 48] @ [72, 105] \<and>
   (\<exists>r. MySQLQueryResponsePacket_decode blank_response cs = Some (-1, r)
        \<and> err_code (qr_err r) = 0x15FF)"
proof -
  let ?cs = "[[0xFF, 0x15, 0x04, 35, 50, 56, 48, 48, 48, 72, 105]] :: chunks"
  have e: "concat ?cs = [0xFF] @ int2store 1045 @ [35] @ [50, 56, 48, 48, 48] @ [72, 105]"
    by (simp add: int2store_def le_bytes_numerals)
  show ?thesis unfolding Let_def
    using query_error_code_shifted [OF e, of blank_response] e by (simp add: take_bit_eq_mod)
qed

text \<open>
  C26.  \<^verbatim>\<open>MySQLErrorPacket::serialize\<close> passes \<^verbatim>\<open>MAX_PACKET_SIZE\<close> and not the size of its allocation
  as the capacity of each string, so it relies on being called with \<^verbatim>\<open>get_serialize_size()\<close>.  With that
  size every store is in bounds and the packet is exactly the allocation.
\<close>

theorem error_serialize_in_bounds:
  assumes "length mem = MySQLErrorPacket_get_serialize_size err"
    and "length mem \<le> MAX_PACKET_SIZE"
  shows "MySQLErrorPacket_serialize err mem msg_buf =
    Some (0, msg_buf @ [0xff # int2store (err_code err) @ err_sql_state_marker err @ 0 #
                        err_sql_state err @ 0 # err_message err @ [0]])"
proof -
  let ?bs = "int1store 0xff @ int2store (err_code err) @ (err_sql_state_marker err @ [0]) @
             (err_sql_state err @ [0]) @ (err_message err @ [0])"
  have len: "length ?bs = length mem"
    using assms(1) by (simp add: MySQLErrorPacket_get_serialize_size_def)
  have "emit ?bs (mem, 0) = Some (?bs, length ?bs)"
    using emit_start[of ?bs mem] len by simp
  then show ?thesis
    using assms
    by (simp add: MySQLErrorPacket_serialize_def write_null_terminate_string_def
        MySQLErrorPacket_get_serialize_size_def MsgBuf_push_back_copy_def int1store_def)
qed

definition access_denied :: MySQLErrorPacket where
  "access_denied = \<lparr>err_code = 1045, err_sql_state_marker = [35], err_sql_state = [50, 56],
     err_message = [72]\<rparr>"

theorem error_serialize_in_bounds_witness:
  "MySQLErrorPacket_serialize access_denied (replicate 10 7) [] =
     Some (0, [[0xff, 0x15, 0x04, 35, 0, 50, 56, 0, 72, 0]])"
proof -
  have "length (replicate 10 (7 :: byte)) = MySQLErrorPacket_get_serialize_size access_denied"
    "length (replicate 10 (7 :: byte)) \<le> MAX_PACKET_SIZE"
    by (simp_all add: MySQLErrorPacket_get_serialize_size_def access_denied_def MAX_PACKET_SIZE_def)
  from error_serialize_in_bounds [OF this, of "[]"] show ?thesis
    by (simp add: access_denied_def int2store_def le_bytes_numerals)
qed

end
