(* ===== verification/Decimal.thy ===== *)
theory Decimal
  imports Prelude
begin

text \<open>
  Decimal text of the C++ standard library as the code uses it: \<^verbatim>\<open>std::to_string\<close> of an unsigned
  integer, \<^verbatim>\<open>atoll\<close> and \<^verbatim>\<open>std::stol\<close>.  \<^verbatim>\<open>atoll\<close> is \<^verbatim>\<open>strtoll\<close> in base ten: it skips white space,
  takes an optional sign, reads digits up to the first other character and saturates; \<^verbatim>\<open>stol\<close>
  throws when there is no digit or the value does not fit.
\<close>

definition digit_char :: "nat \<Rightarrow> char" where
  "digit_char d = char_of (48 + d)"

fun to_string :: "nat \<Rightarrow> string" where
  "to_string n = (if n < 10 then [digit_char n] else to_string (n div 10) @ [digit_char (n mod 10)])"

declare to_string.simps [simp del]

definition isdigit :: "char \<Rightarrow> bool" where
  "isdigit c \<longleftrightarrow> 48 \<le> (of_char c :: nat) \<and> (of_char c :: nat) \<le> 57"

definition isspace :: "char \<Rightarrow> bool" where
  "isspace c \<longleftrightarrow> (of_char c :: nat) = 32 \<or> 9 \<le> (of_char c :: nat) \<and> (of_char c :: nat) \<le> 13"

definition digit_val :: "char \<Rightarrow> nat" where
  "digit_val c = of_char c - 48"

definition digits_val :: "string \<Rightarrow> nat" where
  "digits_val ds = foldl (\<lambda>v c. 10 * v + digit_val c) 0 ds"

text \<open>The sign and the digits \<^verbatim>\<open>strtoll\<close> recognises at the front of a string.\<close>

definition scan_number :: "string \<Rightarrow> bool \<times> string" where
  "scan_number s = (case dropWhile isspace s of
     [] \<Rightarrow> (False, [])
   | c # cs \<Rightarrow> if c = CHR ''-'' then (True, takeWhile isdigit cs)
               else if c = CHR ''+'' then (False, takeWhile isdigit cs)
               else (False, takeWhile isdigit (c # cs)))"

definition scan_value :: "string \<Rightarrow> int" where
  "scan_value s = (let (neg, ds) = scan_number s; v = int (digits_val ds) in if neg then - v else v)"

definition atoll :: "string \<Rightarrow> int" where
  "atoll s = max (- (2 ^ 63)) (min (2 ^ 63 - 1) (scan_value s))"

definition stol :: "string \<Rightarrow> int option" where
  "stol s = (if snd (scan_number s) = [] \<or> scan_value s < - (2 ^ 63) \<or> 2 ^ 63 - 1 < scan_value s
             then None else Some (scan_value s))"

lemma of_char_digit_char [simp]: "d < 10 \<Longrightarrow> (of_char (digit_char d) :: nat) = 48 + d"
  by (simp add: digit_char_def of_char_of)

lemma isdigit_digit_char [simp]: "d < 10 \<Longrightarrow> isdigit (digit_char d)"
  by (simp add: isdigit_def)

lemma digit_val_digit_char [simp]: "d < 10 \<Longrightarrow> digit_val (digit_char d) = d"
  by (simp add: digit_val_def)

lemma to_string_digits: "list_all isdigit (to_string n)"
  by (induction n rule: to_string.induct) (subst to_string.simps, simp)

lemma to_string_not_Nil [simp]: "to_string n \<noteq> []"
  by (subst to_string.simps) simp

lemma digits_val_snoc: "digits_val (ds @ [c]) = 10 * digits_val ds + digit_val c"
  by (simp add: digits_val_def)

lemma digits_val_to_string [simp]: "digits_val (to_string n) = n"
proof (induction n rule: to_string.induct)
  case (1 n)
  show ?case
  proof (cases "n < 10")
    case True
    then show ?thesis by (subst to_string.simps) (simp add: digits_val_def)
  next
    case False
    then show ?thesis using 1 by (subst to_string.simps) (simp add: digits_val_snoc)
  qed
qed

lemma to_string_inj: "to_string m = to_string n \<Longrightarrow> m = n"
  by (metis digits_val_to_string)

lemma isdigit_not_sign: "isdigit c \<Longrightarrow> \<not> isspace c \<and> c \<noteq> CHR ''-'' \<and> c \<noteq> CHR ''+''"
  by (auto simp: isdigit_def isspace_def)

lemma scan_number_to_string:
  assumes "rest = [] \<or> \<not> isdigit (hd rest)"
  shows "scan_number (to_string n @ rest) = (False, to_string n)"
proof -
  obtain c cs where c: "to_string n = c # cs" by (cases "to_string n") auto
  have d: "list_all isdigit (c # cs)" using to_string_digits[of n] by (simp add: c)
  have "takeWhile isdigit ((c # cs) @ rest) = (c # cs) @ takeWhile isdigit rest"
    using d by (intro takeWhile_append2) (auto simp: list_all_iff)
  moreover have "takeWhile isdigit rest = []" using assms by (cases rest) auto
  ultimately show ?thesis using d isdigit_not_sign[of c] by (simp add: scan_number_def c)
qed

lemma scan_value_to_string:
  "rest = [] \<or> \<not> isdigit (hd rest) \<Longrightarrow> scan_value (to_string n @ rest) = int n"
  by (simp add: scan_value_def scan_number_to_string)

lemma atoll_to_string: "n < 2 ^ 63 \<Longrightarrow> atoll (to_string n) = int n"
  using scan_value_to_string[of "[]" n] by (simp add: atoll_def)

lemma stol_to_string: "n < 2 ^ 63 \<Longrightarrow> stol (to_string n) = Some (int n)"
  using scan_value_to_string[of "[]" n] scan_number_to_string[of "[]" n] by (simp add: stol_def)

lemma to_string_no_char: "\<not> isdigit c \<Longrightarrow> c \<notin> set (to_string n)"
  using to_string_digits[of n] by (auto simp: list_all_iff)

end
