(* ===== verification/PacketBuf.thy ===== *)
theory PacketBuf
  imports ByteOrder ByteStream Decimal
begin

unbundle bit_operations_syntax

text \<open>
  The growable packet buffer of \<^verbatim>\<open>src/binlog/mysql-protocol/packet_buf.{h,inl}\<close>.  Indices and
  capacities are \<^verbatim>\<open>uint32_t\<close> and wrap; sizes passed as \<^verbatim>\<open>size_t\<close> are 64 bits wide.  An access
  outside the allocation is \<^verbatim>\<open>None\<close>.  The content of a fresh allocation is the argument \<^verbatim>\<open>fresh\<close>,
  a function of the size.  A reading operation takes the old value of its output variable, which it
  leaves alone on failure.

  The comment of the class gives its invariant, \<^verbatim>\<open>pb_inv\<close>.  Relative to it the buffer is a queue
  of bytes: writes append to \<^verbatim>\<open>pb_unread\<close>, reads take from its front.
\<close>

record PacketBuf =
  pb_buf :: "byte list"
  pb_capacity :: u32
  pb_min_capacity :: u32
  pb_max_capacity :: u32
  pb_read_index :: u32
  pb_write_index :: u32
  pb_error_msg :: string

type_synonym heap = "nat \<Rightarrow> byte list"

definition PacketBuf_init :: "heap \<Rightarrow> u32 \<Rightarrow> u32 \<Rightarrow> PacketBuf" where
  "PacketBuf_init fresh min_capacity max_capacity =
     \<lparr>pb_buf = (if 0 < min_capacity then fresh (unat min_capacity) else []),
      pb_capacity = min_capacity, pb_min_capacity = min_capacity, pb_max_capacity = max_capacity,
      pb_read_index = 0, pb_write_index = 0, pb_error_msg = ''''\<rparr>"

definition is_readable :: "u64 \<Rightarrow> PacketBuf \<Rightarrow> bool" where
  "is_readable nof_bytes pb \<longleftrightarrow> nof_bytes \<le> ucast (pb_write_index pb - pb_read_index pb)"

definition readable_bytes :: "PacketBuf \<Rightarrow> u64" where
  "readable_bytes pb = ucast (pb_write_index pb - pb_read_index pb)"

definition is_fast_writable :: "u64 \<Rightarrow> PacketBuf \<Rightarrow> bool" where
  "is_fast_writable nof_bytes pb \<longleftrightarrow> nof_bytes \<le> ucast (pb_capacity pb - pb_write_index pb)"

definition fast_writable_bytes :: "PacketBuf \<Rightarrow> u64" where
  "fast_writable_bytes pb = ucast (pb_capacity pb - pb_write_index pb)"

definition pb_clear :: "PacketBuf \<Rightarrow> PacketBuf" where
  "pb_clear pb = pb\<lparr>pb_read_index := 0, pb_write_index := 0, pb_error_msg := ''''\<rparr>"

definition pb_reset :: "heap \<Rightarrow> PacketBuf \<Rightarrow> PacketBuf" where
  "pb_reset fresh pb =
     (let pb = pb_clear pb in
      if pb_min_capacity pb < pb_capacity pb
      then pb\<lparr>pb_buf := fresh (unat (pb_min_capacity pb)), pb_capacity := pb_min_capacity pb\<rparr>
      else pb)"

definition set_error_msg :: "string \<Rightarrow> PacketBuf \<Rightarrow> PacketBuf" where
  "set_error_msg error_msg pb = pb\<lparr>pb_error_msg := error_msg\<rparr>"

definition ensure_readable :: "u64 \<Rightarrow> PacketBuf \<Rightarrow> bool \<times> PacketBuf" where
  "ensure_readable bytes pb =
     (if \<not> is_readable bytes pb
      then (False, set_error_msg (''Try to read '' @ to_string (unat bytes) @ ''B, but only ''
              @ to_string (unat (readable_bytes pb)) @ ''B readable'') pb)
      else (True, pb))"

definition pb_extend :: "heap \<Rightarrow> u32 \<Rightarrow> PacketBuf \<Rightarrow> PacketBuf option" where
  "pb_extend fresh new_capacity pb = do {
     let new_buf = fresh (unat new_capacity);
     old \<leftarrow> peek (unat (pb_write_index pb - pb_read_index pb)) (pb_buf pb) (unat (pb_read_index pb));
     new_buf \<leftarrow> poke new_buf (unat (pb_read_index pb)) old;
     Some (pb\<lparr>pb_buf := new_buf, pb_capacity := new_capacity\<rparr>) }"

definition io_size :: u32 where
  "io_size = 4096"

definition ensure_writable :: "heap \<Rightarrow> u64 \<Rightarrow> PacketBuf \<Rightarrow> (bool \<times> PacketBuf) option" where
  "ensure_writable fresh bytes pb =
     (let new_write_index = (ucast (ucast (pb_write_index pb) + bytes) :: u32) in
      if new_write_index \<le> pb_capacity pb then Some (True, pb)
      else if pb_max_capacity pb < new_write_index
      then Some (False, set_error_msg (''Packet buffer size too large: ''
             @ to_string (unat new_write_index) @ '', max allowed size: ''
             @ to_string (unat (pb_max_capacity pb))) pb)
      else map_option (Pair True)
             (pb_extend fresh (min ((new_write_index + io_size - 1) AND NOT (io_size - 1))
                                   (pb_max_capacity pb)) pb))"

text \<open>The shape all writes of a fixed size share: reserve, store through the write index, count.\<close>

definition write_fixed ::
  "heap \<Rightarrow> u64 \<Rightarrow> (byte list \<Rightarrow> u32 \<Rightarrow> (byte list \<times> u32) option) \<Rightarrow> int \<Rightarrow> PacketBuf
   \<Rightarrow> (int \<times> PacketBuf) option" where
  "write_fixed fresh bytes htole ret pb = do {
     (ok, pb) \<leftarrow> ensure_writable fresh bytes pb;
     if \<not> ok then Some (-1, pb)
     else do {
       (buf, write_index) \<leftarrow> htole (pb_buf pb) (pb_write_index pb);
       Some (ret, pb\<lparr>pb_buf := buf, pb_write_index := write_index\<rparr>) } }"

definition write_uint1 :: "heap \<Rightarrow> u8 \<Rightarrow> PacketBuf \<Rightarrow> (int \<times> PacketBuf) option" where
  "write_uint1 fresh v pb = write_fixed fresh 1 (\<lambda>buf wi. write_htole8 buf wi v) 1 pb"

definition write_uint2 :: "heap \<Rightarrow> u16 \<Rightarrow> PacketBuf \<Rightarrow> (int \<times> PacketBuf) option" where
  "write_uint2 fresh v pb = write_fixed fresh 2 (\<lambda>buf wi. write_htole16 buf wi v) 2 pb"

definition write_uint3 :: "heap \<Rightarrow> u32 \<Rightarrow> PacketBuf \<Rightarrow> (int \<times> PacketBuf) option" where
  "write_uint3 fresh v pb = write_fixed fresh 3 (\<lambda>buf wi. write_htole24 buf wi v) 3 pb"

definition write_uint4 :: "heap \<Rightarrow> u32 \<Rightarrow> PacketBuf \<Rightarrow> (int \<times> PacketBuf) option" where
  "write_uint4 fresh v pb = write_fixed fresh 4 (\<lambda>buf wi. write_htole32 buf wi v) 4 pb"

definition write_uint6 :: "heap \<Rightarrow> u64 \<Rightarrow> PacketBuf \<Rightarrow> (int \<times> PacketBuf) option" where
  "write_uint6 fresh v pb = write_fixed fresh 6 (\<lambda>buf wi. write_htole48 buf wi v) 6 pb"

definition write_uint8 :: "heap \<Rightarrow> u64 \<Rightarrow> PacketBuf \<Rightarrow> (int \<times> PacketBuf) option" where
  "write_uint8 fresh v pb = write_fixed fresh 8 (\<lambda>buf wi. write_htole64 buf wi v) 8 pb"

definition write_uint_body :: "u64 \<Rightarrow> byte list \<Rightarrow> u32 \<Rightarrow> (byte list \<times> u32) option" where
  "write_uint_body v buf wi =
     (let len = encoded_bytes_length v in
      if len = 1 then write_htole8 buf wi (ucast v)
      else if len = 3 then do {
        (buf, wi) \<leftarrow> write_htole8 buf wi 0xFC; write_htole16 buf wi (ucast v) }
      else if len = 4 then do {
        (buf, wi) \<leftarrow> write_htole8 buf wi 0xFD; write_htole24 buf wi (ucast v) }
      else do {
        (buf, wi) \<leftarrow> write_htole8 buf wi 0xFE; write_htole64 buf wi v })"

definition write_uint :: "heap \<Rightarrow> u64 \<Rightarrow> PacketBuf \<Rightarrow> (int \<times> PacketBuf) option" where
  "write_uint fresh v pb =
     (let len = encoded_bytes_length v in
      write_fixed fresh (ucast len) (write_uint_body v) (int (unat len)) pb)"

definition pb_write_string ::
  "heap \<Rightarrow> byte list \<Rightarrow> u32 \<Rightarrow> bool \<Rightarrow> PacketBuf \<Rightarrow> (int \<times> PacketBuf) option" where
  "pb_write_string fresh str len prefix_with_encoded_len pb = do {
     let total_len = (if prefix_with_encoded_len then ucast (encoded_bytes_length (ucast len)) else 0) + len;
     (ok, pb) \<leftarrow> ensure_writable fresh (ucast total_len) pb;
     if \<not> ok then Some (-1, pb)
     else do {
       pb \<leftarrow> (if prefix_with_encoded_len then map_option snd (write_uint fresh (ucast len) pb) else Some pb);
       bs \<leftarrow> peek (unat len) str 0;
       buf \<leftarrow> poke (pb_buf pb) (unat (pb_write_index pb)) bs;
       Some (int (unat total_len), pb\<lparr>pb_buf := buf, pb_write_index := pb_write_index pb + len\<rparr>) } }"

text \<open>\<^verbatim>\<open>write_string(const std::string&, bool)\<close> and \<^verbatim>\<open>write_string(const char*)\<close>; the C string is the
  bytes before the terminator, which is written too.\<close>

definition pb_write_std_string ::
  "heap \<Rightarrow> byte list \<Rightarrow> bool \<Rightarrow> PacketBuf \<Rightarrow> (int \<times> PacketBuf) option" where
  "pb_write_std_string fresh str prefix pb = pb_write_string fresh str (of_nat (length str)) prefix pb"

definition pb_write_c_string :: "heap \<Rightarrow> byte list \<Rightarrow> PacketBuf \<Rightarrow> (int \<times> PacketBuf) option" where
  "pb_write_c_string fresh str pb =
     pb_write_string fresh (str @ [0]) (of_nat (length str + 1)) False pb"

definition read_fixed ::
  "u64 \<Rightarrow> (byte list \<Rightarrow> u32 \<Rightarrow> ('v \<times> u32) option) \<Rightarrow> int \<Rightarrow> 'v \<Rightarrow> PacketBuf
   \<Rightarrow> (int \<times> 'v \<times> PacketBuf) option" where
  "read_fixed bytes letoh ret v pb =
     (let (ok, pb) = ensure_readable bytes pb in
      if \<not> ok then Some (-1, v, pb)
      else do {
        (v, read_index) \<leftarrow> letoh (pb_buf pb) (pb_read_index pb);
        Some (ret, v, pb\<lparr>pb_read_index := read_index\<rparr>) })"

definition read_uint1 :: "u8 \<Rightarrow> PacketBuf \<Rightarrow> (int \<times> u8 \<times> PacketBuf) option" where
  "read_uint1 v pb = read_fixed 1 read_le8toh 1 v pb"

definition read_uint2 :: "u16 \<Rightarrow> PacketBuf \<Rightarrow> (int \<times> u16 \<times> PacketBuf) option" where
  "read_uint2 v pb = read_fixed 2 read_le16toh 2 v pb"

definition read_uint3 :: "u32 \<Rightarrow> PacketBuf \<Rightarrow> (int \<times> u32 \<times> PacketBuf) option" where
  "read_uint3 v pb = read_fixed 3 read_le24toh 3 v pb"

definition read_uint4 :: "u32 \<Rightarrow> PacketBuf \<Rightarrow> (int \<times> u32 \<times> PacketBuf) option" where
  "read_uint4 v pb = read_fixed 4 read_le32toh 4 v pb"

definition read_uint6 :: "u64 \<Rightarrow> PacketBuf \<Rightarrow> (int \<times> u64 \<times> PacketBuf) option" where
  "read_uint6 v pb = read_fixed 6 read_le48toh 6 v pb"

definition read_uint8 :: "u64 \<Rightarrow> PacketBuf \<Rightarrow> (int \<times> u64 \<times> PacketBuf) option" where
  "read_uint8 v pb = read_fixed 8 read_le64toh 8 v pb"

definition read_uint :: "u64 \<Rightarrow> PacketBuf \<Rightarrow> (int \<times> u64 \<times> PacketBuf) option" where
  "read_uint v pb =
     (let (ok, pb) = ensure_readable 1 pb in
      if \<not> ok then Some (-1, v, pb)
      else do {
        first_byte \<leftarrow> int1load (pb_buf pb) (unat (pb_read_index pb));
        if first_byte < 0xFB
        then Some (1, ucast first_byte, pb\<lparr>pb_read_index := pb_read_index pb + 1\<rparr>)
        else if first_byte = 0xFC then
          (let (ok, pb) = ensure_readable 3 pb in
           if \<not> ok then Some (-1, v, pb)
           else do {
             (tmp_h16, read_index) \<leftarrow> read_le16toh (pb_buf pb) (pb_read_index pb + 1);
             Some (3, ucast tmp_h16, pb\<lparr>pb_read_index := read_index\<rparr>) })
        else if first_byte = 0xFD then
          (let (ok, pb) = ensure_readable 4 pb in
           if \<not> ok then Some (-1, v, pb)
           else do {
             (tmp_h24, read_index) \<leftarrow> read_le24toh (pb_buf pb) (pb_read_index pb + 1);
             Some (4, ucast tmp_h24, pb\<lparr>pb_read_index := read_index\<rparr>) })
        else if first_byte = 0xFE then
          (let (ok, pb) = ensure_readable 9 pb in
           if \<not> ok then Some (-1, v, pb)
           else do {
             (v, read_index) \<leftarrow> read_le64toh (pb_buf pb) (pb_read_index pb + 1);
             Some (9, v, pb\<lparr>pb_read_index := read_index\<rparr>) })
        else Some (-1, v, set_error_msg (''Try to read an encoded integer, but the first byte is ''
                            @ to_string (unat first_byte)) pb) })"

definition read_fixed_length_string ::
  "byte list \<Rightarrow> u32 \<Rightarrow> PacketBuf \<Rightarrow> (int \<times> byte list \<times> PacketBuf) option" where
  "read_fixed_length_string str len pb =
     (let (ok, pb) = ensure_readable (ucast len) pb in
      if \<not> ok then Some (-1, str, pb)
      else do {
        str \<leftarrow> peek (unat len) (pb_buf pb) (unat (pb_read_index pb));
        Some (int (unat len), str, pb\<lparr>pb_read_index := pb_read_index pb + len\<rparr>) })"

definition read_length_encoded_string ::
  "byte list \<Rightarrow> PacketBuf \<Rightarrow> (int \<times> byte list \<times> PacketBuf) option" where
  "read_length_encoded_string str pb = do {
     (len_read_sz, len, pb) \<leftarrow> read_uint 0 pb;
     if len_read_sz < 0 then Some (-1, str, pb)
     else do {
       (str_read_sz, str, pb) \<leftarrow> read_fixed_length_string str (ucast len) pb;
       if str_read_sz < 0
       then Some (-1, str, pb\<lparr>pb_read_index := pb_read_index pb - of_int len_read_sz\<rparr>)
       else Some (len_read_sz + str_read_sz, str, pb) } }"

text \<open>
  The constructor \<^verbatim>\<open>std::string(const char*)\<close> runs to the first zero byte, with no regard to the write
  index; \<^verbatim>\<open>None\<close> when the allocation has none after the read index.
\<close>

definition c_string :: "byte list \<Rightarrow> byte list option" where
  "c_string bs = (if 0 \<in> set bs then Some (takeWhile (\<lambda>b. b \<noteq> 0) bs) else None)"

definition read_null_terminated_string :: "PacketBuf \<Rightarrow> (int \<times> byte list \<times> PacketBuf) option" where
  "read_null_terminated_string pb = do {
     str \<leftarrow> c_string (drop (unat (pb_read_index pb)) (pb_buf pb));
     let read_sz = (of_nat (length str + 1) :: u32);
     Some (int (unat read_sz), str, pb\<lparr>pb_read_index := pb_read_index pb + read_sz\<rparr>) }"

text \<open>\<^verbatim>\<open>read_bytes\<close> returns a pointer into the buffer; the model returns the bytes it points to.\<close>

definition read_bytes :: "u32 \<Rightarrow> PacketBuf \<Rightarrow> (int \<times> byte list \<times> PacketBuf) option" where
  "read_bytes len pb =
     (let (ok, pb) = ensure_readable (ucast len) pb in
      if \<not> ok then Some (-1, [], pb)
      else do {
        buf \<leftarrow> peek (unat len) (pb_buf pb) (unat (pb_read_index pb));
        Some (int (unat len), buf, pb\<lparr>pb_read_index := pb_read_index pb + len\<rparr>) })"

definition read_skip :: "u32 \<Rightarrow> PacketBuf \<Rightarrow> int \<times> PacketBuf" where
  "read_skip len pb =
     (let (ok, pb) = ensure_readable (ucast len) pb in
      if \<not> ok then (-1, pb) else (int (unat len), pb\<lparr>pb_read_index := pb_read_index pb + len\<rparr>))"

definition read_remaining_bytes :: "PacketBuf \<Rightarrow> (u32 \<times> byte list \<times> PacketBuf) option" where
  "read_remaining_bytes pb = do {
     let sz = pb_write_index pb - pb_read_index pb;
     buf \<leftarrow> peek (unat sz) (pb_buf pb) (unat (pb_read_index pb));
     Some (sz, buf, pb\<lparr>pb_read_index := pb_write_index pb\<rparr>) }"


section \<open>The invariant of the class and the queue it represents\<close>

definition pb_inv :: "PacketBuf \<Rightarrow> bool" where
  "pb_inv pb \<longleftrightarrow> length (pb_buf pb) = unat (pb_capacity pb)
     \<and> pb_read_index pb \<le> pb_write_index pb \<and> pb_write_index pb \<le> pb_capacity pb
     \<and> pb_min_capacity pb \<le> pb_capacity pb \<and> pb_capacity pb \<le> pb_max_capacity pb"

definition pb_unread :: "PacketBuf \<Rightarrow> byte list" where
  "pb_unread pb = take (unat (pb_write_index pb) - unat (pb_read_index pb))
     (drop (unat (pb_read_index pb)) (pb_buf pb))"

text \<open>The maximum is far enough from \<^verbatim>\<open>2^32\<close> for the rounding to the block size not to wrap.\<close>

definition pb_limit :: "PacketBuf \<Rightarrow> bool" where
  "pb_limit pb \<longleftrightarrow> unat (pb_max_capacity pb) \<le> 2 ^ 32 - 4096"

definition heap_ok :: "heap \<Rightarrow> bool" where
  "heap_ok fresh \<longleftrightarrow> (\<forall>n. length (fresh n) = n)"

text \<open>A write of the given bytes: everything a write operation does that its callers can see.\<close>

definition pb_room :: "nat \<Rightarrow> PacketBuf \<Rightarrow> bool" where
  "pb_room n pb \<longleftrightarrow> unat (pb_write_index pb) + n \<le> unat (pb_max_capacity pb)"

lemma pb_inv_nat:
  "pb_inv pb \<longleftrightarrow> length (pb_buf pb) = unat (pb_capacity pb)
     \<and> unat (pb_read_index pb) \<le> unat (pb_write_index pb)
     \<and> unat (pb_write_index pb) \<le> unat (pb_capacity pb)
     \<and> unat (pb_min_capacity pb) \<le> unat (pb_capacity pb)
     \<and> unat (pb_capacity pb) \<le> unat (pb_max_capacity pb)"
  by (simp add: pb_inv_def word_le_nat_alt)

lemma length_pb_unread:
  "pb_inv pb \<Longrightarrow> length (pb_unread pb) = unat (pb_write_index pb) - unat (pb_read_index pb)"
  by (auto simp: pb_unread_def pb_inv_nat)

lemma round_up_bounds:
  fixes n :: u32
  assumes "unat n + 4095 < 2 ^ 32"
  shows "unat n \<le> unat ((n + io_size - 1) AND NOT (io_size - 1))"
    and "unat ((n + io_size - 1) AND NOT (io_size - 1)) \<le> unat n + 4095"
proof -
  let ?x = "n + 4095 :: u32" and ?r = "(n + 4095) AND NOT 4095 :: u32"
  have x: "unat ?x = unat n + 4095" using assms by (subst unat_add_small) simp_all
  have m: "(4095 :: u32) = mask 12" by (simp add: mask_eq_exp_minus_1)
  have "?x AND NOT (mask 12) AND take_bit 12 ?x = 0" for x :: u32
    by (rule bit_eqI) (auto simp: bit_simps)
  moreover have "(?x AND NOT (mask 12)) OR take_bit 12 ?x = ?x" for x :: u32
    by (rule bit_eqI) (auto simp: bit_simps)
  ultimately have "?r AND take_bit 12 ?x = 0" "?r OR take_bit 12 ?x = ?x"
    unfolding m[symmetric] by (simp_all add: and.assoc)
  then have sum: "?r + take_bit 12 ?x = ?x" by (simp add: disjunctive_add_eq_or)
  have t: "unat (take_bit 12 ?x) \<le> 4095"
    using take_bit_nat_less_exp[of 12 "unat ?x"] by (simp add: unsigned_take_bit_eq)
  have le: "unat (take_bit 12 ?x) \<le> unat ?x"
    by (simp add: unsigned_take_bit_eq take_bit_nat_less_eq_self)
  have "?r = ?x - take_bit 12 ?x" using sum by (metis add_diff_cancel_right')
  then have "unat ?r = unat ?x - unat (take_bit 12 ?x)" using le by (simp add: unat_sub_small)
  then have "unat n \<le> unat ?r" "unat ?r \<le> unat n + 4095" using x t by linarith+
  moreover have "(n + io_size - 1) AND NOT (io_size - 1) = ?r" by (simp add: io_size_def add.commute)
  ultimately show "unat n \<le> unat ((n + io_size - 1) AND NOT (io_size - 1))"
    "unat ((n + io_size - 1) AND NOT (io_size - 1)) \<le> unat n + 4095"
    by simp_all
qed

lemma new_write_index_unat:
  "unat (wi :: u32) + unat (bytes :: u64) < 2 ^ 32 \<Longrightarrow>
   unat (ucast (ucast wi + bytes) :: u32) = unat wi + unat bytes"
proof -
  assume a: "unat wi + unat bytes < 2 ^ 32"
  have "unat (ucast wi :: u64) = unat wi" by (rule unat_ucast_small) (use a in simp)
  then have "unat (ucast wi + bytes) = unat wi + unat bytes"
    using a by (subst unat_add_small) simp_all
  then show ?thesis using a unat_ucast_small[of "ucast wi + bytes", where 'b = 32] by simp
qed

lemma pb_extend_ok:
  assumes inv: "pb_inv pb" and heap: "heap_ok fresh"
    and cap: "unat (pb_capacity pb) \<le> unat c" "unat c \<le> unat (pb_max_capacity pb)"
  shows "\<exists>buf. pb_extend fresh c pb = Some (pb\<lparr>pb_buf := buf, pb_capacity := c\<rparr>)
     \<and> pb_inv (pb\<lparr>pb_buf := buf, pb_capacity := c\<rparr>)
     \<and> pb_unread (pb\<lparr>pb_buf := buf, pb_capacity := c\<rparr>) = pb_unread pb"
proof -
  let ?r = "unat (pb_read_index pb)" and ?w = "unat (pb_write_index pb)"
  have d: "unat (pb_write_index pb - pb_read_index pb) = ?w - ?r"
    using inv by (simp add: pb_inv_nat unat_sub_small)
  have "peek (?w - ?r) (pb_buf pb) ?r = Some (pb_unread pb)"
    using inv by (simp add: peek_def pb_unread_def pb_inv_nat)
  moreover have "length (fresh (unat c)) = unat c" using heap by (simp add: heap_ok_def)
  moreover have len: "length (pb_unread pb) = ?w - ?r" using inv by (rule length_pb_unread)
  moreover have "?r + (?w - ?r) \<le> unat c" "?r \<le> unat c" using inv cap by (auto simp: pb_inv_nat)
  ultimately have "pb_extend fresh c pb = Some (pb\<lparr>pb_buf := take ?r (fresh (unat c)) @ pb_unread pb
      @ drop ?w (fresh (unat c)), pb_capacity := c\<rparr>)" (is "_ = Some ?pb")
    using inv by (simp add: pb_extend_def poke_def d pb_inv_nat Let_def)
  moreover have "pb_inv ?pb" using inv cap heap len by (auto simp: pb_inv_nat heap_ok_def)
  moreover have "pb_unread ?pb = pb_unread pb"
  proof -
    have "length (take ?r (fresh (unat c))) = ?r" using heap \<open>?r \<le> unat c\<close> by (simp add: heap_ok_def)
    then show ?thesis using len by (simp add: pb_unread_def[of ?pb])
  qed
  ultimately show ?thesis by blast
qed

lemma ensure_writable_ok:
  assumes inv: "pb_inv pb" and heap: "heap_ok fresh" and lim: "pb_limit pb"
    and small: "unat (pb_write_index pb) + unat bytes < 2 ^ 32"
  shows "\<exists>pb'. ensure_writable fresh bytes pb = Some (pb_room (unat bytes) pb, pb') \<and> pb_inv pb'
     \<and> pb_unread pb' = pb_unread pb \<and> pb_write_index pb' = pb_write_index pb
     \<and> pb_read_index pb' = pb_read_index pb \<and> pb_max_capacity pb' = pb_max_capacity pb
     \<and> (pb_room (unat bytes) pb \<longrightarrow> unat (pb_write_index pb) + unat bytes \<le> unat (pb_capacity pb'))"
proof -
  let ?n = "ucast (ucast (pb_write_index pb) + bytes) :: u32"
  have n: "unat ?n = unat (pb_write_index pb) + unat bytes" using small by (rule new_write_index_unat)
  consider "?n \<le> pb_capacity pb" | "\<not> ?n \<le> pb_capacity pb" "pb_max_capacity pb < ?n"
    | "\<not> ?n \<le> pb_capacity pb" "\<not> pb_max_capacity pb < ?n" by blast
  then show ?thesis
  proof cases
    case 1
    then show ?thesis using inv n
      by (auto simp: ensure_writable_def pb_room_def pb_inv_nat word_le_nat_alt)
  next
    case 2
    then show ?thesis using inv n
      by (simp add: ensure_writable_def pb_room_def pb_inv_nat word_less_nat_alt set_error_msg_def
          pb_unread_def)
  next
    case 3
    let ?c = "min ((?n + io_size - 1) AND NOT (io_size - 1)) (pb_max_capacity pb)"
    have "unat ?n + 4095 < 2 ^ 32" using 3 lim by (simp add: pb_limit_def word_less_nat_alt)
    note up = round_up_bounds(1)[OF this]
    have c: "unat ?n \<le> unat ?c" "unat ?c \<le> unat (pb_max_capacity pb)"
      using up 3 by (auto simp: min_def word_le_nat_alt word_less_nat_alt)
    then have "unat (pb_capacity pb) \<le> unat ?c" using 3 by (simp add: word_le_nat_alt)
    from pb_extend_ok[OF inv heap this c(2)] obtain buf where e:
      "pb_extend fresh ?c pb = Some (pb\<lparr>pb_buf := buf, pb_capacity := ?c\<rparr>)"
      "pb_inv (pb\<lparr>pb_buf := buf, pb_capacity := ?c\<rparr>)"
      "pb_unread (pb\<lparr>pb_buf := buf, pb_capacity := ?c\<rparr>) = pb_unread pb" by blast
    moreover have "pb_room (unat bytes) pb" using 3 n by (simp add: pb_room_def word_less_nat_alt)
    ultimately show ?thesis using 3 c(1) n by (simp add: ensure_writable_def Let_def)
  qed
qed


section \<open>Writes append to the queue\<close>

definition pb_advanced :: "byte list \<Rightarrow> PacketBuf \<Rightarrow> PacketBuf \<Rightarrow> bool" where
  "pb_advanced bs pb pb' \<longleftrightarrow> pb_inv pb' \<and> pb_unread pb' = pb_unread pb @ bs
     \<and> unat (pb_write_index pb') = unat (pb_write_index pb) + length bs
     \<and> pb_read_index pb' = pb_read_index pb \<and> pb_max_capacity pb' = pb_max_capacity pb"

definition pb_writes :: "(PacketBuf \<Rightarrow> (int \<times> PacketBuf) option) \<Rightarrow> byte list \<Rightarrow> bool" where
  "pb_writes w bs \<longleftrightarrow>
     (\<forall>pb. pb_inv pb \<longrightarrow> pb_limit pb \<longrightarrow> unat (pb_write_index pb) + length bs < 2 ^ 32 \<longrightarrow>
        (\<exists>pb'. w pb = Some (if pb_room (length bs) pb then int (length bs) else -1, pb')
           \<and> pb_advanced (if pb_room (length bs) pb then bs else []) pb pb'))"

lemma poke_poke: "poke buf p a \<bind> (\<lambda>b. poke b (p + length a) c) = poke buf p (a @ c)"
proof -
  have "map_option fst (emit a (buf, p) \<bind> emit c) = map_option fst (emit (a @ c) (buf, p))" by simp
  then show ?thesis
    by (cases "poke buf p a")
       (simp_all add: emit_def option.map_comp comp_def option.map_ident)
qed

lemma poke_write_index:
  assumes inv: "pb_inv pb" and fits: "unat (pb_write_index pb) + length bs \<le> unat (pb_capacity pb)"
    and wi: "unat wi = unat (pb_write_index pb) + length bs"
  shows "\<exists>buf. poke (pb_buf pb) (unat (pb_write_index pb)) bs = Some buf
     \<and> pb_advanced bs pb (pb\<lparr>pb_buf := buf, pb_write_index := wi\<rparr>)"
proof -
  let ?w = "unat (pb_write_index pb)" and ?r = "unat (pb_read_index pb)"
  let ?buf = "take ?w (pb_buf pb) @ bs @ drop (?w + length bs) (pb_buf pb)"
  have "poke (pb_buf pb) ?w bs = Some ?buf" using inv fits by (simp add: poke_def pb_inv_nat)
  moreover have "pb_inv (pb\<lparr>pb_buf := ?buf, pb_write_index := wi\<rparr>)"
    using inv fits wi by (auto simp: pb_inv_nat)
  moreover have "drop ?r ?buf = pb_unread pb @ bs @ drop (?w + length bs) (pb_buf pb)"
    using inv by (simp add: pb_unread_def pb_inv_nat take_drop)
  then have "pb_unread (pb\<lparr>pb_buf := ?buf, pb_write_index := wi\<rparr>) = pb_unread pb @ bs"
    using wi length_pb_unread[OF inv] inv
    by (simp add: pb_unread_def[of "pb\<lparr>pb_buf := _, pb_write_index := _\<rparr>"] pb_inv_nat)
  ultimately show ?thesis using wi by (simp add: pb_advanced_def)
qed

lemma write_fixed_writes:
  assumes heap: "heap_ok fresh" and bytes: "unat bytes = length bs" and ret: "ret = int (length bs)"
    and store: "\<And>buf wi. unat wi + length bs < 2 ^ 32 \<Longrightarrow>
      htole buf wi = map_option (\<lambda>b. (b, wi + of_nat (length bs))) (poke buf (unat wi) bs)"
  shows "pb_writes (write_fixed fresh bytes htole ret) bs"
  unfolding pb_writes_def
proof (intro allI impI)
  fix pb assume inv: "pb_inv pb" and lim: "pb_limit pb"
    and small: "unat (pb_write_index pb) + length bs < 2 ^ 32"
  from ensure_writable_ok[OF inv heap lim, of bytes] small bytes obtain p1 where p1:
    "ensure_writable fresh bytes pb = Some (pb_room (length bs) pb, p1)" "pb_inv p1"
    "pb_unread p1 = pb_unread pb" "pb_write_index p1 = pb_write_index pb"
    "pb_read_index p1 = pb_read_index pb" "pb_max_capacity p1 = pb_max_capacity pb"
    "pb_room (length bs) pb \<longrightarrow> unat (pb_write_index pb) + length bs \<le> unat (pb_capacity p1)"
    by auto
  show "\<exists>pb'. write_fixed fresh bytes htole ret pb =
        Some (if pb_room (length bs) pb then int (length bs) else -1, pb')
      \<and> pb_advanced (if pb_room (length bs) pb then bs else []) pb pb'"
  proof (cases "pb_room (length bs) pb")
    case True
    have "unat (of_nat (length bs) :: u32) = length bs" using small by simp
    then have "unat (pb_write_index p1 + of_nat (length bs)) = unat (pb_write_index p1) + length bs"
      using small p1(4) by (subst unat_add_small) simp_all
    from poke_write_index[OF p1(2) _ this] True p1 obtain buf where
      "poke (pb_buf p1) (unat (pb_write_index p1)) bs = Some buf"
      "pb_advanced bs p1 (p1\<lparr>pb_buf := buf, pb_write_index := pb_write_index p1 + of_nat (length bs)\<rparr>)"
      by auto
    then show ?thesis using True p1 small store[of "pb_write_index p1" "pb_buf p1"] ret
      by (simp add: write_fixed_def pb_advanced_def)
  next
    case False
    then show ?thesis using p1 by (simp add: write_fixed_def pb_advanced_def)
  qed
qed

text \<open>The stores of \<^verbatim>\<open>byte_order.h\<close>, alone and in sequence, are one \<^verbatim>\<open>poke\<close> of their bytes.\<close>

definition stores_as :: "(byte list \<Rightarrow> u32 \<Rightarrow> (byte list \<times> u32) option) \<Rightarrow> byte list \<Rightarrow> bool" where
  "stores_as htole bs \<longleftrightarrow> (\<forall>buf wi. unat wi + length bs < 2 ^ 32 \<longrightarrow>
     htole buf wi = map_option (\<lambda>b. (b, wi + of_nat (length bs))) (poke buf (unat wi) bs))"

lemma stores_as_seq:
  assumes "stores_as f a" "stores_as g c"
  shows "stores_as (\<lambda>buf wi. f buf wi \<bind> (\<lambda>(buf, wi). g buf wi)) (a @ c)"
  unfolding stores_as_def
proof (intro allI impI)
  fix buf :: "byte list" and wi :: u32 assume small: "unat wi + length (a @ c) < 2 ^ 32"
  let ?wi = "wi + of_nat (length a)"
  have "unat (of_nat (length a) :: u32) = length a" using small by simp
  then have wi: "unat ?wi = unat wi + length a" using small by (subst unat_add_small) simp_all
  have f: "f buf wi = map_option (\<lambda>b. (b, ?wi)) (poke buf (unat wi) a)"
    using assms(1) small by (simp add: stores_as_def)
  have g: "g b ?wi = map_option (\<lambda>b. (b, ?wi + of_nat (length c))) (poke b (unat wi + length a) c)" for b
  proof -
    have "unat ?wi + length c < 2 ^ 32" using wi small by simp
    with assms(2) have "g b ?wi = map_option (\<lambda>b. (b, ?wi + of_nat (length c))) (poke b (unat ?wi) c)"
      unfolding stores_as_def by blast
    then show ?thesis by (simp only: wi)
  qed
  show "f buf wi \<bind> (\<lambda>(buf, wi). g buf wi)
      = map_option (\<lambda>b. (b, wi + of_nat (length (a @ c)))) (poke buf (unat wi) (a @ c))"
    unfolding poke_poke[symmetric] f
    by (cases "poke buf (unat wi) a") (simp_all add: g ac_simps)
qed

lemma stores_as_htole:
  "stores_as (\<lambda>buf wi. write_htole8 buf wi a) [a]"
  "stores_as (\<lambda>buf wi. write_htole16 buf wi b) (le_bytes 2 b)"
  "stores_as (\<lambda>buf wi. write_htole32 buf wi c) (le_bytes 4 c)"
  "stores_as (\<lambda>buf wi. write_htole64 buf wi d) (le_bytes 8 d)"
  by (simp_all add: stores_as_def write_htole8_def write_htole16_def write_htole32_def
      write_htole64_def map_conv_bind_option comp_def)

lemma stores_as_htole24: "stores_as (\<lambda>buf wi. write_htole24 buf wi v) (le_bytes 3 v)"
proof -
  have "le_bytes 2 (ucast v :: u16) @ [ucast (drop_bit 16 v)] = le_bytes 3 v"
    by (simp add: le_bytes_numerals ucast_drop_bit_ucast ucast_byte_ucast drop_bit_drop_bit)
  then show ?thesis
    using stores_as_seq[OF stores_as_htole(2)[of "ucast v"] stores_as_htole(1)[of "ucast (drop_bit 16 v)"]]
    by (simp add: write_htole24_def)
qed

lemma stores_as_htole48: "stores_as (\<lambda>buf wi. write_htole48 buf wi v) (le_bytes 6 v)"
proof -
  have "le_bytes 4 (ucast v :: u32) @ le_bytes 2 (ucast (drop_bit 32 v) :: u16) = le_bytes 6 v"
    by (simp add: le_bytes_numerals ucast_drop_bit_ucast ucast_byte_ucast drop_bit_drop_bit)
  then show ?thesis
    using stores_as_seq[OF stores_as_htole(3)[of "ucast v"] stores_as_htole(2)[of "ucast (drop_bit 32 v)"]]
    by (simp add: write_htole48_def)
qed

lemma encoded_bytes_length_store:
  "unat (encoded_bytes_length v) = length (packet_store_length v)"
  by (simp add: encoded_bytes_length_def packet_store_length_def)

lemma stores_as_uint: "stores_as (write_uint_body v) (packet_store_length v)"
proof -
  have 3: "le_bytes 3 (ucast v :: u32) = le_bytes 3 v" by (rule le_bytes_ucast) simp
  note seq = stores_as_seq[OF stores_as_htole(1)]
  consider "v < 251" | "\<not> v < 251" "v < 65536" | "\<not> v < 65536" "v < 16777216" | "\<not> v < 16777216"
    by blast
  then show ?thesis
  proof cases
    case 1
    then show ?thesis using stores_as_htole(1)[of "ucast v"]
      by (simp add: write_uint_body_def[abs_def] encoded_bytes_length_def packet_store_length_def)
  next
    case 2
    then show ?thesis using seq[OF stores_as_htole(2), of "0xFC" "ucast v"]
      by (simp add: write_uint_body_def[abs_def] encoded_bytes_length_def packet_store_length_def
          int2store_def le_bytes_ucast)
  next
    case 3
    then have "\<not> v < 251" by (simp add: word_less_nat_alt)
    with 3 show ?thesis using seq[OF stores_as_htole24, of "0xFD" "ucast v"]
      by (simp add: write_uint_body_def[abs_def] encoded_bytes_length_def packet_store_length_def
          stores_are_le_bytes)
  next
    case 4
    then have "\<not> v < 251" "\<not> v < 65536" by (simp_all add: word_less_nat_alt)
    with 4 show ?thesis using seq[OF stores_as_htole(4), of "0xFE" v]
      by (simp add: write_uint_body_def[abs_def] encoded_bytes_length_def packet_store_length_def
          int8store_def)
  qed
qed

lemma write_fixed_stores:
  "heap_ok fresh \<Longrightarrow> stores_as htole bs \<Longrightarrow> unat bytes = length bs \<Longrightarrow> ret = int (length bs) \<Longrightarrow>
   pb_writes (write_fixed fresh bytes htole ret) bs"
  by (rule write_fixed_writes) (simp_all add: stores_as_def)

lemma write_uints_write:
  assumes "heap_ok fresh"
  shows "pb_writes (write_uint1 fresh a) [a]"
    "pb_writes (write_uint2 fresh b) (int2store b)"
    "pb_writes (write_uint3 fresh c) (int3store c)"
    "pb_writes (write_uint4 fresh c) (int4store c)"
    "pb_writes (write_uint6 fresh d) (int6store d)"
    "pb_writes (write_uint8 fresh d) (int8store d)"
  unfolding write_uint1_def[abs_def] write_uint2_def[abs_def] write_uint3_def[abs_def]
    write_uint4_def[abs_def] write_uint6_def[abs_def] write_uint8_def[abs_def]
  by (auto intro!: write_fixed_stores[OF assms] stores_as_htole stores_as_htole24 stores_as_htole48
      simp: int2store_def stores_are_le_bytes int4store_def int8store_def)

lemma write_uint_writes: "heap_ok fresh \<Longrightarrow> pb_writes (write_uint fresh v) (packet_store_length v)"
proof -
  have "encoded_bytes_length v < 16" by (simp add: encoded_bytes_length_def)
  then have "unat (ucast (encoded_bytes_length v) :: u64) = length (packet_store_length v)"
    using unat_ucast_small[of "encoded_bytes_length v", where 'b = 64]
    by (simp add: encoded_bytes_length_store word_less_nat_alt)
  then show "heap_ok fresh \<Longrightarrow> ?thesis"
    unfolding write_uint_def[abs_def] Let_def
    by (intro write_fixed_stores stores_as_uint) (simp_all add: encoded_bytes_length_store)
qed

lemma write_fixed_fast:
  assumes "stores_as htole bs" "pb_inv pb" "unat bytes = length bs"
    and fits: "unat (pb_write_index pb) + length bs \<le> unat (pb_capacity pb)"
  shows "\<exists>buf wi. write_fixed fresh bytes htole ret pb = Some (ret, pb\<lparr>pb_buf := buf, pb_write_index := wi\<rparr>)
     \<and> pb_advanced bs pb (pb\<lparr>pb_buf := buf, pb_write_index := wi\<rparr>)"
proof -
  have small: "unat (pb_write_index pb) + length bs < 2 ^ 32"
    using fits unat_bound[of "pb_capacity pb"] by (simp add: order_le_less_trans)
  then have n: "unat (ucast (ucast (pb_write_index pb) + bytes) :: u32) = unat (pb_write_index pb) + length bs"
    using new_write_index_unat[of "pb_write_index pb" bytes] assms(3) by simp
  have e: "ensure_writable fresh bytes pb = Some (True, pb)"
    using n fits by (simp add: ensure_writable_def word_le_nat_alt)
  let ?wi = "pb_write_index pb + of_nat (length bs)"
  have "unat (of_nat (length bs) :: u32) = length bs" using small by simp
  then have "unat ?wi = unat (pb_write_index pb) + length bs"
    using small by (subst unat_add_small) simp_all
  from poke_write_index[OF assms(2) fits this] obtain buf where
    "poke (pb_buf pb) (unat (pb_write_index pb)) bs = Some buf"
    "pb_advanced bs pb (pb\<lparr>pb_buf := buf, pb_write_index := ?wi\<rparr>)" by blast
  then show ?thesis using e assms(1) small by (auto simp: write_fixed_def stores_as_def)
qed

lemma write_string_writes:
  assumes heap: "heap_ok fresh" and len: "unat len = length str"
    and bs: "bs = (if prefix then packet_store_length (ucast len) else []) @ str"
  shows "pb_writes (pb_write_string fresh str len prefix) bs"
  unfolding pb_writes_def
proof (intro allI impI)
  fix pb assume inv: "pb_inv pb" and lim: "pb_limit pb"
    and small: "unat (pb_write_index pb) + length bs < 2 ^ 32"
  let ?pre = "if prefix then packet_store_length (ucast len) else []"
  let ?total = "(if prefix then ucast (encoded_bytes_length (ucast len)) else 0) + len"
  have "unat (if prefix then ucast (encoded_bytes_length (ucast len)) else 0 :: u32) = length ?pre"
    using unat_ucast_small[of "encoded_bytes_length (ucast len)", where 'b = 32]
      unat_bound[of "encoded_bytes_length (ucast len)"]
    by (auto simp: encoded_bytes_length_store)
  then have total: "unat ?total = length bs"
    using small len bs by (subst unat_add_small) simp_all
  have tb: "unat (ucast ?total :: u64) = length bs"
    using total small by (subst unat_ucast_small) simp_all
  from ensure_writable_ok[OF inv heap lim, of "ucast ?total"] small tb obtain p1 where p1:
    "ensure_writable fresh (ucast ?total) pb = Some (pb_room (length bs) pb, p1)" "pb_inv p1"
    "pb_unread p1 = pb_unread pb" "pb_write_index p1 = pb_write_index pb"
    "pb_read_index p1 = pb_read_index pb" "pb_max_capacity p1 = pb_max_capacity pb"
    "pb_room (length bs) pb \<longrightarrow> unat (pb_write_index pb) + length bs \<le> unat (pb_capacity p1)"
    by auto
  show "\<exists>pb'. pb_write_string fresh str len prefix pb =
        Some (if pb_room (length bs) pb then int (length bs) else -1, pb')
      \<and> pb_advanced (if pb_room (length bs) pb then bs else []) pb pb'"
  proof (cases "pb_room (length bs) pb")
    case False
    then show ?thesis using p1 by (simp add: pb_write_string_def pb_advanced_def Let_def)
  next
    case True
    with p1 have fits: "unat (pb_write_index p1) + length bs \<le> unat (pb_capacity p1)" by simp
    obtain p2 where p2: "(if prefix then map_option snd (write_uint fresh (ucast len) p1) else Some p1) = Some p2"
      "pb_advanced ?pre p1 p2" "pb_capacity p2 = pb_capacity p1"
    proof (cases prefix)
      case True
      have n: "unat (ucast (encoded_bytes_length (ucast len)) :: u64) = length (packet_store_length (ucast len))"
        using unat_ucast_small[of "encoded_bytes_length (ucast len)", where 'b = 64]
          unat_bound[of "encoded_bytes_length (ucast len)"]
        by (simp add: encoded_bytes_length_store)
      have "unat (pb_write_index p1) + length (packet_store_length (ucast len)) \<le> unat (pb_capacity p1)"
        using fits bs True by simp
      from write_fixed_fast[OF stores_as_uint p1(2) n this] obtain buf wi where
        "write_uint fresh (ucast len) p1 = Some (int (unat (encoded_bytes_length (ucast len))),
           p1\<lparr>pb_buf := buf, pb_write_index := wi\<rparr>)"
        "pb_advanced (packet_store_length (ucast len)) p1 (p1\<lparr>pb_buf := buf, pb_write_index := wi\<rparr>)"
        unfolding write_uint_def Let_def by blast
      then show ?thesis using that True by simp
    next
      case False
      then show ?thesis using that[of p1] p1(2) by (simp add: pb_advanced_def)
    qed
    have fits2: "unat (pb_write_index p2) + length str \<le> unat (pb_capacity p2)"
      using fits p2 bs by (simp add: pb_advanced_def)
    have "unat (pb_write_index p2) + length str < 2 ^ 32"
      using p2(2) p1(4) small bs by (simp add: pb_advanced_def)
    then have "unat (pb_write_index p2 + len) = unat (pb_write_index p2) + length str"
      using len by (subst unat_add_small) simp_all
    from poke_write_index[OF _ fits2 this] p2(2) obtain buf where
      "poke (pb_buf p2) (unat (pb_write_index p2)) str = Some buf"
      "pb_advanced str p2 (p2\<lparr>pb_buf := buf, pb_write_index := pb_write_index p2 + len\<rparr>)"
      by (auto simp: pb_advanced_def)
    then show ?thesis using True p1 p2 total len bs
      by (simp add: pb_write_string_def pb_advanced_def Let_def)
  qed
qed

lemma std_string_writes:
  assumes "heap_ok fresh" "length str < 2 ^ 32"
  shows "pb_writes (pb_write_std_string fresh str True) (packet_store_length (of_nat (length str)) @ str)"
    "pb_writes (pb_write_std_string fresh str False) str"
proof -
  have "ucast (of_nat (length str) :: u32) = (of_nat (length str) :: u64)"
  proof -
    have "unat (ucast (of_nat (length str) :: u32) :: u64) = length str"
      using assms(2) by (subst unat_ucast_small) simp_all
    then show ?thesis using assms(2) by (simp add: word_unat_eq_iff)
  qed
  then show "pb_writes (pb_write_std_string fresh str True) (packet_store_length (of_nat (length str)) @ str)"
    "pb_writes (pb_write_std_string fresh str False) str"
    unfolding pb_write_std_string_def[abs_def]
    using assms(2) by (auto intro!: write_string_writes[OF assms(1)])
qed

lemma c_string_writes:
  "heap_ok fresh \<Longrightarrow> length str + 1 < 2 ^ 32 \<Longrightarrow> pb_writes (pb_write_c_string fresh str) (str @ [0])"
  unfolding pb_write_c_string_def[abs_def]
  by (rule write_string_writes) (simp_all add: unat_of_nat_small del: of_nat_Suc of_nat_add)

text \<open>
  The \<^verbatim>\<open>serialize\<close> methods add up the results of a sequence of writes in an unsigned counter and do
  not look at the single results.
\<close>

primrec sum_writes ::
  "(PacketBuf \<Rightarrow> (int \<times> PacketBuf) option) list \<Rightarrow> u32 \<Rightarrow> PacketBuf \<Rightarrow> (u32 \<times> PacketBuf) option" where
  "sum_writes [] sz pb = Some (sz, pb)"
| "sum_writes (w # ws) sz pb = do {
     (r, pb) \<leftarrow> w pb;
     sum_writes ws (sz + of_int r) pb }"

lemma sum_writes_ok:
  assumes "list_all2 pb_writes ws bss" "pb_inv pb" "pb_limit pb" "pb_room (length (concat bss)) pb"
  shows "\<exists>pb'. sum_writes ws sz pb = Some (sz + of_nat (length (concat bss)), pb')
     \<and> pb_advanced (concat bss) pb pb'"
  using assms
proof (induction ws bss arbitrary: pb sz rule: list_all2_induct)
  case Nil
  then show ?case by (simp add: pb_advanced_def)
next
  case (Cons w ws b bss)
  have "unat (pb_max_capacity pb) < 2 ^ 32" using unat_bound[of "pb_max_capacity pb"] by simp
  then have "unat (pb_write_index pb) + length b < 2 ^ 32" "pb_room (length b) pb"
    using Cons.prems(3) by (simp_all add: pb_room_def)
  then obtain p1 where p1: "w pb = Some (int (length b), p1)" "pb_advanced b pb p1"
    using Cons.hyps(1) Cons.prems by (auto simp: pb_writes_def)
  then have "pb_inv p1" "pb_limit p1" "pb_room (length (concat bss)) p1"
    using Cons.prems by (auto simp: pb_advanced_def pb_limit_def pb_room_def)
  from Cons.IH[OF this, of "sz + of_nat (length b)"] p1 show ?case
    by (auto simp: pb_advanced_def ac_simps)
qed


section \<open>Reads take from the front of the queue\<close>

definition pb_consumed :: "byte list \<Rightarrow> PacketBuf \<Rightarrow> PacketBuf \<Rightarrow> bool" where
  "pb_consumed qs pb pb' \<longleftrightarrow> pb_inv pb' \<and> pb_unread pb' = qs
     \<and> pb_write_index pb' = pb_write_index pb \<and> pb_max_capacity pb' = pb_max_capacity pb"

lemma is_readable_iff: "pb_inv pb \<Longrightarrow> is_readable n pb \<longleftrightarrow> unat n \<le> length (pb_unread pb)"
proof -
  assume inv: "pb_inv pb"
  have "unat (ucast (pb_write_index pb - pb_read_index pb) :: u64) = unat (pb_write_index pb - pb_read_index pb)"
    using unat_bound[of "pb_write_index pb - pb_read_index pb"] by (intro unat_ucast_small) simp
  then show ?thesis using inv
    by (simp add: is_readable_def word_le_nat_alt length_pb_unread pb_inv_nat unat_sub_small)
qed

lemma ensure_readable_yes:
  "pb_inv pb \<Longrightarrow> unat n \<le> length (pb_unread pb) \<Longrightarrow> ensure_readable n pb = (True, pb)"
  by (simp add: ensure_readable_def is_readable_iff)

lemma ensure_readable_no:
  "pb_inv pb \<Longrightarrow> length (pb_unread pb) < unat n \<Longrightarrow>
   \<exists>msg. ensure_readable n pb = (False, pb\<lparr>pb_error_msg := msg\<rparr>)"
  unfolding ensure_readable_def set_error_msg_def by (subst is_readable_iff) auto

lemma peek_unread:
  assumes "pb_inv pb" "pb_unread pb = as @ bs @ qs" "n = length bs" "p = unat (pb_read_index pb) + length as"
  shows "peek n (pb_buf pb) p = Some bs"
proof -
  let ?r = "unat (pb_read_index pb)" and ?w = "unat (pb_write_index pb)"
  have len: "length as + length bs + length qs = ?w - ?r"
    using length_pb_unread[OF assms(1)] assms(2) by simp
  then have "take n (drop p (pb_buf pb)) = take n (drop (length as) (pb_unread pb))"
    using assms(3,4) by (simp add: pb_unread_def drop_take add.commute)
  moreover have "p + n \<le> length (pb_buf pb)" using len assms(1,3,4) by (auto simp: pb_inv_nat)
  ultimately show ?thesis using assms(2,3) by (simp add: peek_def)
qed

lemma pb_consume:
  assumes "pb_inv pb" "pb_unread pb = bs @ qs" "unat ri = unat (pb_read_index pb) + length bs"
  shows "pb_consumed qs pb (pb\<lparr>pb_read_index := ri\<rparr>)"
proof -
  have len: "length bs + length qs = unat (pb_write_index pb) - unat (pb_read_index pb)"
    using length_pb_unread[OF assms(1)] assms(2) by simp
  then have le: "unat ri \<le> unat (pb_write_index pb)" using assms(1,3) by (auto simp: pb_inv_nat)
  have "pb_unread (pb\<lparr>pb_read_index := ri\<rparr>) = drop (length bs) (pb_unread pb)"
    using assms(3) by (simp add: pb_unread_def drop_take add.commute)
  then show ?thesis using assms le by (auto simp: pb_consumed_def pb_inv_nat)
qed

lemma read_index_add:
  assumes "pb_inv pb" "pb_unread pb = bs @ qs" "unat k = length bs"
  shows "unat (pb_read_index pb + k) = unat (pb_read_index pb) + length bs"
proof -
  have "unat (pb_read_index pb) + length bs \<le> unat (pb_write_index pb)"
    using length_pb_unread[OF assms(1)] assms(1,2) by (auto simp: pb_inv_nat)
  then have "unat (pb_read_index pb) + unat k < 2 ^ 32"
    using assms(3) unat_bound[of "pb_write_index pb"] by simp
  then show ?thesis using assms(3) by (simp add: unat_add_small)
qed

lemma read_fixed_rest:
  assumes inv: "pb_inv pb" and rest: "pb_unread pb = bs @ qs" and n: "unat bytes = length bs"
    and load: "\<And>buf ri. peek (length bs) buf (unat ri) = Some bs \<Longrightarrow>
      unat ri + length bs < 2 ^ 32 \<Longrightarrow> letoh buf ri = Some (x, ri + of_nat (length bs))"
  shows "\<exists>pb'. read_fixed bytes letoh ret v pb = Some (ret, x, pb') \<and> pb_consumed qs pb pb'"
proof -
  have "peek (length bs) (pb_buf pb) (unat (pb_read_index pb)) = Some bs"
    using peek_unread[OF inv, of "[]" bs qs] rest by simp
  moreover have le: "unat (pb_read_index pb) + length bs \<le> unat (pb_write_index pb)"
    using length_pb_unread[OF inv] inv rest by (auto simp: pb_inv_nat)
  then have small: "unat (pb_read_index pb) + length bs < 2 ^ 32"
    using unat_bound[of "pb_write_index pb"] by simp
  ultimately have "letoh (pb_buf pb) (pb_read_index pb) = Some (x, pb_read_index pb + of_nat (length bs))"
    by (rule load)
  moreover have "unat (pb_read_index pb + of_nat (length bs)) = unat (pb_read_index pb) + length bs"
    using small by (intro read_index_add[OF inv rest]) simp
  ultimately show ?thesis using pb_consume[OF inv rest] inv rest n
    by (simp add: read_fixed_def ensure_readable_yes)
qed

lemma read_fixed_short:
  assumes "pb_inv pb" "length (pb_unread pb) < unat bytes"
  shows "\<exists>pb'. read_fixed bytes letoh ret v pb = Some (-1, v, pb') \<and> pb_consumed (pb_unread pb) pb pb'
     \<and> pb_read_index pb' = pb_read_index pb"
  using ensure_readable_no[OF assms] assms(1)
  by (auto simp: read_fixed_def pb_consumed_def pb_inv_nat pb_unread_def)

lemma peek_split:
  "peek (m + n) buf p = Some (as @ bs) \<Longrightarrow> length as = m \<Longrightarrow>
   peek m buf p = Some as \<and> peek n buf (p + m) = Some bs"
  by (auto simp: peek_def take_add add.commute split: if_splits)

lemma read_le24toh_bytes:
  assumes "peek 3 buf (unat ri) = Some bs" "length bs = 3" "unat ri + 3 < 2 ^ 32"
  shows "read_le24toh buf ri = Some (le_word bs, ri + 3)"
proof -
  define a c where "a = take 2 bs" and "c = drop 2 bs"
  have bs: "bs = a @ c" "length a = 2" "length c = 1" using assms(2) by (simp_all add: a_def c_def)
  have p: "peek 2 buf (unat ri) = Some a" "peek 1 buf (unat ri + 2) = Some c"
    using peek_split[of 2 1 buf "unat ri" a c] assms(1) bs by simp_all
  have ri: "unat (ri + 2) = unat ri + 2" using assms(3) by (subst unat_add_small) simp_all
  have "(ucast (le_word a :: u16) :: u32) = le_word a" "(ucast (le_word c :: u8) :: u32) = le_word c"
    using bs by (simp_all add: ucast_le_word)
  then show ?thesis using p ri bs
    by (simp add: read_le24toh_def read_le16toh_def read_le8toh_def le_word_append or.commute)
qed

lemma read_le48toh_bytes:
  assumes "peek 6 buf (unat ri) = Some bs" "length bs = 6" "unat ri + 6 < 2 ^ 32"
  shows "read_le48toh buf ri = Some (le_word bs, ri + 6)"
proof -
  define a c where "a = take 4 bs" and "c = drop 4 bs"
  have bs: "bs = a @ c" "length a = 4" "length c = 2" using assms(2) by (simp_all add: a_def c_def)
  have p: "peek 4 buf (unat ri) = Some a" "peek 2 buf (unat ri + 4) = Some c"
    using peek_split[of 4 2 buf "unat ri" a c] assms(1) bs by simp_all
  have ri: "unat (ri + 4) = unat ri + 4" using assms(3) by (subst unat_add_small) simp_all
  have "(ucast (le_word a :: u32) :: u64) = le_word a" "(ucast (le_word c :: u16) :: u64) = le_word c"
    using bs by (simp_all add: ucast_le_word)
  then show ?thesis using p ri bs
    by (simp add: read_le48toh_def read_le32toh_def read_le16toh_def le_word_append or.commute)
qed

lemma read_uints_rest:
  assumes inv: "pb_inv pb"
  shows "pb_unread pb = [a] @ qs \<Longrightarrow>
      \<exists>pb'. read_uint1 i1 pb = Some (1, a, pb') \<and> pb_consumed qs pb pb'"
    and "pb_unread pb = int2store b @ qs \<Longrightarrow>
      \<exists>pb'. read_uint2 i2 pb = Some (2, b, pb') \<and> pb_consumed qs pb pb'"
    and "unat c < 2 ^ 24 \<Longrightarrow> pb_unread pb = int3store c @ qs \<Longrightarrow>
      \<exists>pb'. read_uint3 i4 pb = Some (3, c, pb') \<and> pb_consumed qs pb pb'"
    and "pb_unread pb = int4store c @ qs \<Longrightarrow>
      \<exists>pb'. read_uint4 i4 pb = Some (4, c, pb') \<and> pb_consumed qs pb pb'"
    and "unat d < 2 ^ 48 \<Longrightarrow> pb_unread pb = int6store d @ qs \<Longrightarrow>
      \<exists>pb'. read_uint6 i8 pb = Some (6, d, pb') \<and> pb_consumed qs pb pb'"
    and "pb_unread pb = int8store d @ qs \<Longrightarrow>
      \<exists>pb'. read_uint8 i8 pb = Some (8, d, pb') \<and> pb_consumed qs pb pb'"
proof -
  show "pb_unread pb = [a] @ qs \<Longrightarrow>
      \<exists>pb'. read_uint1 i1 pb = Some (1, a, pb') \<and> pb_consumed qs pb pb'"
    unfolding read_uint1_def by (erule read_fixed_rest[OF inv]) (simp_all add: read_le8toh_def)
  show "pb_unread pb = int2store b @ qs \<Longrightarrow>
      \<exists>pb'. read_uint2 i2 pb = Some (2, b, pb') \<and> pb_consumed qs pb pb'"
    unfolding read_uint2_def
    by (erule read_fixed_rest[OF inv]) (simp_all add: read_le16toh_def int2store_def)
  show "unat c < 2 ^ 24 \<Longrightarrow> pb_unread pb = int3store c @ qs \<Longrightarrow>
      \<exists>pb'. read_uint3 i4 pb = Some (3, c, pb') \<and> pb_consumed qs pb pb'"
    unfolding read_uint3_def
    by (erule read_fixed_rest[OF inv])
       (simp_all add: read_le24toh_bytes stores_are_le_bytes le_word_le_bytes_small)
  show "pb_unread pb = int4store c @ qs \<Longrightarrow>
      \<exists>pb'. read_uint4 i4 pb = Some (4, c, pb') \<and> pb_consumed qs pb pb'"
    unfolding read_uint4_def
    by (erule read_fixed_rest[OF inv]) (simp_all add: read_le32toh_def int4store_def)
  show "unat d < 2 ^ 48 \<Longrightarrow> pb_unread pb = int6store d @ qs \<Longrightarrow>
      \<exists>pb'. read_uint6 i8 pb = Some (6, d, pb') \<and> pb_consumed qs pb pb'"
    unfolding read_uint6_def
    by (erule read_fixed_rest[OF inv])
       (simp_all add: read_le48toh_bytes stores_are_le_bytes le_word_le_bytes_small)
  show "pb_unread pb = int8store d @ qs \<Longrightarrow>
      \<exists>pb'. read_uint8 i8 pb = Some (8, d, pb') \<and> pb_consumed qs pb pb'"
    unfolding read_uint8_def
    by (erule read_fixed_rest[OF inv]) (simp_all add: read_le64toh_def int8store_def)
qed

lemma int1load_peek: "peek 1 buf p = Some [b] \<Longrightarrow> int1load buf p = Some b"
  by (simp add: int1load_def)

lemma read_uint_rest:
  assumes inv: "pb_inv pb" and rest: "pb_unread pb = packet_store_length x @ qs"
  shows "\<exists>pb'. read_uint v pb = Some (int (length (packet_store_length x)), x, pb') \<and> pb_consumed qs pb pb'"
proof -
  from packet_store_length_first[of x] obtain b bs where b: "packet_store_length x = b # bs"
    and cases: "x < 251 \<and> b < 251 \<and> bs = [] \<and> ucast b = x
      \<or> b = 252 \<and> length bs = 2 \<and> le_word bs = x
      \<or> b = 253 \<and> length bs = 3 \<and> le_word bs = x
      \<or> b = 254 \<and> length bs = 8 \<and> le_word bs = x" by blast
  let ?ri = "pb_read_index pb" and ?k = "length bs"
  have rest': "pb_unread pb = [b] @ bs @ qs" using rest b by simp
  have load: "int1load (pb_buf pb) (unat ?ri) = Some b"
    using peek_unread[OF inv, of "[]" "[b]" "bs @ qs"] rest' by (intro int1load_peek) simp
  have ri1: "unat (?ri + 1) = unat ?ri + 1" using read_index_add[OF inv rest', of 1] by simp
  then have pk: "peek ?k (pb_buf pb) (unat (?ri + 1)) = Some bs"
    using peek_unread[OF inv, of "[b]" bs qs] rest' by simp
  have rest'': "pb_unread pb = (b # bs) @ qs" using rest' by simp
  have len: "length (pb_unread pb) = Suc ?k + length qs" using rest' by simp
  have idx: "pb_consumed qs pb (pb\<lparr>pb_read_index := j\<rparr>)" if "unat j = unat ?ri + Suc ?k" for j
    using pb_consume[OF inv rest''] that by simp
  have small: "unat (?ri + 1) + ?k < 2 ^ 32"
    using length_pb_unread[OF inv] len inv unat_bound[of "pb_write_index pb"] ri1
    by (auto simp: pb_inv_nat)
  have adv: "unat (?ri + 1 + j) = unat ?ri + Suc ?k" if "unat j = ?k" for j
    using small ri1 that by (subst unat_add_small) simp_all
  have ok1: "ensure_readable 1 pb = (True, pb)" by (rule ensure_readable_yes[OF inv]) (simp add: len)
  have okn: "ensure_readable n pb = (True, pb)" if "unat n = Suc ?k" for n
    by (rule ensure_readable_yes[OF inv]) (simp add: len that)
  from cases consider
      (1) "x < 251" "b < 251" "bs = []" "ucast b = x"
    | (2) "b = 252" "?k = 2" "le_word bs = x"
    | (3) "b = 253" "?k = 3" "le_word bs = x"
    | (4) "b = 254" "?k = 8" "le_word bs = x" by blast
  then show ?thesis
  proof cases
    case 1
    then show ?thesis using load ok1 idx[of "?ri + 1"] ri1 b by (simp add: read_uint_def)
  next
    case 2
    then have "read_le16toh (pb_buf pb) (?ri + 1) = Some (le_word bs, ?ri + 1 + 2)"
      using pk by (simp add: read_le16toh_def)
    moreover have "ucast (le_word bs :: u16) = x" using 2 by (simp add: ucast_le_word)
    ultimately show ?thesis using 2 load ok1 okn[of 3] idx[OF adv[of 2]] b by (simp add: read_uint_def)
  next
    case 3
    then have "read_le24toh (pb_buf pb) (?ri + 1) = Some (le_word bs, ?ri + 1 + 3)"
      using pk small by (intro read_le24toh_bytes) simp_all
    moreover have "ucast (le_word bs :: u32) = x" using 3 by (simp add: ucast_le_word)
    ultimately show ?thesis using 3 load ok1 okn[of 4] idx[OF adv[of 3]] b by (simp add: read_uint_def)
  next
    case 4
    then have "read_le64toh (pb_buf pb) (?ri + 1) = Some (x, ?ri + 1 + 8)"
      using pk by (simp add: read_le64toh_def)
    then show ?thesis using 4 load ok1 okn[of 9] idx[OF adv[of 8]] b by (simp add: read_uint_def)
  qed
qed

lemma ucast_u32_u64_unat [simp]: "unat (ucast (w :: u32) :: u64) = unat w"
  using unat_bound[of w] by (intro unat_ucast_small) simp

lemma read_fixed_length_string_rest:
  assumes inv: "pb_inv pb" and rest: "pb_unread pb = s @ qs" and len: "unat len = length s"
  shows "\<exists>pb'. read_fixed_length_string str len pb = Some (int (length s), s, pb') \<and> pb_consumed qs pb pb'"
proof -
  have "peek (length s) (pb_buf pb) (unat (pb_read_index pb)) = Some s"
    using peek_unread[OF inv, of "[]" s qs] rest by simp
  moreover have "ensure_readable (ucast len) pb = (True, pb)"
    using rest len by (intro ensure_readable_yes[OF inv]) simp
  ultimately show ?thesis
    using pb_consume[OF inv rest read_index_add[OF inv rest len]] len
    by (simp add: read_fixed_length_string_def)
qed

lemma read_fixed_length_string_short:
  assumes "pb_inv pb" "length (pb_unread pb) < unat len"
  shows "\<exists>msg. read_fixed_length_string str len pb = Some (-1, str, pb\<lparr>pb_error_msg := msg\<rparr>)"
  using ensure_readable_no[OF assms(1), of "ucast len"] assms(2)
  by (auto simp: read_fixed_length_string_def)

lemma read_length_encoded_string_rest:
  assumes inv: "pb_inv pb"
    and rest: "pb_unread pb = packet_store_length (of_nat (length s)) @ s @ qs"
    and len: "length s < 2 ^ 32"
  shows "\<exists>pb'. read_length_encoded_string str pb =
      Some (int (length (packet_store_length (of_nat (length s)))) + int (length s), s, pb')
    \<and> pb_consumed qs pb pb'"
proof -
  let ?x = "of_nat (length s) :: u64"
  from read_uint_rest[OF inv rest, of 0] obtain p1 where p1:
    "read_uint 0 pb = Some (int (length (packet_store_length ?x)), ?x, p1)"
    "pb_consumed (s @ qs) pb p1" by blast
  have "unat (ucast ?x :: u32) = length s" using len by (subst unat_ucast_small) simp_all
  from read_fixed_length_string_rest[OF _ _ this, of p1 qs str] p1(2) obtain p2 where
    "read_fixed_length_string str (ucast ?x) p1 = Some (int (length s), s, p2)" "pb_consumed qs p1 p2"
    by (auto simp: pb_consumed_def)
  then show ?thesis using p1 by (simp add: read_length_encoded_string_def pb_consumed_def)
qed

lemma c_string_append: "0 \<notin> set s \<Longrightarrow> c_string (s @ 0 # qs) = Some s"
  by (auto simp: c_string_def takeWhile_append takeWhile_eq_all_conv)

lemma unread_prefix: "pb_inv pb \<Longrightarrow>
  \<exists>stale. drop (unat (pb_read_index pb)) (pb_buf pb) = pb_unread pb @ stale"
  by (metis append_take_drop_id pb_unread_def)

lemma read_null_terminated_string_rest:
  assumes inv: "pb_inv pb" and rest: "pb_unread pb = s @ 0 # qs" and "0 \<notin> set s"
  shows "\<exists>pb'. read_null_terminated_string pb = Some (int (length s) + 1, s, pb') \<and> pb_consumed qs pb pb'"
proof -
  obtain stale where "drop (unat (pb_read_index pb)) (pb_buf pb) = s @ 0 # qs @ stale"
    using unread_prefix[OF inv] rest by auto
  then have c: "c_string (drop (unat (pb_read_index pb)) (pb_buf pb)) = Some s"
    using assms(3) by (simp add: c_string_append)
  have rest': "pb_unread pb = (s @ [0]) @ qs" using rest by simp
  have "length s + 1 \<le> unat (pb_write_index pb) - unat (pb_read_index pb)"
    using length_pb_unread[OF inv] rest by simp
  then have "length s + 1 < 2 ^ 32" using unat_bound[of "pb_write_index pb"] by simp
  then have k: "unat (of_nat (length s + 1) :: u32) = length (s @ [0])"
    by (simp add: unat_of_nat_small del: of_nat_Suc of_nat_add)
  then have "uint (of_nat (length s + 1) :: u32) = int (length s) + 1"
    by (simp only: uint_nat) simp
  then show ?thesis
    using pb_consume[OF inv rest' read_index_add[OF inv rest' k]] c
    by (simp add: read_null_terminated_string_def Let_def del: of_nat_Suc of_nat_add)
qed


section \<open>The buffer as a byte stream\<close>

definition pb_content :: "PacketBuf \<Rightarrow> byte list" where
  "pb_content pb = take (unat (pb_write_index pb)) (pb_buf pb)"

definition pb_take :: "nat \<Rightarrow> PacketBuf \<Rightarrow> (byte list \<times> PacketBuf) option" where
  "pb_take n pb = (if 2 ^ 32 \<le> n then None
     else case read_bytes (of_nat n) pb of
       Some (ret, bs, pb') \<Rightarrow> if ret < 0 then None else Some (bs, pb')
     | None \<Rightarrow> None)"

lemma pb_unread_content: "pb_unread pb = drop (unat (pb_read_index pb)) (pb_content pb)"
  by (simp add: pb_unread_def pb_content_def drop_take)

lemma length_pb_content: "pb_inv pb \<Longrightarrow> length (pb_content pb) = unat (pb_write_index pb)"
  by (auto simp: pb_content_def pb_inv_nat)

lemma read_bytes_rest:
  assumes inv: "pb_inv pb" and rest: "pb_unread pb = s @ qs" and len: "unat len = length s"
  shows "read_bytes len pb = Some (int (length s), s, pb\<lparr>pb_read_index := pb_read_index pb + len\<rparr>)
     \<and> pb_consumed qs pb (pb\<lparr>pb_read_index := pb_read_index pb + len\<rparr>)"
proof -
  have "peek (length s) (pb_buf pb) (unat (pb_read_index pb)) = Some s"
    using peek_unread[OF inv, of "[]" s qs] rest by simp
  moreover have "ensure_readable (ucast len) pb = (True, pb)"
    using rest len by (intro ensure_readable_yes[OF inv]) simp
  ultimately show ?thesis
    using pb_consume[OF inv rest read_index_add[OF inv rest len]] len
    by (simp add: read_bytes_def)
qed

interpretation pbs: byte_stream pb_inv pb_content "\<lambda>pb. unat (pb_read_index pb)" pb_take
proof
  fix pb n assume inv: "pb_inv pb"
  then show "unat (pb_read_index pb) \<le> length (pb_content pb)"
    by (simp add: length_pb_content pb_inv_nat)
  have len: "length (pb_unread pb) = unat (pb_write_index pb) - unat (pb_read_index pb)"
    using inv by (rule length_pb_unread)
  show "\<exists>pb'. pb_take n pb = Some (take n (drop (unat (pb_read_index pb)) (pb_content pb)), pb')
      \<and> pb_inv pb' \<and> pb_content pb' = pb_content pb
      \<and> unat (pb_read_index pb') = unat (pb_read_index pb) + n"
    if le: "unat (pb_read_index pb) + n \<le> length (pb_content pb)"
  proof -
    have n: "n \<le> length (pb_unread pb)" using le len inv by (simp add: length_pb_content)
    then have small: "n < 2 ^ 32" using len unat_bound[of "pb_write_index pb"] by simp
    let ?s = "take n (pb_unread pb)"
    have rest: "pb_unread pb = ?s @ drop n (pb_unread pb)" by simp
    have k: "unat (of_nat n :: u32) = length ?s" using small n by simp
    have "unat (pb_read_index pb + of_nat n) = unat (pb_read_index pb) + n"
      using read_index_add[OF inv rest k] n by simp
    then show ?thesis using read_bytes_rest[OF inv rest k] small
      by (simp add: pb_take_def pb_consumed_def pb_content_def pb_unread_content)
  qed
  show "pb_take n pb = None" if gt: "length (pb_content pb) < unat (pb_read_index pb) + n"
  proof (cases "n < 2 ^ 32")
    case True
    then have "length (pb_unread pb) < unat (ucast (of_nat n :: u32) :: u64)"
      using gt len inv by (auto simp: length_pb_content pb_inv_nat)
    from ensure_readable_no[OF inv this] show ?thesis
      by (auto simp: pb_take_def read_bytes_def)
  qed (simp add: pb_take_def)
qed


section \<open>Properties\<close>

text \<open>
  C29.  \<^verbatim>\<open>write_string\<close> keeps the documented constraints of the buffer and is memory safe, provided
  the maximum capacity leaves room for the rounding to blocks and the new write index does not exceed
  32 bits: it appends the optional length prefix and the string to the unread bytes and returns how many
  bytes that is, growing the buffer when needed, or it returns -1 and the unread bytes are as before.
\<close>

theorem write_string_appends:
  assumes "heap_ok fresh" "pb_inv pb" "pb_limit pb" "unat len = length str"
    and "bs = (if prefix then packet_store_length (ucast len) else []) @ str"
    and "unat (pb_write_index pb) + length bs < 2 ^ 32"
  shows "\<exists>pb'. pb_write_string fresh str len prefix pb =
      Some (if pb_room (length bs) pb then int (length bs) else -1, pb')
    \<and> pb_inv pb' \<and> pb_unread pb' = pb_unread pb @ (if pb_room (length bs) pb then bs else [])"
  using write_string_writes[OF assms(1,4,5)] assms(2,3,6)
  by (auto simp: pb_writes_def pb_advanced_def split: if_splits)

theorem write_string_appends_witness:
  "let fresh = (\<lambda>n. replicate n 0xAA); pb = PacketBuf_init fresh 4 64 in
   heap_ok fresh \<and> pb_inv pb \<and> pb_limit pb \<and>
   (\<exists>pb'. pb_write_string fresh [104, 101, 108, 108, 111] 5 True pb = Some (6, pb')
      \<and> pb_inv pb' \<and> pb_unread pb' = [5, 104, 101, 108, 108, 111])"
proof -
  let ?fresh = "\<lambda>n. replicate n (0xAA :: byte)"
  let ?pb = "PacketBuf_init ?fresh 4 64"
  have h: "heap_ok ?fresh" "pb_inv ?pb" "pb_limit ?pb"
    by (simp_all add: heap_ok_def PacketBuf_init_def pb_inv_def pb_limit_def)
  have "\<exists>pb'. pb_write_string ?fresh [104, 101, 108, 108, 111] 5 True ?pb =
      Some (if pb_room (length [5 :: byte, 104, 101, 108, 108, 111]) ?pb
            then int (length [5 :: byte, 104, 101, 108, 108, 111]) else -1, pb')
    \<and> pb_inv pb' \<and> pb_unread pb' = pb_unread ?pb
        @ (if pb_room (length [5 :: byte, 104, 101, 108, 108, 111]) ?pb
           then [5, 104, 101, 108, 108, 111] else [])"
    using h by (intro write_string_appends) (simp_all add: packet_store_length_def PacketBuf_init_def)
  then show ?thesis using h
    by (simp add: Let_def PacketBuf_init_def pb_room_def pb_unread_def)
qed

text \<open>
  C30.  \<^verbatim>\<open>read_null_terminated_string\<close> has no bound: it runs to the next zero byte of the allocation.
  It keeps the documented constraint \<^verbatim>\<open>read_index_ <= write_index_\<close> exactly when the terminator
  is among the received bytes.  Otherwise the read index passes the write index, their difference
  wraps, and the buffer then reports at least 4096 readable bytes that were never received.
\<close>

theorem null_terminated_read_inv_iff:
  assumes "pb_inv pb" "pb_limit pb" "read_null_terminated_string pb = Some (r, str, pb')"
  shows "(pb_inv pb' \<longleftrightarrow> 0 \<in> set (pb_unread pb))
    \<and> (0 \<notin> set (pb_unread pb) \<longrightarrow> (\<forall>n. unat n \<le> 4096 \<longrightarrow> is_readable n pb'))"
proof (cases "0 \<in> set (pb_unread pb)")
  case True
  then obtain s qs where "pb_unread pb = s @ 0 # qs" "0 \<notin> set s" by (metis split_list_first)
  from read_null_terminated_string_rest[OF assms(1) this] assms(3) True show ?thesis
    by (auto simp: pb_consumed_def)
next
  case False
  let ?r = "unat (pb_read_index pb)" and ?w = "unat (pb_write_index pb)"
  let ?d = "drop ?r (pb_buf pb)"
  from assms(3) have c: "c_string ?d = Some str"
    and pb': "pb' = pb\<lparr>pb_read_index := pb_read_index pb + of_nat (length str + 1)\<rparr>"
    by (auto simp: read_null_terminated_string_def Let_def split: Option.bind_split_asm)
  then have "0 \<in> set ?d" and str: "str = takeWhile (\<lambda>b. b \<noteq> 0) ?d"
    by (auto simp: c_string_def split: if_splits)
  then obtain s qs where "?d = s @ 0 # qs" "0 \<notin> set s" by (metis split_list_first)
  then have up: "length str < length ?d" using c by (simp add: c_string_append)
  obtain stale where "?d = pb_unread pb @ stale" using unread_prefix[OF assms(1)] by blast
  then have lo: "length (pb_unread pb) \<le> length str" using str False
    by (simp add: takeWhile_append)
  have buf: "length ?d = unat (pb_capacity pb) - ?r" using assms(1) by (simp add: pb_inv_nat)
  have bnd: "?r + length str + 1 \<le> unat (pb_capacity pb)" using up buf by simp
  have cap: "unat (pb_capacity pb) \<le> 2 ^ 32 - 4096"
    using assms(1,2) by (simp add: pb_inv_nat pb_limit_def)
  have k: "unat (of_nat (length str + 1) :: u32) = length str + 1"
    using bnd cap by (intro unat_of_nat_small) simp
  have ri: "unat (pb_read_index pb') = ?r + length str + 1"
    using k bnd cap by (simp add: pb' unat_add_small del: of_nat_Suc of_nat_add)
  have gt: "?w < unat (pb_read_index pb')"
    using ri lo length_pb_unread[OF assms(1)] by simp
  then have "\<not> pb_inv pb'" by (simp add: pb_inv_nat pb')
  moreover have "is_readable n pb'" if "unat n \<le> 4096" for n
  proof -
    have "unat (pb_write_index pb' - pb_read_index pb') = 2 ^ 32 + ?w - unat (pb_read_index pb')"
      using gt unat_sub_if'[of "pb_write_index pb'" "pb_read_index pb'"] by (simp add: pb')
    then show ?thesis using that ri bnd cap
      by (simp add: is_readable_def word_le_nat_alt)
  qed
  ultimately show ?thesis using False by blast
qed

definition unterminated_packet :: PacketBuf where
  "unterminated_packet =
     \<lparr>pb_buf = [114, 111, 111, 116, 88, 0, 7, 7], pb_capacity = 8, pb_min_capacity = 8,
      pb_max_capacity = 64, pb_read_index = 0, pb_write_index = 4, pb_error_msg = ''''\<rparr>"

theorem null_terminated_read_inv_iff_witness:
  "pb_inv unterminated_packet \<and> pb_limit unterminated_packet \<and>
   (\<exists>pb'. read_null_terminated_string unterminated_packet = Some (6, [114, 111, 111, 116, 88], pb')
      \<and> \<not> pb_inv pb' \<and> is_readable 1000 pb')"
proof -
  have i: "pb_inv unterminated_packet" "pb_limit unterminated_packet"
    by (simp_all add: pb_inv_def pb_limit_def unterminated_packet_def)
  have r: "read_null_terminated_string unterminated_packet
      = Some (6, [114, 111, 111, 116, 88], unterminated_packet\<lparr>pb_read_index := 6\<rparr>)"
    by (simp add: read_null_terminated_string_def c_string_def unterminated_packet_def)
  have "0 \<notin> set (pb_unread unterminated_packet)"
    by (simp add: pb_unread_def unterminated_packet_def)
  with null_terminated_read_inv_iff [OF i r] i r show ?thesis by simp
qed

end
