(* ===== verification/ServerPacket.thy ===== *)
theory ServerPacket
  imports MysqlPacket PacketBuf
begin

unbundle bit_operations_syntax

text \<open>
  The server side of the MySQL protocol, \<^verbatim>\<open>src/binlog/mysql-protocol/\<close>: the packets the binlog
  service sends through \<^verbatim>\<open>PacketBuf\<close>.  The service is also a client of its own instances, which is
  where the decoders of \<^verbatim>\<open>src/obaccess\<close> meet these packets; the properties say what a decoder gets
  back from each of them.
\<close>

section \<open>Capabilities and status flags\<close>

type_synonym Capability = u32
type_synonym ServerStatus = u16

definition client_connect_with_db :: Capability where "client_connect_with_db = push_bit 3 1"
definition client_protocol_41 :: Capability where "client_protocol_41 = push_bit 9 1"
definition client_transactions :: Capability where "client_transactions = push_bit 13 1"
definition client_plugin_auth :: Capability where "client_plugin_auth = push_bit 19 1"
definition client_connect_attrs :: Capability where "client_connect_attrs = push_bit 20 1"
definition client_plugin_auth_lenenc_client_data :: Capability where
  "client_plugin_auth_lenenc_client_data = push_bit 21 1"
definition client_session_track :: Capability where "client_session_track = push_bit 23 1"

definition has_capability :: "Capability \<Rightarrow> Capability \<Rightarrow> bool" where
  "has_capability capabilities expected \<longleftrightarrow> capabilities AND expected \<noteq> 0"

definition ob_binlog_server_capabilities :: Capability where
  "ob_binlog_server_capabilities =
     push_bit 0 1 OR push_bit 4 1 OR push_bit 8 1 OR client_protocol_41 OR push_bit 10 1
     OR push_bit 14 1 OR push_bit 15 1 OR client_plugin_auth"

definition session_state_changed :: ServerStatus where "session_state_changed = push_bit 14 1"

definition has_status_flag :: "ServerStatus \<Rightarrow> ServerStatus \<Rightarrow> bool" where
  "has_status_flag status_flags expected \<longleftrightarrow> status_flags AND expected \<noteq> 0"

definition ob_binlog_server_status_flags :: ServerStatus where
  "ob_binlog_server_status_flags = push_bit 1 1"


section \<open>Packets\<close>

record OkPacket =
  okp_affected_rows :: u64
  okp_last_insert_id :: u64
  okp_status_flags :: ServerStatus
  okp_warnings :: u16
  okp_info :: "byte list"

text \<open>The result is \<^verbatim>\<open>None\<close> on the branch that asserts false.\<close>

definition OkPacket_serialize ::
  "heap \<Rightarrow> OkPacket \<Rightarrow> Capability \<Rightarrow> PacketBuf \<Rightarrow> (u32 \<times> PacketBuf) option" where
  "OkPacket_serialize fresh ok caps pb =
     (let changed = has_status_flag (okp_status_flags ok) session_state_changed;
          info = pb_write_string fresh (okp_info ok) (of_nat (length (okp_info ok))) True in
      if has_capability caps client_session_track \<and> changed then None
      else sum_writes
        ([write_uint1 fresh 0, write_uint fresh (okp_affected_rows ok), write_uint fresh (okp_last_insert_id ok)]
         @ (if has_capability caps client_protocol_41
            then [write_uint2 fresh (okp_status_flags ok), write_uint2 fresh (okp_warnings ok)]
            else if has_capability caps client_transactions then [write_uint2 fresh (okp_status_flags ok)]
            else [])
         @ (if has_capability caps client_session_track
            then (if changed \<or> 0 < length (okp_info ok) then [info] else [])
            else (if 0 < length (okp_info ok) then [info] else []))) 0 pb)"

record ErrPacket =
  errp_err_code :: u16
  errp_err_msg :: "byte list"
  errp_sql_state :: "byte list"

text \<open>
  The assertions of the constructor and of \<^verbatim>\<open>serialize\<close> are the first condition: the message is at
  most 512 bytes, the state is 5 bytes, and the buffer has room without growing.
\<close>

definition ErrPacket_size :: "ErrPacket \<Rightarrow> Capability \<Rightarrow> nat" where
  "ErrPacket_size err caps =
     1 + 2 + (if has_capability caps client_protocol_41 then 1 + 5 else 0) + length (errp_err_msg err)"

definition ErrPacket_serialize ::
  "heap \<Rightarrow> ErrPacket \<Rightarrow> Capability \<Rightarrow> PacketBuf \<Rightarrow> (u32 \<times> PacketBuf) option" where
  "ErrPacket_serialize fresh err caps pb =
     (if \<not> (length (errp_err_msg err) \<le> 512 \<and> length (errp_sql_state err) = 5
            \<and> is_fast_writable (of_nat (ErrPacket_size err caps)) pb)
      then None
      else sum_writes
        ([write_uint1 fresh 0xFF, write_uint2 fresh (errp_err_code err)]
         @ (if has_capability caps client_protocol_41
            then [write_uint1 fresh 35, pb_write_string fresh (errp_sql_state err) 5 False] else [])
         @ [pb_write_string fresh (errp_err_msg err) (of_nat (length (errp_err_msg err))) False]) 0 pb)"

record EofPacket =
  eofp_warnings :: u16
  eofp_status_flags :: ServerStatus

definition EofPacket_serialize ::
  "heap \<Rightarrow> EofPacket \<Rightarrow> Capability \<Rightarrow> PacketBuf \<Rightarrow> (u32 \<times> PacketBuf) option" where
  "EofPacket_serialize fresh eof caps pb =
     (let p41 = has_capability caps client_protocol_41 in
      if \<not> is_fast_writable (if p41 then 5 else 1) pb then None
      else sum_writes
        ([write_uint1 fresh 0xFE]
         @ (if p41 then [write_uint2 fresh (eofp_warnings eof), write_uint2 fresh (eofp_status_flags eof)]
            else [])) 0 pb)"

definition ColumnCountPacket_serialize ::
  "heap \<Rightarrow> u16 \<Rightarrow> PacketBuf \<Rightarrow> (int \<times> PacketBuf) option" where
  "ColumnCountPacket_serialize fresh nof_columns pb = write_uint fresh (ucast nof_columns) pb"

record ColumnPacket =
  colp_schema :: "byte list"
  colp_table :: "byte list"
  colp_origin_table :: "byte list"
  colp_name :: "byte list"
  colp_origin_name :: "byte list"
  colp_character_set :: u16
  colp_length :: u32
  colp_type :: u8
  colp_flags :: u16
  colp_decimals :: u8

definition ColumnPacket_serialize ::
  "heap \<Rightarrow> ColumnPacket \<Rightarrow> PacketBuf \<Rightarrow> (u32 \<times> PacketBuf) option" where
  "ColumnPacket_serialize fresh col pb = sum_writes
     [pb_write_std_string fresh (ascii ''def'') True,
      pb_write_std_string fresh (colp_schema col) True,
      pb_write_std_string fresh (colp_table col) True,
      pb_write_std_string fresh (colp_origin_table col) True,
      pb_write_std_string fresh (colp_name col) True,
      pb_write_std_string fresh (colp_origin_name col) True,
      write_uint fresh 0x0C,
      write_uint2 fresh (colp_character_set col),
      write_uint4 fresh (colp_length col),
      write_uint1 fresh (colp_type col),
      write_uint2 fresh (colp_flags col),
      write_uint1 fresh (colp_decimals col),
      write_uint2 fresh 0] 0 pb"

text \<open>\<^verbatim>\<open>generate_scramble\<close>: the argument is the sequence of values of \<^verbatim>\<open>rand_r\<close>, twenty of them.\<close>

definition scramble_char :: "u32 \<Rightarrow> byte" where
  "scramble_char r = (let c = ucast (r AND 0x7F) in if c = 0 \<or> c = 36 then c + 1 else c)"

definition generate_scramble :: "u32 list \<Rightarrow> byte list" where
  "generate_scramble rs = map scramble_char rs"

definition HandshakePacket_serialize ::
  "heap \<Rightarrow> u32 \<Rightarrow> u8 \<Rightarrow> byte list \<Rightarrow> Capability \<Rightarrow> PacketBuf \<Rightarrow> (u32 \<times> PacketBuf) option" where
  "HandshakePacket_serialize fresh thread_id character_set_nr scramble caps pb = sum_writes
     [write_uint1 fresh 10,
      pb_write_c_string fresh (ascii ''5.7.35-obs''),
      write_uint4 fresh thread_id,
      pb_write_string fresh (take 8 scramble) 8 False,
      write_uint1 fresh 0,
      write_uint2 fresh (ucast caps),
      write_uint1 fresh character_set_nr,
      write_uint2 fresh ob_binlog_server_status_flags,
      write_uint2 fresh (ucast (drop_bit 16 caps)),
      write_uint1 fresh 21,
      pb_write_string fresh (replicate 10 0) 10 False,
      pb_write_c_string fresh (takeWhile (\<lambda>b. b \<noteq> 0) (drop 8 scramble)),
      pb_write_c_string fresh (ascii ''mysql_native_password'')] 0 pb"


section \<open>What the packets are on the wire\<close>

lemma scramble_char_ok: "scramble_char r \<noteq> 0 \<and> scramble_char r \<noteq> 36"
proof -
  have "scramble_char r \<noteq> 0" if "(ucast (r AND 0x7F) :: byte) \<noteq> 0" using that
    by (auto simp: scramble_char_def Let_def)
  then show ?thesis by (auto simp: scramble_char_def Let_def split: if_splits)
qed

lemma scramble_no_zero: "0 \<notin> set (generate_scramble rs)"
  using scramble_char_ok by (auto simp: generate_scramble_def)

lemmas server_writes =
  write_uints_write write_uint_writes std_string_writes c_string_writes

definition eof_bytes :: "EofPacket \<Rightarrow> Capability \<Rightarrow> byte list" where
  "eof_bytes eof caps = 0xFE # (if has_capability caps client_protocol_41
     then int2store (eofp_warnings eof) @ int2store (eofp_status_flags eof) else [])"

lemma is_fast_writable_room:
  "pb_inv pb \<Longrightarrow> is_fast_writable n pb \<Longrightarrow> pb_room (unat n) pb"
  by (auto simp: is_fast_writable_def pb_room_def pb_inv_nat word_le_nat_alt unat_sub_small)

lemma EofPacket_serialize_bytes:
  assumes "heap_ok fresh" "pb_inv pb" "pb_limit pb" "is_fast_writable 5 pb"
  shows "\<exists>pb'. EofPacket_serialize fresh eof caps pb = Some (of_nat (length (eof_bytes eof caps)), pb')
     \<and> pb_advanced (eof_bytes eof caps) pb pb'"
proof -
  have f: "is_fast_writable 1 pb"
    using assms(4) by (simp add: is_fast_writable_def word_le_nat_alt)
  have room: "pb_room 5 pb" using is_fast_writable_room[OF assms(2,4)] by simp
  note w = write_uints_write[OF assms(1)]
  show ?thesis
  proof (cases "has_capability caps client_protocol_41")
    case True
    then show ?thesis
      using sum_writes_ok[of "[write_uint1 fresh 0xFE, write_uint2 fresh (eofp_warnings eof),
            write_uint2 fresh (eofp_status_flags eof)]"
          "[[0xFE], int2store (eofp_warnings eof), int2store (eofp_status_flags eof)]" pb 0] w assms room
      by (simp add: EofPacket_serialize_def eof_bytes_def)
  next
    case False
    then show ?thesis
      using sum_writes_ok[of "[write_uint1 fresh 0xFE]" "[[0xFE]]" pb 0] w assms(2,3) f room
      by (simp add: EofPacket_serialize_def eof_bytes_def pb_room_def)
  qed
qed

lemma reader_uint8_rest:
  assumes "rd_inv rd" "mr.rest rd = [a] @ qs"
  shows "\<exists>rd'. MsgBufReader_read_uint8 rd i = (0, a, rd') \<and> rd_inv rd' \<and> mr.rest rd' = qs"
  using read_into_rest[OF assms, of 1 i] by (simp add: MsgBufReader_read_uint8_def overlay_full)

lemma reader_uint16_rest:
  assumes "rd_inv rd" "mr.rest rd = int2store a @ qs"
  shows "\<exists>rd'. MsgBufReader_read_uint16 rd i = (0, a, rd') \<and> rd_inv rd' \<and> mr.rest rd' = qs"
proof -
  have "overlay (int2store a) i = a" by (subst overlay_full) (simp_all add: int2store_def)
  then show ?thesis using read_into_rest[OF assms, of 2 i] by (simp add: MsgBufReader_read_uint16_def)
qed

lemma reader_uint32_rest:
  assumes "rd_inv rd" "mr.rest rd = int4store a @ qs"
  shows "\<exists>rd'. MsgBufReader_read_uint32 rd i = (0, a, rd') \<and> rd_inv rd' \<and> mr.rest rd' = qs"
proof -
  have "overlay (int4store a) i = a" by (subst overlay_full) (simp_all add: int4store_def)
  then show ?thesis using read_into_rest[OF assms, of 4 i] by (simp add: MsgBufReader_read_uint32_def)
qed

definition lenenc_str :: "byte list \<Rightarrow> byte list" where
  "lenenc_str s = packet_store_length (of_nat (length s)) @ s"

definition column_fields :: "ColumnPacket \<Rightarrow> byte list list" where
  "column_fields col =
     [lenenc_str (ascii ''def''), lenenc_str (colp_schema col), lenenc_str (colp_table col),
      lenenc_str (colp_origin_table col), lenenc_str (colp_name col), lenenc_str (colp_origin_name col),
      [0x0C], int2store (colp_character_set col), int4store (colp_length col), [colp_type col],
      int2store (colp_flags col), [colp_decimals col], int2store 0]"

definition column_strings_ok :: "ColumnPacket \<Rightarrow> bool" where
  "column_strings_ok col \<longleftrightarrow> list_all (\<lambda>s. length s < 2 ^ 32)
     [colp_schema col, colp_table col, colp_origin_table col, colp_name col, colp_origin_name col]"

lemma ColumnPacket_serialize_bytes:
  assumes "heap_ok fresh" "column_strings_ok col" "pb_inv pb" "pb_limit pb"
    "pb_room (length (concat (column_fields col))) pb"
  shows "\<exists>pb'. ColumnPacket_serialize fresh col pb
       = Some (of_nat (length (concat (column_fields col))), pb')
     \<and> pb_advanced (concat (column_fields col)) pb pb'"
proof -
  have "packet_store_length 0x0C = [0x0C]" by (simp add: packet_store_length_def)
  then have u: "pb_writes (write_uint fresh 0x0C) [0x0C]"
    using write_uint_writes[OF assms(1), of "0x0C"] by simp
  note w = write_uints_write[OF assms(1)] std_string_writes(1)[OF assms(1), folded lenenc_str_def]
  have d: "pb_writes (pb_write_std_string fresh (ascii ''def'') True) (lenenc_str (ascii ''def''))"
    by (rule w(7)) (simp add: ascii_def)
  have "list_all2 pb_writes
    [pb_write_std_string fresh (ascii ''def'') True, pb_write_std_string fresh (colp_schema col) True,
     pb_write_std_string fresh (colp_table col) True, pb_write_std_string fresh (colp_origin_table col) True,
     pb_write_std_string fresh (colp_name col) True, pb_write_std_string fresh (colp_origin_name col) True,
     write_uint fresh 0x0C, write_uint2 fresh (colp_character_set col), write_uint4 fresh (colp_length col),
     write_uint1 fresh (colp_type col), write_uint2 fresh (colp_flags col),
     write_uint1 fresh (colp_decimals col), write_uint2 fresh 0] (column_fields col)"
    using w u d assms(2) by (simp add: column_fields_def column_strings_ok_def)
  from sum_writes_ok[OF this assms(3-5), of 0] show ?thesis
    by (simp add: ColumnPacket_serialize_def)
qed

lemma reader_str_rest:
  assumes "rd_inv rd" "mr.rest rd = lenenc_str s @ qs" "length s < 2 ^ 32"
  shows "\<exists>rd'. MysqlBufReader_read_lenenc_str rd = (s, rd') \<and> rd_inv rd' \<and> mr.rest rd' = qs"
  using read_lenenc_str_rest[OF assms(1)] assms(2,3) by (simp add: lenenc_str_def)

definition decoded_column :: "ColumnPacket \<Rightarrow> MySQLCol" where
  "decoded_column col =
     \<lparr>col_catalog = ascii ''def'', col_schema = colp_schema col, col_table = colp_table col,
      col_org_table = colp_origin_table col, col_name = colp_name col,
      col_org_name = colp_origin_name col, col_len_of_fixed_len = 0x0C,
      col_charset = colp_character_set col, col_column_len = colp_length col,
      col_type = colp_type col, col_flags = colp_flags col, col_decimals = colp_decimals col,
      col_filler = 0\<rparr>"

lemma MySQLCol_decode_bytes:
  assumes "concat cs = concat (column_fields col) @ qs" "column_strings_ok col"
  shows "MySQLCol_decode c0 cs = (0, decoded_column col)"
proof -
  have r0: "mr.rest (MsgBufReader_init cs) = concat (column_fields col) @ qs"
    using assms(1) by (simp add: rd_rest_init)
  note s = assms(2)[unfolded column_strings_ok_def, simplified]
  let ?def = "ascii ''def''"
  obtain r1 where r1: "MysqlBufReader_read_lenenc_str (MsgBufReader_init cs) = (?def, r1)" "rd_inv r1"
    "mr.rest r1 = concat (tl (column_fields col)) @ qs"
    using reader_str_rest[OF MsgBufReader_init_inv, of cs ?def] r0
    by (auto simp: column_fields_def ascii_def)
  obtain r2 where r2: "MysqlBufReader_read_lenenc_str r1 = (colp_schema col, r2)" "rd_inv r2"
    "mr.rest r2 = concat (drop 2 (column_fields col)) @ qs"
    using reader_str_rest[OF r1(2), of "colp_schema col"] r1(3) s by (auto simp: column_fields_def)
  obtain r3 where r3: "MysqlBufReader_read_lenenc_str r2 = (colp_table col, r3)" "rd_inv r3"
    "mr.rest r3 = concat (drop 3 (column_fields col)) @ qs"
    using reader_str_rest[OF r2(2), of "colp_table col"] r2(3) s by (auto simp: column_fields_def)
  obtain r4 where r4: "MysqlBufReader_read_lenenc_str r3 = (colp_origin_table col, r4)" "rd_inv r4"
    "mr.rest r4 = concat (drop 4 (column_fields col)) @ qs"
    using reader_str_rest[OF r3(2), of "colp_origin_table col"] r3(3) s by (auto simp: column_fields_def)
  obtain r5 where r5: "MysqlBufReader_read_lenenc_str r4 = (colp_name col, r5)" "rd_inv r5"
    "mr.rest r5 = concat (drop 5 (column_fields col)) @ qs"
    using reader_str_rest[OF r4(2), of "colp_name col"] r4(3) s by (auto simp: column_fields_def)
  obtain r6 where r6: "MysqlBufReader_read_lenenc_str r5 = (colp_origin_name col, r6)" "rd_inv r6"
    "mr.rest r6 = [0x0C] @ int2store (colp_character_set col) @ int4store (colp_length col) @
       [colp_type col] @ int2store (colp_flags col) @ [colp_decimals col] @ int2store 0 @ qs"
    using reader_str_rest[OF r5(2), of "colp_origin_name col"] r5(3) s by (auto simp: column_fields_def)
  from reader_uint8_rest[OF r6(2,3)] obtain r7 where r7: "rd_inv r7"
    "MsgBufReader_read_uint8 r6 (col_len_of_fixed_len c0) = (0, 0x0C, r7)"
    "mr.rest r7 = int2store (colp_character_set col) @ int4store (colp_length col) @
       [colp_type col] @ int2store (colp_flags col) @ [colp_decimals col] @ int2store 0 @ qs" by blast
  from reader_uint16_rest[OF r7(1,3)] obtain r8 where r8: "rd_inv r8"
    "MsgBufReader_read_uint16 r7 (col_charset c0) = (0, colp_character_set col, r8)"
    "mr.rest r8 = int4store (colp_length col) @
       [colp_type col] @ int2store (colp_flags col) @ [colp_decimals col] @ int2store 0 @ qs" by blast
  from reader_uint32_rest[OF r8(1,3)] obtain r9 where r9: "rd_inv r9"
    "MsgBufReader_read_uint32 r8 (col_column_len c0) = (0, colp_length col, r9)"
    "mr.rest r9 = [colp_type col] @ int2store (colp_flags col) @ [colp_decimals col] @ int2store 0 @ qs"
    by blast
  from reader_uint8_rest[OF r9(1,3)] obtain r10 where r10: "rd_inv r10"
    "MsgBufReader_read_uint8 r9 (col_type c0) = (0, colp_type col, r10)"
    "mr.rest r10 = int2store (colp_flags col) @ [colp_decimals col] @ int2store 0 @ qs" by blast
  from reader_uint16_rest[OF r10(1,3)] obtain r11 where r11: "rd_inv r11"
    "MsgBufReader_read_uint16 r10 (col_flags c0) = (0, colp_flags col, r11)"
    "mr.rest r11 = [colp_decimals col] @ int2store 0 @ qs" by blast
  from reader_uint8_rest[OF r11(1,3)] obtain r12 where r12: "rd_inv r12"
    "MsgBufReader_read_uint8 r11 (col_decimals c0) = (0, colp_decimals col, r12)"
    "mr.rest r12 = int2store 0 @ qs" by blast
  from reader_uint16_rest[OF r12(1,3)] obtain r13 where
    "MsgBufReader_read_uint16 r12 (col_filler c0) = (0, 0, r13)" by blast
  then show ?thesis
    using r1(1) r2(1) r3(1) r4(1) r5(1) r6(1) r7(2) r8(2) r9(2) r10(2) r11(2) r12(2)
    by (simp add: MySQLCol_decode_def decoded_column_def)
qed


section \<open>Properties\<close>

text \<open>
  C20.  A column definition survives the trip from the server to a client of this code base.  What
  \<^verbatim>\<open>ColumnPacket::serialize\<close> leaves in an empty packet buffer with enough room is a message from
  which \<^verbatim>\<open>MySQLCol::decode\<close> recovers every field, whatever the fields held before.
\<close>

theorem column_definition_roundtrip:
  assumes "heap_ok fresh" "pb_inv pb" "pb_limit pb" "pb_unread pb = []" "column_strings_ok col"
    and "pb_room (length (concat (column_fields col))) pb"
  shows "\<exists>sz pb'. ColumnPacket_serialize fresh col pb = Some (sz, pb') \<and> pb_inv pb'
     \<and> MySQLCol_decode c0 [pb_unread pb'] = (0, decoded_column col)"
proof -
  from ColumnPacket_serialize_bytes[OF assms(1,5,2,3,6)] obtain pb' where
    "ColumnPacket_serialize fresh col pb = Some (of_nat (length (concat (column_fields col))), pb')"
    "pb_advanced (concat (column_fields col)) pb pb'" by blast
  moreover have "MySQLCol_decode c0 [concat (column_fields col)] = (0, decoded_column col)"
    by (rule MySQLCol_decode_bytes[where qs = "[]"]) (simp_all add: assms(5))
  ultimately show ?thesis using assms(4) by (auto simp: pb_advanced_def)
qed


definition id_column :: ColumnPacket where
  "id_column = \<lparr>colp_schema = [], colp_table = [116], colp_origin_table = [116], colp_name = [105, 100],
     colp_origin_name = [105, 100], colp_character_set = 33, colp_length = 255, colp_type = 8,
     colp_flags = 0, colp_decimals = 0\<rparr>"

theorem column_definition_roundtrip_witness:
  "let fresh = (\<lambda>n. replicate n 0); pb = PacketBuf_init fresh 16 1024 in
   \<exists>sz pb'. ColumnPacket_serialize fresh id_column pb = Some (sz, pb')
     \<and> MySQLCol_decode (decoded_column (id_column\<lparr>colp_name := []\<rparr>)) [pb_unread pb']
       = (0, decoded_column id_column)"
proof -
  let ?fresh = "\<lambda>n. replicate n (0 :: byte)"
  let ?pb = "PacketBuf_init ?fresh 16 1024"
  have "heap_ok ?fresh" "pb_inv ?pb" "pb_limit ?pb" "pb_unread ?pb = []" "column_strings_ok id_column"
    "pb_room (length (concat (column_fields id_column))) ?pb"
    by (simp_all add: heap_ok_def PacketBuf_init_def pb_inv_def pb_limit_def pb_unread_def pb_room_def
        column_strings_ok_def id_column_def column_fields_def lenenc_str_def packet_store_length_def
        ascii_def)
  from column_definition_roundtrip [OF this] show ?thesis unfolding Let_def by blast
qed

text \<open>
  An EOF packet of the server decodes on the client to the warning count and status flags it was
  built from, when the client speaks protocol 4.1.
\<close>

theorem eof_packet_roundtrip:
  assumes "heap_ok fresh" "pb_inv pb" "pb_limit pb" "pb_unread pb = []" "is_fast_writable 5 pb"
    and "has_capability caps client_protocol_41"
  shows "\<exists>pb'. EofPacket_serialize fresh eof caps pb = Some (5, pb')
     \<and> MySQLEofPacket_decode e0 [pb_unread pb']
       = (0, \<lparr>eof_warnings_count = eofp_warnings eof, eof_status_flags = eofp_status_flags eof\<rparr>)"
proof -
  let ?bs = "[0xFE] @ int2store (eofp_warnings eof) @ int2store (eofp_status_flags eof) @ []"
  have bs: "eof_bytes eof caps = ?bs" using assms(6) by (simp add: eof_bytes_def)
  from EofPacket_serialize_bytes[OF assms(1-3,5), of eof caps] obtain pb' where pb':
    "EofPacket_serialize fresh eof caps pb = Some (5, pb')" "pb_unread pb' = ?bs"
    using assms(4) bs by (auto simp: pb_advanced_def)
  have "mr.rest (MsgBufReader_init [?bs]) = ?bs" by (simp add: rd_rest_init)
  from reader_uint8_rest[OF MsgBufReader_init_inv this] obtain r1 where r1: "rd_inv r1"
    "MsgBufReader_read_uint8 (MsgBufReader_init [?bs]) 0 = (0, 0xFE, r1)"
    "mr.rest r1 = int2store (eofp_warnings eof) @ int2store (eofp_status_flags eof) @ []" by blast
  from reader_uint16_rest[OF r1(1,3)] obtain r2 where r2: "rd_inv r2"
    "MsgBufReader_read_uint16 r1 (eof_warnings_count e0) = (0, eofp_warnings eof, r2)"
    "mr.rest r2 = int2store (eofp_status_flags eof) @ []" by blast
  from reader_uint16_rest[OF r2(1,3)] obtain r3 where
    "MsgBufReader_read_uint16 r2 (eof_status_flags e0) = (0, eofp_status_flags eof, r3)" by blast
  moreover have "MsgBuf_byte_size [?bs] = 5" by (simp add: MsgBuf_byte_size_concat)
  ultimately show ?thesis using r1(2) r2(2) pb' by (simp add: MySQLEofPacket_decode_def)
qed

theorem eof_packet_roundtrip_witness:
  "let fresh = (\<lambda>n. replicate n 0); pb = PacketBuf_init fresh 16 1024;
       eof = \<lparr>eofp_warnings = 3, eofp_status_flags = 2\<rparr> in
   \<exists>pb'. EofPacket_serialize fresh eof ob_binlog_server_capabilities pb = Some (5, pb')
     \<and> MySQLEofPacket_decode \<lparr>eof_warnings_count = 9, eof_status_flags = 9\<rparr> [pb_unread pb']
       = (0, \<lparr>eof_warnings_count = 3, eof_status_flags = 2\<rparr>)"
proof -
  let ?fresh = "\<lambda>n. replicate n (0 :: byte)"
  let ?pb = "PacketBuf_init ?fresh 16 1024"
  have "heap_ok ?fresh" "pb_inv ?pb" "pb_limit ?pb" "pb_unread ?pb = []" "is_fast_writable 5 ?pb"
    "has_capability ob_binlog_server_capabilities client_protocol_41"
    by (simp_all add: heap_ok_def PacketBuf_init_def pb_inv_def pb_limit_def pb_unread_def
        is_fast_writable_def has_capability_def ob_binlog_server_capabilities_def
        client_protocol_41_def client_plugin_auth_def)
  from eof_packet_roundtrip [OF this, of "\<lparr>eofp_warnings = 3, eofp_status_flags = 2\<rparr>"
      "\<lparr>eof_warnings_count = 9, eof_status_flags = 9\<rparr>"]
  show ?thesis by (simp add: Let_def)
qed


section \<open>The handshake\<close>

lemma forward_rest_n:
  "rd_inv rd \<Longrightarrow> mr.rest rd = bs @ qs \<Longrightarrow> n = length bs \<Longrightarrow> 0 < n \<Longrightarrow>
   \<exists>rd'. MsgBufReader_forward rd n = (0, rd') \<and> rd_inv rd' \<and> mr.rest rd' = qs"
  using forward_rest[of rd bs qs] by auto

lemma decode_auth_part_rest:
  assumes inv: "rd_inv rd"
    and rest: "mr.rest rd = [21] @ zeros @ part2 @ ascii ''mysql_native_password'' @ 0 # qs"
    and len: "length zeros = 10" "length part2 = 13" "length (hs_scramble hs) = 8"
    and caps: "hs_capabilities_flag hs AND CLIENT_PLUGIN_AUTH \<noteq> 0"
      "hs_capabilities_flag hs AND CLIENT_SECURE_CONNECTION \<noteq> 0"
    and name: "hs_auth_plugin_name hs = []"
  shows "decode_auth_part hs rd = Some (0, hs\<lparr>hs_scramble := take 20 (hs_scramble hs @ part2),
    hs_scramble_valid := True, hs_auth_plugin_name := ascii ''mysql_native_password''\<rparr>)"
proof -
  let ?name = "ascii ''mysql_native_password''"
  from reader_uint8_rest[OF inv rest] obtain r1 where r1: "rd_inv r1"
    "MsgBufReader_read_uint8 rd 0 = (0, 21, r1)" "mr.rest r1 = zeros @ part2 @ ?name @ 0 # qs" by blast
  from forward_rest_n[OF r1(1,3), of 10] len(1) obtain r2 where r2:
    "MsgBufReader_forward r1 10 = (0, r2)" "rd_inv r2" "mr.rest r2 = part2 @ ?name @ 0 # qs" by auto
  from read_str_rest[OF r2(2,3), of 13 "[]"] len(2) obtain r3 where r3:
    "read_str r2 13 [] = (0, part2, r3)" "rd_inv r3" "mr.rest r3 = ?name @ 0 # qs" by auto
  have "0 \<notin> set ?name" by (simp add: ascii_def)
  moreover have "length ?name < hs_fuel r3"
  proof -
    have "length (mr.rest r3) \<le> rd_byte_size r3"
      using r3(2) by (simp add: rd_inv_def mr.rest_def)
    then show ?thesis using r3(3) by (simp add: hs_fuel_def)
  qed
  ultimately obtain r4 where "read_until_zero (hs_fuel r3) 0 r3 [] = Some (0, ?name, r4)"
    using read_until_zero_rest[OF r3(2,3), of "hs_fuel r3" "[]"] by auto
  then show ?thesis using r1(2) r2(1) r3(1) caps name len
    by (simp add: decode_auth_part_def Let_def)
qed

lemma overlay_at_halves:
  "overlay_at 2 (int2store (ucast (drop_bit 16 caps))) (overlay_at 0 (int2store (ucast caps)) w) = caps"
proof -
  let ?lo = "int2store (ucast caps)" and ?hi = "int2store (ucast (drop_bit 16 caps) :: u16)"
  have e: "overlay_at 0 ?lo w = le_word (?lo @ drop 2 (le_bytes 4 w))"
    by (simp add: overlay_at_def numeral_2_eq_2)
  have "le_bytes 4 (overlay_at 0 ?lo w) = ?lo @ drop 2 (le_bytes 4 w)"
    using le_bytes_le_word[of "?lo @ drop 2 (le_bytes 4 w)", where 'a = 32] by (simp add: e)
  then have "overlay_at 2 ?hi (overlay_at 0 ?lo w) = le_word (?lo @ ?hi)"
    by (simp add: overlay_at_def)
  moreover have "?lo @ ?hi = le_bytes 4 caps"
    by (simp add: int2store_def le_bytes_numerals ucast_drop_bit_ucast ucast_byte_ucast drop_bit_drop_bit)
  ultimately show ?thesis by simp
qed

definition handshake_fields :: "u32 \<Rightarrow> u8 \<Rightarrow> byte list \<Rightarrow> Capability \<Rightarrow> byte list list" where
  "handshake_fields thread_id character_set_nr scramble caps =
     [[10], ascii ''5.7.35-obs'' @ [0], int4store thread_id, take 8 scramble, [0], int2store (ucast caps),
      [character_set_nr], int2store ob_binlog_server_status_flags, int2store (ucast (drop_bit 16 caps)),
      [21], replicate 10 0, drop 8 scramble @ [0], ascii ''mysql_native_password'' @ [0]]"

lemma HandshakePacket_serialize_bytes:
  assumes "heap_ok fresh" "length scramble = 20" "0 \<notin> set scramble" "pb_inv pb" "pb_limit pb"
    "pb_room (length (concat (handshake_fields tid cs scramble caps))) pb"
  shows "\<exists>sz pb'. HandshakePacket_serialize fresh tid cs scramble caps pb = Some (sz, pb')
     \<and> pb_advanced (concat (handshake_fields tid cs scramble caps)) pb pb'"
proof -
  have "0 \<notin> set (drop 8 scramble)" using assms(3) by (meson in_set_dropD)
  then have tw: "takeWhile (\<lambda>b. b \<noteq> 0) (drop 8 scramble) = drop 8 scramble"
    by (auto simp: takeWhile_eq_all_conv)
  note w = write_uints_write[OF assms(1)]
  have c: "pb_writes (pb_write_c_string fresh s) (s @ [0])" if "length s < 100" for s
    using that by (intro c_string_writes[OF assms(1)]) simp
  have f: "pb_writes (pb_write_string fresh s n False) s" if "unat n = length s" for s n
    using that by (intro write_string_writes[OF assms(1)]) simp_all
  have "list_all2 pb_writes
     [write_uint1 fresh 10, pb_write_c_string fresh (ascii ''5.7.35-obs''), write_uint4 fresh tid,
      pb_write_string fresh (take 8 scramble) 8 False, write_uint1 fresh 0, write_uint2 fresh (ucast caps),
      write_uint1 fresh cs, write_uint2 fresh ob_binlog_server_status_flags,
      write_uint2 fresh (ucast (drop_bit 16 caps)), write_uint1 fresh 21,
      pb_write_string fresh (replicate 10 0) 10 False,
      pb_write_c_string fresh (takeWhile (\<lambda>b. b \<noteq> 0) (drop 8 scramble)),
      pb_write_c_string fresh (ascii ''mysql_native_password'')] (handshake_fields tid cs scramble caps)"
    unfolding handshake_fields_def tw
    by (intro list.rel_intros w c f) (simp_all add: ascii_def assms(2))
  from sum_writes_ok[OF this assms(4-6), of 0] show ?thesis
    by (auto simp: HandshakePacket_serialize_def)
qed

lemma handshake_decode_bytes:
  assumes cs: "concat chunks = concat (handshake_fields tid nr scramble caps)"
    and len: "length scramble = 20"
    and caps: "caps AND CLIENT_PLUGIN_AUTH \<noteq> 0" "caps AND CLIENT_SECURE_CONNECTION \<noteq> 0"
    and name: "hs_auth_plugin_name hs = []"
  shows "MySQLInitialHandShakePacket_decode hs chunks = Some (0, hs\<lparr>hs_protocol_version := 10,
    hs_scramble := scramble, hs_capabilities_flag := caps, hs_scramble_valid := True,
    hs_auth_plugin_name := ascii ''mysql_native_password''\<rparr>)"
proof -
  let ?ver = "ascii ''5.7.35-obs''" and ?hi = "int2store (ucast (drop_bit 16 caps))"
  let ?tail = "[21] @ replicate 10 0 @ (drop 8 scramble @ [0]) @ ascii ''mysql_native_password'' @ 0 # []"
  let ?mid = "[nr] @ int2store ob_binlog_server_status_flags"
  have "mr.rest (MsgBufReader_init chunks) = [10] @ ?ver @ 0 # int4store tid @ take 8 scramble @ [0]
      @ int2store (ucast caps) @ ?mid @ ?hi @ ?tail"
    using cs by (simp add: rd_rest_init handshake_fields_def)
  from reader_uint8_rest[OF MsgBufReader_init_inv this] obtain r1 where r1: "rd_inv r1"
    "MsgBufReader_read_uint8 (MsgBufReader_init chunks) (hs_protocol_version hs) = (0, 10, r1)"
    "mr.rest r1 = ?ver @ 0 # int4store tid @ take 8 scramble @ [0] @ int2store (ucast caps) @ ?mid @ ?hi @ ?tail"
    by blast
  have "0 \<notin> set ?ver" by (simp add: ascii_def)
  moreover have "length ?ver < hs_fuel r1"
  proof -
    have "length (mr.rest r1) \<le> rd_byte_size r1"
      using r1(1) by (simp add: rd_inv_def mr.rest_def)
    then show ?thesis using r1(3) by (simp add: hs_fuel_def)
  qed
  ultimately obtain r2 where r2: "read_until_zero (hs_fuel r1) 0 r1 [] = Some (0, ?ver, r2)" "rd_inv r2"
    "mr.rest r2 = int4store tid @ take 8 scramble @ [0] @ int2store (ucast caps) @ ?mid @ ?hi @ ?tail"
    using read_until_zero_rest[OF r1(1,3), of "hs_fuel r1" "[]"] by auto
  from reader_uint32_rest[OF r2(2,3)] obtain r3 where r3: "rd_inv r3"
    "MsgBufReader_read_uint32 r2 0 = (0, tid, r3)"
    "mr.rest r3 = take 8 scramble @ [0] @ int2store (ucast caps) @ ?mid @ ?hi @ ?tail" by blast
  from read_str_rest[OF r3(1,3), of 8 "hs_scramble hs"] len obtain r4 where r4: "rd_inv r4"
    "read_str r3 8 (hs_scramble hs) = (0, take 8 scramble, r4)"
    "mr.rest r4 = [0] @ int2store (ucast caps) @ ?mid @ ?hi @ ?tail" by auto
  from forward_rest_n[OF r4(1,3), of 1] obtain r5 where r5: "rd_inv r5"
    "MsgBufReader_forward r4 1 = (0, r5)"
    "mr.rest r5 = int2store (ucast caps) @ ?mid @ ?hi @ ?tail" by auto
  from read_rest[OF r5(1,3)] obtain r6 where r6: "rd_inv r6"
    "MsgBufReader_read r5 2 = (0, int2store (ucast caps), r6)" "mr.rest r6 = ?mid @ ?hi @ ?tail" by auto
  from forward_rest_n[OF r6(1,3), of 3] obtain r7 where r7: "rd_inv r7"
    "MsgBufReader_forward r6 3 = (0, r7)" "mr.rest r7 = ?hi @ ?tail" by auto
  from read_rest[OF r7(1,3)] obtain r8 where r8: "rd_inv r8"
    "MsgBufReader_read r7 2 = (0, ?hi, r8)" "mr.rest r8 = ?tail" by auto
  let ?hs = "hs\<lparr>hs_protocol_version := 10, hs_scramble := take 8 scramble, hs_scramble_valid := False,
    hs_capabilities_flag := caps\<rparr>"
  have "decode_auth_part ?hs r8 = Some (0, hs\<lparr>hs_protocol_version := 10, hs_scramble := scramble,
      hs_capabilities_flag := caps, hs_scramble_valid := True,
      hs_auth_plugin_name := ascii ''mysql_native_password''\<rparr>)"
    using decode_auth_part_rest[OF r8(1,3), of ?hs] len caps name by simp
  moreover have "MsgBufReader_has_more r6" using r6 by (simp add: has_more_rest)
  ultimately show ?thesis
    using r1(2) r2(1) r3(2) r4(2) r5(2) r6(2) r7(2) r8(2)
    by (simp add: MySQLInitialHandShakePacket_decode_def overlay_at_halves)
qed

text \<open>
  C31.  The scramble a server announces is the scramble the client computes its password proof with.
  For any random values, the packet \<^verbatim>\<open>HandshakePacket::serialize\<close> writes for a generated scramble
  decodes without error, and the decoded scramble is the twenty generated characters (the zero that
  the server sends after them is cut off).
\<close>

theorem handshake_scramble_roundtrip:
  assumes "heap_ok fresh" "pb_inv pb" "pb_limit pb" "pb_unread pb = []" "length rs = 20" "pb_room 78 pb"
    and "hs_auth_plugin_name hs0 = []"
  shows "\<exists>sz pb' hs. HandshakePacket_serialize fresh thread_id nr (generate_scramble rs)
        ob_binlog_server_capabilities pb = Some (sz, pb')
     \<and> MySQLInitialHandShakePacket_decode hs0 [pb_unread pb'] = Some (0, hs)
     \<and> hs_scramble hs = generate_scramble rs \<and> hs_scramble_valid hs"
proof -
  let ?s = "generate_scramble rs" and ?c = ob_binlog_server_capabilities
  have len: "length ?s = 20" using assms(5) by (simp add: generate_scramble_def)
  then have "length (concat (handshake_fields thread_id nr ?s ?c)) = 78"
    by (simp add: handshake_fields_def ascii_def)
  with HandshakePacket_serialize_bytes[OF assms(1) len scramble_no_zero assms(2,3), of thread_id nr ?c] assms(6)
  obtain sz pb' where "HandshakePacket_serialize fresh thread_id nr ?s ?c pb = Some (sz, pb')"
    "pb_advanced (concat (handshake_fields thread_id nr ?s ?c)) pb pb'" by auto
  moreover have "?c AND CLIENT_PLUGIN_AUTH \<noteq> 0" "?c AND CLIENT_SECURE_CONNECTION \<noteq> 0"
    by (simp_all add: ob_binlog_server_capabilities_def CLIENT_PLUGIN_AUTH_def client_plugin_auth_def
        CLIENT_SECURE_CONNECTION_def client_protocol_41_def)
  ultimately show ?thesis
    using handshake_decode_bytes[OF _ len, of "[concat (handshake_fields thread_id nr ?s ?c)]"
        thread_id nr ?c hs0] assms(4,7)
    by (auto simp: pb_advanced_def)
qed

definition fresh_handshake :: MySQLInitialHandShakePacket where
  "fresh_handshake = \<lparr>hs_protocol_version = 0, hs_capabilities_flag = 0, hs_auth_plugin_name = [],
     hs_scramble_valid = False, hs_scramble = []\<rparr>"

theorem handshake_scramble_roundtrip_witness:
  "let fresh = (\<lambda>n. replicate n 0); pb = PacketBuf_init fresh 16 1024; rs = replicate 19 36 @ [0x80] in
   \<exists>sz pb' hs. HandshakePacket_serialize fresh 7 33 (generate_scramble rs)
        ob_binlog_server_capabilities pb = Some (sz, pb')
     \<and> MySQLInitialHandShakePacket_decode fresh_handshake [pb_unread pb'] = Some (0, hs)
     \<and> hs_scramble hs = replicate 19 37 @ [1]"
proof -
  let ?fresh = "\<lambda>n. replicate n (0 :: byte)"
  let ?pb = "PacketBuf_init ?fresh 16 1024" and ?rs = "replicate 19 36 @ [0x80 :: u32]"
  have "heap_ok ?fresh" "pb_inv ?pb" "pb_limit ?pb" "pb_unread ?pb = []" "length ?rs = 20"
    "pb_room 78 ?pb" "hs_auth_plugin_name fresh_handshake = []"
    by (simp_all add: heap_ok_def PacketBuf_init_def pb_inv_def pb_limit_def pb_unread_def pb_room_def
        fresh_handshake_def)
  moreover have "generate_scramble ?rs = replicate 19 37 @ [1]"
    by (simp add: generate_scramble_def scramble_char_def)
  ultimately show ?thesis
    using handshake_scramble_roundtrip [of ?fresh ?pb ?rs fresh_handshake 7 33]
    by (auto simp: Let_def)
qed

end
