(* ===== verification/Connection.thy ===== *)
theory Connection
  imports ServerPacket
begin

unbundle bit_operations_syntax

text \<open>
  The connection attributes of a handshake response, \<^verbatim>\<open>src/binlog/connection.cpp\<close>, the part of
  \<^verbatim>\<open>Connection::process_handshake_response\<close> that runs before the user is authenticated.  The loop is
  run with fuel; \<^verbatim>\<open>connect_attrs_parsed\<close> shows that one round per attribute and one more are enough
  on a well-formed packet, \<^verbatim>\<open>connect_attrs_diverge\<close> how much a packet needs that ends too early, and when no fuel is enough.
\<close>

record ConnectAttrs =
  ca_attrs :: "byte list \<Rightarrow> byte list option"
  ca_real_host :: "byte list"
  ca_real_port :: "byte list"

definition to_lower :: "byte \<Rightarrow> byte" where
  "to_lower c = (if 65 \<le> c \<and> c \<le> 90 then c + 32 else c)"

text \<open>\<^verbatim>\<open>strcasecmp(key.c_str(), s) == 0\<close>; the key is compared up to its first zero byte.\<close>

definition strcasecmp_eq :: "byte list \<Rightarrow> byte list \<Rightarrow> bool" where
  "strcasecmp_eq a b \<longleftrightarrow> map to_lower (takeWhile (\<lambda>c. c \<noteq> 0) a) = map to_lower b"

text \<open>\<^verbatim>\<open>_connect_attrs.emplace\<close> keeps the value of a key that is already there.\<close>

definition emplace_attr :: "byte list \<Rightarrow> byte list \<Rightarrow> ConnectAttrs \<Rightarrow> ConnectAttrs" where
  "emplace_attr key val ca =
     (let ca = (if ca_attrs ca key = None then ca\<lparr>ca_attrs := (ca_attrs ca)(key \<mapsto> val)\<rparr> else ca);
          ca = (if strcasecmp_eq key (ascii ''__client_ip'') then ca\<lparr>ca_real_host := val\<rparr> else ca) in
      if strcasecmp_eq key (ascii ''__client_addr_port'') then ca\<lparr>ca_real_port := val\<rparr> else ca)"

fun attrs_loop ::
  "nat \<Rightarrow> u64 \<Rightarrow> PacketBuf \<Rightarrow> ConnectAttrs \<Rightarrow> (PacketBuf \<times> ConnectAttrs) loop_result" where
  "attrs_loop fuel attrs_len pb ca =
     (if attrs_len = 0 then Finished (pb, ca)
      else case fuel of 0 \<Rightarrow> Running
      | Suc fuel \<Rightarrow>
          then_loop (read_length_encoded_string [] pb) (\<lambda>(n, key, pb).
            let attrs_len = attrs_len - of_int n in
            then_loop (read_length_encoded_string [] pb) (\<lambda>(m, val, pb).
              let attrs_len = attrs_len - of_int m in
              attrs_loop fuel attrs_len pb (emplace_attr key val ca))))"

declare attrs_loop.simps [simp del]

definition connect_attrs ::
  "nat \<Rightarrow> PacketBuf \<Rightarrow> ConnectAttrs \<Rightarrow> (PacketBuf \<times> ConnectAttrs) loop_result" where
  "connect_attrs fuel pb ca =
     then_loop (read_uint 0 pb) (\<lambda>(_, attrs_len, pb). attrs_loop fuel attrs_len pb ca)"

lemma read_uint_empty:
  assumes "pb_inv pb" "pb_unread pb = []"
  shows "\<exists>msg. read_uint v pb = Some (-1, v, pb\<lparr>pb_error_msg := msg\<rparr>)"
  using ensure_readable_no[OF assms(1), of 1] assms(2) by (auto simp: read_uint_def)

lemma lenenc_string_empty:
  assumes "pb_inv pb" "pb_unread pb = []"
  shows "\<exists>msg. read_length_encoded_string str pb = Some (-1, str, pb\<lparr>pb_error_msg := msg\<rparr>)"
  using read_uint_empty[OF assms, of 0] by (auto simp: read_length_encoded_string_def)

text \<open>Behind the end of the packet every read returns -1, and each round adds 2 to the length that is left.\<close>

lemma attrs_loop_exhausted:
  assumes "pb_inv pb" "pb_unread pb = []"
  shows "attrs_loop fuel attrs_len pb ca = Running \<longleftrightarrow>
    attrs_len \<noteq> 0 \<and> (odd (unat attrs_len) \<or> 2 * fuel < 2 ^ 64 - unat attrs_len)"
  using assms
proof (induction fuel arbitrary: attrs_len pb ca)
  case 0
  show ?case using unat_bound[of attrs_len] by (simp add: attrs_loop.simps)
next
  case (Suc fuel)
  obtain m1 where m1: "read_length_encoded_string [] pb = Some (-1, [], pb\<lparr>pb_error_msg := m1\<rparr>)"
    using lenenc_string_empty[OF Suc.prems(1,2)] by blast
  have inv1: "pb_inv (pb\<lparr>pb_error_msg := m\<rparr>)" "pb_unread (pb\<lparr>pb_error_msg := m\<rparr>) = []" for m
    using Suc.prems by (simp_all add: pb_inv_def pb_unread_def)
  obtain m2 where m2: "read_length_encoded_string [] (pb\<lparr>pb_error_msg := m1\<rparr>)
      = Some (-1, [], pb\<lparr>pb_error_msg := m2\<rparr>)"
    using lenenc_string_empty[OF inv1[of m1]] by auto
  have run: "attrs_loop (Suc fuel) attrs_len pb ca = (if attrs_len = 0 then Finished (pb, ca)
      else attrs_loop fuel (attrs_len + 2) (pb\<lparr>pb_error_msg := m2\<rparr>) (emplace_attr [] [] ca))"
    using m1 m2 by (subst attrs_loop.simps) (simp add: add.assoc)
  show ?case
  proof (cases "unat attrs_len < 2 ^ 64 - 2")
    case True
    then have "unat (attrs_len + 2) = unat attrs_len + 2" by (subst unat_add_small) simp_all
    then show ?thesis using run Suc.IH[OF inv1] True by (auto simp: unat_eq_0[symmetric])
  next
    case False
    then have "unat attrs_len = 2 ^ 64 - 2 \<or> unat attrs_len = 2 ^ 64 - 1" using unat_bound[of attrs_len] by auto
    then show ?thesis
    proof
      assume "unat attrs_len = 2 ^ 64 - 2"
      then have "attrs_len = - 2" by (simp add: word_unat_eq_iff)
      then show ?thesis using run Suc.IH[OF inv1] by simp
    next
      assume max: "unat attrs_len = 2 ^ 64 - 1"
      then have "attrs_len = - 1" by (simp add: word_unat_eq_iff unsigned_minus_1_eq_mask mask_eq_exp_minus_1)
      then show ?thesis using run Suc.IH[OF inv1, of 1] max by simp
    qed
  qed
qed

definition no_attrs :: ConnectAttrs where
  "no_attrs = \<lparr>ca_attrs = Map.empty, ca_real_host = [], ca_real_port = []\<rparr>"

definition attr_bytes :: "byte list \<times> byte list \<Rightarrow> byte list" where
  "attr_bytes kv = lenenc_str (fst kv) @ lenenc_str (snd kv)"

lemma attr_bytes_pair: "attr_bytes (k, v) = lenenc_str k @ lenenc_str v"
  by (simp add: attr_bytes_def)

lemma packet_store_length_nonempty [simp]: "packet_store_length v \<noteq> []"
  by (simp add: packet_store_length_def)

lemma lenenc_string_read:
  assumes "pb_inv pb" "pb_unread pb = lenenc_str s @ qs" "length s < 2 ^ 32"
  shows "\<exists>pb'. read_length_encoded_string [] pb = Some (int (length (lenenc_str s)), s, pb')
     \<and> pb_consumed qs pb pb'"
  using read_length_encoded_string_rest[OF assms(1)] assms(2,3) by (simp add: lenenc_str_def)

text \<open>The loop over complete attributes, with \<^verbatim>\<open>r\<close> more bytes announced.\<close>

abbreviation attrs_bytes :: "(byte list \<times> byte list) list \<Rightarrow> byte list" where
  "attrs_bytes kvs \<equiv> concat (map attr_bytes kvs)"

abbreviation emplace_all :: "(byte list \<times> byte list) list \<Rightarrow> ConnectAttrs \<Rightarrow> ConnectAttrs" where
  "emplace_all kvs ca \<equiv> fold (\<lambda>(k, v). emplace_attr k v) kvs ca"

lemma attrs_loop_through:
  assumes "pb_inv pb" "pb_unread pb = attrs_bytes kvs @ qs" "attrs_len = of_nat (length (attrs_bytes kvs) + r)"
    and "length (attrs_bytes kvs) < 2 ^ 32" "length (attrs_bytes kvs) + r < 2 ^ 64"
  shows "\<exists>pb'. pb_consumed qs pb pb' \<and> (\<forall>fuel. attrs_loop fuel attrs_len pb ca =
     (if fuel < length kvs then Running else attrs_loop (fuel - length kvs) (of_nat r) pb' (emplace_all kvs ca)))"
  using assms
proof (induction kvs arbitrary: attrs_len pb ca)
  case Nil
  then show ?case by (auto simp: pb_consumed_def)
next
  case (Cons kv kvs)
  obtain k v where kv: "kv = (k, v)" by (cases kv)
  let ?rest = "attrs_bytes kvs" and ?lk = "lenenc_str k" and ?lv = "lenenc_str v"
  have small: "length ?lk + length ?lv + length ?rest < 2 ^ 32"
    using Cons.prems(4) by (simp add: kv attr_bytes_pair)
  then have ks: "length k < 2 ^ 32" "length v < 2 ^ 32" by (simp_all add: lenenc_str_def)
  have len: "attrs_len = of_nat (length ?lk + length ?lv + (length ?rest + r))"
    using Cons.prems(3) by (simp add: kv attr_bytes_pair)
  have "length ?lk + length ?lv + (length ?rest + r) < 2 ^ 64" using Cons.prems(5) by (simp add: kv attr_bytes_pair)
  then have "unat attrs_len = length ?lk + length ?lv + (length ?rest + r)" by (simp add: len del: of_nat_add)
  then have nz: "attrs_len \<noteq> 0" by (auto simp: lenenc_str_def)
  have "pb_unread pb = ?lk @ ?lv @ ?rest @ qs" using Cons.prems(2) by (simp add: kv attr_bytes_pair)
  from lenenc_string_read[OF Cons.prems(1) this ks(1)] obtain p1 where p1:
    "read_length_encoded_string [] pb = Some (int (length ?lk), k, p1)"
    "pb_consumed (?lv @ ?rest @ qs) pb p1" by blast
  then have "pb_inv p1" "pb_unread p1 = ?lv @ ?rest @ qs" by (simp_all add: pb_consumed_def)
  from lenenc_string_read[OF this ks(2)] obtain p2 where p2:
    "read_length_encoded_string [] p1 = Some (int (length ?lv), v, p2)"
    "pb_consumed (?rest @ qs) p1 p2" by blast
  have left: "attrs_len - of_int (int (length ?lk)) - of_int (int (length ?lv)) = of_nat (length ?rest + r)"
    by (simp add: len)
  have step: "attrs_loop (Suc f) attrs_len pb ca = attrs_loop f (of_nat (length ?rest + r)) p2 (emplace_attr k v ca)"
    and none: "attrs_loop 0 attrs_len pb ca = Running" for f
    using p1(1) p2(1) nz left by (subst attrs_loop.simps, simp)+
  have "pb_inv p2" "pb_unread p2 = ?rest @ qs" using p2(2) by (simp_all add: pb_consumed_def)
  moreover have "length ?rest < 2 ^ 32" "length ?rest + r < 2 ^ 64"
    using small Cons.prems(5) by (simp_all add: kv attr_bytes_pair)
  ultimately obtain pb' where pb': "pb_consumed qs p2 pb'"
    "attrs_loop f (of_nat (length ?rest + r)) p2 (emplace_attr k v ca) =
      (if f < length kvs then Running else attrs_loop (f - length kvs) (of_nat r) pb' (emplace_all kvs (emplace_attr k v ca)))" for f
    using Cons.IH[of p2 "of_nat (length ?rest + r)" "emplace_attr k v ca"] by auto
  have "attrs_loop fuel attrs_len pb ca = (if fuel < length (kv # kvs) then Running
      else attrs_loop (fuel - length (kv # kvs)) (of_nat r) pb' (emplace_all (kv # kvs) ca))" for fuel
    using step none pb'(2) by (cases fuel) (simp_all add: kv)
  moreover have "pb_consumed qs pb pb'" using p1(2) p2(2) pb'(1) by (auto simp: pb_consumed_def)
  ultimately show ?case by blast
qed

lemma connect_attrs_through:
  assumes "pb_inv pb" "pb_unread pb = packet_store_length n @ attrs_bytes kvs @ qs"
    and "length (attrs_bytes kvs) < 2 ^ 32" "unat n = length (attrs_bytes kvs) + r"
  shows "\<exists>pb'. pb_inv pb' \<and> pb_unread pb' = qs \<and> (\<forall>fuel. connect_attrs fuel pb ca =
     (if fuel < length kvs then Running else attrs_loop (fuel - length kvs) (of_nat r) pb' (emplace_all kvs ca)))"
proof -
  from read_uint_rest[OF assms(1,2), of 0] obtain p1 where p1:
    "read_uint 0 pb = Some (int (length (packet_store_length n)), n, p1)" "pb_inv p1" "pb_unread p1 = attrs_bytes kvs @ qs"
    by (auto simp: pb_consumed_def)
  have "n = of_nat (length (attrs_bytes kvs) + r)" unfolding assms(4)[symmetric] by simp
  moreover have "length (attrs_bytes kvs) + r < 2 ^ 64" using unat_bound[of n] assms(4) by simp
  ultimately obtain pb' where "pb_consumed qs p1 pb'" "attrs_loop fuel n p1 ca =
     (if fuel < length kvs then Running else attrs_loop (fuel - length kvs) (of_nat r) pb' (emplace_all kvs ca))" for fuel
    using attrs_loop_through[OF p1(2,3) _ assms(3)] by blast
  then show ?thesis using p1(1) by (intro exI[of _ pb']) (simp add: connect_attrs_def pb_consumed_def)
qed

text \<open>
  C32.  A client can keep the handshake from ever ending.  The packet ends behind some complete attributes, or
  right behind the length, and the length announces \<^verbatim>\<open>r\<close> bytes more.  The reads then return -1, and
  \<^verbatim>\<open>attrs_len -= -1\<close> makes the length grow: for an odd \<^verbatim>\<open>r\<close> the loop is still running after any number of
  rounds, for an even one until the length has passed 64 bits, after half of \<^verbatim>\<open>2 ^ 64 - r\<close> rounds.
\<close>

theorem connect_attrs_diverge:
  assumes "pb_inv pb" "pb_unread pb = packet_store_length n @ concat (map attr_bytes kvs)"
    and "length (concat (map attr_bytes kvs)) < 2 ^ 32" "unat n = length (concat (map attr_bytes kvs)) + r"
  shows "connect_attrs fuel pb ca = Running \<longleftrightarrow>
    fuel < length kvs \<or> r \<noteq> 0 \<and> (odd r \<or> 2 * (fuel - length kvs) < 2 ^ 64 - r)"
proof -
  have "pb_unread pb = packet_store_length n @ attrs_bytes kvs @ []" using assms(2) by simp
  from connect_attrs_through[OF assms(1) this assms(3,4)] obtain pb' where pb': "pb_inv pb'" "pb_unread pb' = []"
    "connect_attrs fuel pb ca = (if fuel < length kvs then Running
       else attrs_loop (fuel - length kvs) (of_nat r) pb' (emplace_all kvs ca))" by blast
  have "unat (of_nat r :: u64) = r" using unat_bound[of n] assms(4) by (intro unat_of_nat_small) simp
  then show ?thesis using pb'(3) attrs_loop_exhausted[OF pb'(1,2), of "fuel - length kvs" "of_nat r"]
    by (auto simp: unat_eq_0[symmetric])
qed

definition truncated_attrs :: PacketBuf where
  "truncated_attrs = \<lparr>pb_buf = [5, 1, 97, 1, 98, 7], pb_capacity = 6, pb_min_capacity = 6, pb_max_capacity = 64,
     pb_read_index = 0, pb_write_index = 5, pb_error_msg = ''''\<rparr>"

theorem connect_attrs_diverge_witness:
  "pb_unread truncated_attrs = [5, 1, 97, 1, 98] \<and> connect_attrs 1000000 truncated_attrs no_attrs = Running"
proof -
  have "pb_inv truncated_attrs" and u: "pb_unread truncated_attrs = [5, 1, 97, 1, 98]"
    by (simp_all add: pb_inv_def pb_unread_def truncated_attrs_def)
  moreover have "[5, 1, 97, 1, 98] = packet_store_length 5 @ concat (map attr_bytes [([97], [98])])"
    "length (concat (map attr_bytes [([97], [98])])) = 4"
    by (simp_all add: attr_bytes_def lenenc_str_def packet_store_length_def)
  ultimately show ?thesis
    using connect_attrs_diverge [of truncated_attrs 5 "[([97], [98])]" 1 1000000 no_attrs] by simp
qed

section \<open>What is recorded\<close>

text \<open>The value of the last attribute that is meant for a member, or what the member held before.\<close>

definition last_value :: "string \<Rightarrow> (byte list \<times> byte list) list \<Rightarrow> byte list \<Rightarrow> byte list" where
  "last_value name kvs old = last (old # map snd (filter (\<lambda>(k, v). strcasecmp_eq k (ascii name)) kvs))"

lemma last_value_Cons:
  "last_value name ((k, v) # kvs) old = last_value name kvs (if strcasecmp_eq k (ascii name) then v else old)"
  by (simp add: last_value_def)

lemma emplace_attr_fields:
  "ca_attrs (emplace_attr k v ca) key = (if key = k \<and> ca_attrs ca k = None then Some v else ca_attrs ca key)"
  "ca_real_host (emplace_attr k v ca) = (if strcasecmp_eq k (ascii ''__client_ip'') then v else ca_real_host ca)"
  "ca_real_port (emplace_attr k v ca) = (if strcasecmp_eq k (ascii ''__client_addr_port'') then v else ca_real_port ca)"
  by (auto simp: emplace_attr_def Let_def)

lemma emplace_all_fields:
  "ca_attrs (emplace_all kvs ca) key = (case ca_attrs ca key of None \<Rightarrow> map_of kvs key | Some v \<Rightarrow> Some v)"
  "ca_real_host (emplace_all kvs ca) = last_value ''__client_ip'' kvs (ca_real_host ca)"
  "ca_real_port (emplace_all kvs ca) = last_value ''__client_addr_port'' kvs (ca_real_port ca)"
  by (induction kvs arbitrary: ca)
     (auto simp: emplace_attr_fields last_value_Cons last_value_def[of _ "[]"] split: option.splits)

text \<open>
  C33.  On a well-formed packet the loop ends after one round per attribute, what follows in the packet is left
  unread, and the attributes are recorded: a key keeps the value it had, or gets the first one the packet gives it; the client
  address and the client port are the values of the last attributes named \<^verbatim>\<open>__client_ip\<close> and
  \<^verbatim>\<open>__client_addr_port\<close> in upper or lower case, and stay as they were when there is none.
\<close>

theorem connect_attrs_parsed:
  assumes "pb_inv pb" "payload = concat (map attr_bytes kvs)" "length payload < 2 ^ 32"
    and "pb_unread pb = packet_store_length (of_nat (length payload)) @ payload @ qs"
    and "length kvs \<le> fuel"
  shows "\<exists>pb' ca'. connect_attrs fuel pb ca = Finished (pb', ca') \<and> pb_inv pb' \<and> pb_unread pb' = qs \<and>
     (\<forall>key. ca_attrs ca' key = (case ca_attrs ca key of None \<Rightarrow> map_of kvs key | Some v \<Rightarrow> Some v)) \<and>
     ca_real_host ca' = last_value ''__client_ip'' kvs (ca_real_host ca) \<and>
     ca_real_port ca' = last_value ''__client_addr_port'' kvs (ca_real_port ca)"
proof -
  have "unat (of_nat (length payload) :: u64) = length (attrs_bytes kvs) + 0"
    using assms(2,3) by (subst unat_of_nat_small) simp_all
  from connect_attrs_through[OF assms(1) _ _ this, of qs ca] assms(2-4) obtain pb' where "pb_inv pb'" "pb_unread pb' = qs"
    "connect_attrs fuel pb ca = (if fuel < length kvs then Running
       else attrs_loop (fuel - length kvs) (of_nat 0) pb' (emplace_all kvs ca))" by auto
  then show ?thesis using assms(5)
    by (intro exI[of _ pb'] exI[of _ "emplace_all kvs ca"]) (simp add: attrs_loop.simps emplace_all_fields)
qed

text \<open>A packet with an address, a port whose name is written in another case, and one byte behind them.\<close>

definition client_attrs :: "(byte list \<times> byte list) list" where
  "client_attrs = [(ascii ''__client_ip'', [49]), (ascii ''__CLIENT_addr_port'', [50, 51])]"

definition client_packet :: PacketBuf where
  "client_packet = \<lparr>pb_buf = 36 # concat (map attr_bytes client_attrs) @ [77],
     pb_capacity = 38, pb_min_capacity = 38, pb_max_capacity = 64,
     pb_read_index = 0, pb_write_index = 38, pb_error_msg = ''''\<rparr>"

theorem connect_attrs_parsed_witness:
  "\<exists>pb' ca'. connect_attrs 2 client_packet no_attrs = Finished (pb', ca') \<and> pb_unread pb' = [77] \<and>
     ca_attrs ca' (ascii ''__client_ip'') = Some [49] \<and> ca_attrs ca' (ascii ''__client_addr_port'') = None \<and>
     ca_real_host ca' = [49] \<and> ca_real_port ca' = [50, 51]"
proof -
  have len: "length (concat (map attr_bytes client_attrs)) = 36"
    by (simp add: client_attrs_def attr_bytes_def lenenc_str_def packet_store_length_def ascii_def)
  have "pb_inv client_packet"
    "pb_unread client_packet = packet_store_length (of_nat (length (concat (map attr_bytes client_attrs))))
       @ concat (map attr_bytes client_attrs) @ [77]"
    using len by (simp_all add: pb_inv_def pb_unread_def client_packet_def packet_store_length_def)
  from connect_attrs_parsed [OF this(1) refl _ this(2), of 2 no_attrs] len obtain pb' ca' where
    run: "connect_attrs 2 client_packet no_attrs = Finished (pb', ca')" "pb_unread pb' = [77]"
    and ca': "\<And>key. ca_attrs ca' key = map_of client_attrs key"
      "ca_real_host ca' = last_value ''__client_ip'' client_attrs []"
      "ca_real_port ca' = last_value ''__client_addr_port'' client_attrs []"
    by (auto simp: no_attrs_def client_attrs_def)
  have "map_of client_attrs (ascii ''__client_ip'') = Some [49]" "map_of client_attrs (ascii ''__client_addr_port'') = None"
    "last_value ''__client_ip'' client_attrs [] = [49]" "last_value ''__client_addr_port'' client_attrs [] = [50, 51]"
    by (simp_all add: client_attrs_def last_value_def strcasecmp_eq_def ascii_def to_lower_def)
  then show ?thesis using run ca' by auto
qed

end
