(* ===== verification/EventType.thy ===== *)
theory EventType
  imports Prelude
begin

text \<open>
  The enumeration \<^verbatim>\<open>EventType\<close> of \<^verbatim>\<open>binlog/oblogevent_type.h\<close> with its codes and names.
\<close>

datatype EventType =
    UNKNOWN_EVENT | START_EVENT_V3 | QUERY_EVENT | STOP_EVENT
  | ROTATE_EVENT | INTVAR_EVENT | LOAD_EVENT | SLAVE_EVENT
  | CREATE_FILE_EVENT | APPEND_BLOCK_EVENT | EXEC_LOAD_EVENT | DELETE_FILE_EVENT
  | NEW_LOAD_EVENT | RAND_EVENT | USER_VAR_EVENT | FORMAT_DESCRIPTION_EVENT
  | XID_EVENT | BEGIN_LOAD_QUERY_EVENT | EXECUTE_LOAD_QUERY_EVENT | TABLE_MAP_EVENT
  | PRE_GA_WRITE_ROWS_EVENT | PRE_GA_UPDATE_ROWS_EVENT | PRE_GA_DELETE_ROWS_EVENT | INCIDENT_EVENT
  | HEARTBEAT_LOG_EVENT | IGNORABLE_LOG_EVENT | ROWS_QUERY_LOG_EVENT | WRITE_ROWS_EVENT
  | UPDATE_ROWS_EVENT | DELETE_ROWS_EVENT | GTID_LOG_EVENT | ANONYMOUS_GTID_LOG_EVENT
  | PREVIOUS_GTIDS_LOG_EVENT | TRANSACTION_CONTEXT_EVENT | VIEW_CHANGE_EVENT | XA_PREPARE_LOG_EVENT
  | PARTIAL_UPDATE_ROWS_EVENT | ENUM_END_EVENT
  | UNNAMED_EVENT u8

primrec event_code :: "EventType \<Rightarrow> u8" where
  "event_code UNKNOWN_EVENT = 0"
| "event_code START_EVENT_V3 = 1"
| "event_code QUERY_EVENT = 2"
| "event_code STOP_EVENT = 3"
| "event_code ROTATE_EVENT = 4"
| "event_code INTVAR_EVENT = 5"
| "event_code LOAD_EVENT = 6"
| "event_code SLAVE_EVENT = 7"
| "event_code CREATE_FILE_EVENT = 8"
| "event_code APPEND_BLOCK_EVENT = 9"
| "event_code EXEC_LOAD_EVENT = 10"
| "event_code DELETE_FILE_EVENT = 11"
| "event_code NEW_LOAD_EVENT = 12"
| "event_code RAND_EVENT = 13"
| "event_code USER_VAR_EVENT = 14"
| "event_code FORMAT_DESCRIPTION_EVENT = 15"
| "event_code XID_EVENT = 16"
| "event_code BEGIN_LOAD_QUERY_EVENT = 17"
| "event_code EXECUTE_LOAD_QUERY_EVENT = 18"
| "event_code TABLE_MAP_EVENT = 19"
| "event_code PRE_GA_WRITE_ROWS_EVENT = 20"
| "event_code PRE_GA_UPDATE_ROWS_EVENT = 21"
| "event_code PRE_GA_DELETE_ROWS_EVENT = 22"
| "event_code INCIDENT_EVENT = 26"
| "event_code HEARTBEAT_LOG_EVENT = 27"
| "event_code IGNORABLE_LOG_EVENT = 28"
| "event_code ROWS_QUERY_LOG_EVENT = 29"
| "event_code WRITE_ROWS_EVENT = 30"
| "event_code UPDATE_ROWS_EVENT = 31"
| "event_code DELETE_ROWS_EVENT = 32"
| "event_code GTID_LOG_EVENT = 33"
| "event_code ANONYMOUS_GTID_LOG_EVENT = 34"
| "event_code PREVIOUS_GTIDS_LOG_EVENT = 35"
| "event_code TRANSACTION_CONTEXT_EVENT = 36"
| "event_code VIEW_CHANGE_EVENT = 37"
| "event_code XA_PREPARE_LOG_EVENT = 38"
| "event_code PARTIAL_UPDATE_ROWS_EVENT = 39"
| "event_code ENUM_END_EVENT = 40"
| "event_code (UNNAMED_EVENT c) = c"

definition named_events :: "EventType list" where
  "named_events = [
     UNKNOWN_EVENT, START_EVENT_V3, QUERY_EVENT, STOP_EVENT,
     ROTATE_EVENT, INTVAR_EVENT, LOAD_EVENT, SLAVE_EVENT,
     CREATE_FILE_EVENT, APPEND_BLOCK_EVENT, EXEC_LOAD_EVENT, DELETE_FILE_EVENT,
     NEW_LOAD_EVENT, RAND_EVENT, USER_VAR_EVENT, FORMAT_DESCRIPTION_EVENT,
     XID_EVENT, BEGIN_LOAD_QUERY_EVENT, EXECUTE_LOAD_QUERY_EVENT, TABLE_MAP_EVENT,
     PRE_GA_WRITE_ROWS_EVENT, PRE_GA_UPDATE_ROWS_EVENT, PRE_GA_DELETE_ROWS_EVENT, INCIDENT_EVENT,
     HEARTBEAT_LOG_EVENT, IGNORABLE_LOG_EVENT, ROWS_QUERY_LOG_EVENT, WRITE_ROWS_EVENT,
     UPDATE_ROWS_EVENT, DELETE_ROWS_EVENT, GTID_LOG_EVENT, ANONYMOUS_GTID_LOG_EVENT,
     PREVIOUS_GTIDS_LOG_EVENT, TRANSACTION_CONTEXT_EVENT, VIEW_CHANGE_EVENT, XA_PREPARE_LOG_EVENT,
     PARTIAL_UPDATE_ROWS_EVENT, ENUM_END_EVENT]"

definition event_type_to_str :: "EventType \<Rightarrow> string" where
  "event_type_to_str t = (case t of
     QUERY_EVENT \<Rightarrow> ''Query''
   | ROTATE_EVENT \<Rightarrow> ''Rotate''
   | XID_EVENT \<Rightarrow> ''Xid''
   | USER_VAR_EVENT \<Rightarrow> ''User var''
   | FORMAT_DESCRIPTION_EVENT \<Rightarrow> ''Format_desc''
   | TABLE_MAP_EVENT \<Rightarrow> ''Table_map''
   | ROWS_QUERY_LOG_EVENT \<Rightarrow> ''Rows_query''
   | WRITE_ROWS_EVENT \<Rightarrow> ''Write_rows''
   | UPDATE_ROWS_EVENT \<Rightarrow> ''Update_rows''
   | PARTIAL_UPDATE_ROWS_EVENT \<Rightarrow> ''Update_rows_partial''
   | DELETE_ROWS_EVENT \<Rightarrow> ''Delete_rows''
   | GTID_LOG_EVENT \<Rightarrow> ''Gtid''
   | ANONYMOUS_GTID_LOG_EVENT \<Rightarrow> ''Anonymous_Gtid''
   | PREVIOUS_GTIDS_LOG_EVENT \<Rightarrow> ''Previous_gtids''
   | HEARTBEAT_LOG_EVENT \<Rightarrow> ''Heartbeat''
   | _ \<Rightarrow> ''Unknown'')"

text \<open>\<^verbatim>\<open>static_cast<EventType>\<close> of a byte; 23 to 25 and 41 to 255 are no enumerators.\<close>

definition event_of :: "u8 \<Rightarrow> EventType" where
  "event_of c = (case find (\<lambda>t. event_code t = c) named_events of Some t \<Rightarrow> t | None \<Rightarrow> UNNAMED_EVENT c)"

definition proper_type :: "EventType \<Rightarrow> bool" where
  "proper_type t \<longleftrightarrow> event_of (event_code t) = t"

lemma named_proper: "t \<in> set named_events \<Longrightarrow> proper_type t"
  unfolding named_events_def
  by (simp only: list.set insert_iff empty_iff simp_thms)
     (elim disjE; simp add: proper_type_def event_of_def named_events_def)

end
