(* ===== verification/StrUtil.thy ===== *)
theory StrUtil
  imports Decimal
begin

unbundle bit_operations_syntax

text \<open>
  The string helpers of \<^verbatim>\<open>common/str.cpp\<close>, \<^verbatim>\<open>common/common.cpp\<close> and \<^verbatim>\<open>binlog/common_util.h\<close>:
  splitting at separators, trimming, padding, hexadecimal dumps and their two readers.  A
  \<^verbatim>\<open>std::string\<close> is a \<^typ>\<open>string\<close>; the splitters walk it as a C string and so stop at the first
  zero character.
\<close>

definition NUL :: char where
  "NUL = CHR 0x00"

fun split_loop :: "(char \<Rightarrow> bool) \<Rightarrow> bool \<Rightarrow> bool \<Rightarrow> string \<Rightarrow> string \<Rightarrow> string list" where
  "split_loop sep fst_only flag pre [] = [pre]"
| "split_loop sep fst_only flag pre (c # cs) =
     (if c = NUL then [pre]
      else if sep c \<and> (\<not> fst_only \<or> \<not> flag) then pre # split_loop sep fst_only True [] cs
      else split_loop sep fst_only flag (pre @ [c]) cs)"

definition split_all :: "string \<Rightarrow> string \<Rightarrow> bool \<Rightarrow> string list" where
  "split_all str seps fst_only =
     (if str = [] then [] else split_loop (\<lambda>c. c \<in> set seps) fst_only False [] str)"

definition split_str :: "string \<Rightarrow> char \<Rightarrow> bool \<Rightarrow> string list" where
  "split_str str sep fst_only =
     (if str = [] then [] else split_loop (\<lambda>c. c = sep) fst_only False [] str)"

abbreviation split :: "string \<Rightarrow> char \<Rightarrow> string list" where
  "split str sep \<equiv> split_str str sep False"

definition ltrim :: "string \<Rightarrow> string" where
  "ltrim s = dropWhile isspace s"

definition rtrim :: "string \<Rightarrow> string" where
  "rtrim s = rev (dropWhile isspace (rev s))"

definition trim :: "string \<Rightarrow> string" where
  "trim s = rtrim (ltrim s)"

text \<open>\<^verbatim>\<open>pad_left\<close> builds a \<^verbatim>\<open>std::string\<close> from a null pointer when the value is too long: that branch
  is a fault.\<close>

definition pad_left :: "string \<Rightarrow> nat \<Rightarrow> char \<Rightarrow> string option" where
  "pad_left value sz padding =
     (if length value < sz then Some (replicate (sz - length value) padding @ value)
      else if length value = sz then Some value
      else None)"

definition pad_right :: "string \<Rightarrow> nat \<Rightarrow> char \<Rightarrow> string" where
  "pad_right value sz padding =
     (if length value < sz then value @ replicate (sz - length value) padding else value)"

fun join :: "string \<Rightarrow> string list \<Rightarrow> string" where
  "join sep [] = []"
| "join sep [p] = p"
| "join sep (p # ps) = p @ sep @ join sep ps"

definition tolower :: "char \<Rightarrow> char" where
  "tolower c = (if 65 \<le> (of_char c :: nat) \<and> (of_char c :: nat) \<le> 90 then char_of (of_char c + 32 :: nat) else c)"

definition hex_digit :: "byte \<Rightarrow> char" where
  "hex_digit h = (if h \<ge> 0x0A then char_of (unat h + 65 - 10) else char_of (unat h + 48))"

primrec dumphex :: "byte list \<Rightarrow> string" where
  "dumphex [] = []"
| "dumphex (c # cs) = hex_digit (drop_bit 4 c AND 0x0F) # hex_digit (c AND 0x0F) # dumphex cs"

definition hex_val :: "char \<Rightarrow> byte option" where
  "hex_val ch = (let c = of_char ch :: nat in
     if 48 \<le> c \<and> c \<le> 57 then Some (of_nat (c - 48))
     else if 65 \<le> c \<and> c \<le> 70 then Some (of_nat (c - 65 + 10))
     else if 97 \<le> c \<and> c \<le> 102 then Some (of_nat (c - 97 + 10))
     else None)"

fun hex2bin_loop :: "nat \<Rightarrow> byte \<Rightarrow> string \<Rightarrow> byte list \<Rightarrow> byte list" where
  "hex2bin_loop count last_char [] bin = bin"
| "hex2bin_loop count last_char (c # cs) bin = (case hex_val c of
     None \<Rightarrow> hex2bin_loop count last_char cs bin
   | Some v \<Rightarrow> if count mod 2 = 0 then hex2bin_loop (Suc count) (push_bit 4 v) cs bin
               else hex2bin_loop (Suc count) last_char cs (bin @ [last_char OR v]))"

definition hex2bin :: "string \<Rightarrow> byte list \<Rightarrow> int \<times> byte list" where
  "hex2bin data bin =
     (if length data mod 2 \<noteq> 0 then (-1, bin) else (0, hex2bin_loop 0 0 data bin))"

text \<open>
  The low byte of \<^verbatim>\<open>element\<close> after \<^verbatim>\<open>str_hex >> std::hex >> element\<close>: the stream skips white space,
  accepts a sign, reads hexadecimal digits up to the first other character, and stores 0 when there
  is none.  When nothing but white space is left the stream fails before it stores, and the
  uninitialised \<^verbatim>\<open>element\<close>, the parameter \<^verbatim>\<open>junk\<close>, is copied.
\<close>

definition hex_digits_val :: "string \<Rightarrow> byte" where
  "hex_digits_val ds = foldl (\<lambda>v c. push_bit 4 v OR (case hex_val c of None \<Rightarrow> 0 | Some d \<Rightarrow> d)) 0
                         (takeWhile (\<lambda>c. hex_val c \<noteq> None) ds)"

definition hex_extract :: "byte \<Rightarrow> string \<Rightarrow> byte" where
  "hex_extract junk s = (case dropWhile isspace s of
     [] \<Rightarrow> junk
   | c # cs \<Rightarrow> if c = CHR ''-'' then - hex_digits_val cs
               else if c = CHR ''+'' then hex_digits_val cs
               else hex_digits_val (c # cs))"

fun hex_to_bin :: "byte \<Rightarrow> string \<Rightarrow> byte list \<Rightarrow> nat \<Rightarrow> byte list option" where
  "hex_to_bin junk [] ret pos = Some ret"
| "hex_to_bin junk [c] ret pos = poke ret pos [hex_extract junk [c]]"
| "hex_to_bin junk (c # d # cs) ret pos =
     (case poke ret pos [hex_extract junk [c, d]] of
        None \<Rightarrow> None
      | Some ret' \<Rightarrow> hex_to_bin junk cs ret' (pos + 1))"


text \<open>A string whose pieces are joined by a separator they do not contain splits into them again.\<close>

definition piece :: "char \<Rightarrow> string \<Rightarrow> bool" where
  "piece sep p \<longleftrightarrow> sep \<notin> set p \<and> NUL \<notin> set p"

lemma split_loop_piece:
  "piece sep p \<Longrightarrow> sep \<noteq> NUL \<Longrightarrow>
   split_loop (\<lambda>c. c = sep) False flag pre (p @ sep # cs) =
     (pre @ p) # split_loop (\<lambda>c. c = sep) False True [] cs"
  by (induction p arbitrary: pre) (auto simp: piece_def)

lemma split_loop_last:
  "piece sep p \<Longrightarrow> split_loop (\<lambda>c. c = sep) False flag pre p = [pre @ p]"
  by (induction p arbitrary: pre) (auto simp: piece_def)

lemma split_loop_join:
  "ps \<noteq> [] \<Longrightarrow> list_all (piece sep) ps \<Longrightarrow> sep \<noteq> NUL \<Longrightarrow>
   split_loop (\<lambda>c. c = sep) False flag [] (join [sep] ps) = ps"
  by (induction "[sep]" ps arbitrary: flag rule: join.induct)
     (simp_all add: split_loop_piece split_loop_last)

lemma split_join:
  "join [sep] ps \<noteq> [] \<Longrightarrow> list_all (piece sep) ps \<Longrightarrow> sep \<noteq> NUL \<Longrightarrow>
   split (join [sep] ps) sep = ps"
  by (cases ps) (simp_all add: split_str_def split_loop_join)

lemma join_append_one:
  "xs \<noteq> [] \<Longrightarrow> join sep (xs @ [x]) = join sep xs @ sep @ x"
  by (induction sep xs rule: join.induct) auto

text \<open>Hexadecimal digits.\<close>

lemma of_char_small: "n < 256 \<Longrightarrow> (of_char (char_of n) :: nat) = n"
  by (simp add: of_char_of)

lemma hex_digit_code:
  assumes "h < 16"
  shows "(of_char (hex_digit h) :: nat) = (if unat h < 10 then unat h + 48 else unat h + 55)"
proof -
  have "unat h < 16" using assms by (simp add: word_less_nat_alt)
  then show ?thesis by (simp add: hex_digit_def word_le_nat_alt of_char_small)
qed

lemma tolower_digit_code:
  assumes "h < 16"
  shows "(of_char (tolower (hex_digit h)) :: nat) = (if unat h < 10 then unat h + 48 else unat h + 87)"
proof -
  have "unat h < 16" using assms by (simp add: word_less_nat_alt)
  then show ?thesis using hex_digit_code[OF assms] by (simp add: tolower_def of_char_small)
qed

lemma hex_val_hex_digit [simp]:
  assumes "h < 16"
  shows "hex_val (hex_digit h) = Some h" "hex_val (tolower (hex_digit h)) = Some h"
proof -
  have "unat h < 16" using assms by (simp add: word_less_nat_alt)
  then show "hex_val (hex_digit h) = Some h" "hex_val (tolower (hex_digit h)) = Some h"
    using hex_digit_code[OF assms] tolower_digit_code[OF assms] by (simp_all add: hex_val_def)
qed

lemma hex_val_range:
  "hex_val c \<noteq> None \<Longrightarrow> 48 \<le> (of_char c :: nat) \<and> (of_char c :: nat) \<noteq> 58"
  by (auto simp: hex_val_def Let_def split: if_splits)

lemma hex_val_plain:
  assumes "hex_val c \<noteq> None"
  shows "\<not> isspace c" "c \<noteq> CHR ''-''" "c \<noteq> CHR ''+''" "c \<noteq> CHR '':''" "c \<noteq> CHR '',''" "c \<noteq> NUL"
  using hex_val_range[OF assms] by (auto simp: isspace_def NUL_def)

lemma low_nibble [simp]: "(c AND 15 :: byte) < 16"
  using and_mask_less_size[of 4 c] by (simp add: mask_eq_exp_minus_1 word_size)

lemma nibbles_join:
  fixes c :: byte
  shows "push_bit 4 (drop_bit 4 c AND 15) OR (c AND 15) = c"
proof -
  have m: "(15 :: byte) = mask 4" by (simp add: mask_eq_exp_minus_1)
  show ?thesis
    unfolding m by (rule bit_word_eqI) (auto simp: bit_simps)
qed

lemmas nibbles_join_simps [simp] = nibbles_join nibbles_join[simplified]

lemma hex2bin_loop_dumphex:
  "even count \<Longrightarrow> hex2bin_loop count l (dumphex bs) bin = bin @ bs"
  by (induction bs arbitrary: count l bin) (simp_all add: mod2_eq_if)

lemma length_dumphex [simp]: "length (dumphex bs) = 2 * length bs"
  by (induction bs) auto

lemma dumphex_append [simp]: "dumphex (xs @ ys) = dumphex xs @ dumphex ys"
  by (induction xs) auto

lemma hex_extract_byte [simp]:
  fixes b :: byte
  shows "hex_extract junk [tolower (hex_digit (drop_bit 4 b AND 15)), tolower (hex_digit (b AND 15))] = b"
proof -
  let ?h = "tolower (hex_digit (drop_bit 4 b AND 15))" and ?l = "tolower (hex_digit (b AND 15))"
  have "hex_val ?h = Some (drop_bit 4 b AND 15)" "hex_val ?l = Some (b AND 15)" by simp_all
  then show ?thesis
    using hex_val_plain[of ?h] by (simp add: hex_extract_def hex_digits_val_def)
qed

lemma hex_to_bin_dumphex:
  "pos + length bs \<le> length ret \<Longrightarrow> hex_to_bin junk (map tolower (dumphex bs)) ret pos = poke ret pos bs"
proof (induction bs arbitrary: ret pos)
  case Nil
  then show ?case by (simp add: poke_def)
next
  case (Cons b bs)
  let ?r = "take pos ret @ [b] @ drop (pos + 1) ret"
  have "poke ret pos [b] = Some ?r" using Cons.prems by (simp add: poke_def)
  moreover have "hex_to_bin junk (map tolower (dumphex bs)) ?r (pos + 1) = poke ?r (pos + 1) bs"
    using Cons.prems by (intro Cons.IH) simp
  moreover have "poke ?r (pos + 1) bs = poke ret pos (b # bs)"
    using Cons.prems by (simp add: poke_def add.commute)
  ultimately show ?case by simp
qed

lemma dumphex_plain: "list_all (\<lambda>c. hex_val c \<noteq> None) (map tolower (dumphex bs))"
  by (induction bs) simp_all

lemma dumphex_lower_no_char:
  "hex_val c = None \<Longrightarrow> c \<notin> set (map tolower (dumphex bs))"
  using dumphex_plain[of bs] by (auto simp: list_all_iff simp del: set_map)

lemma dumphex_inj:
  assumes "dumphex xs = dumphex ys"
  shows "xs = ys"
proof -
  have "[] @ xs = hex2bin_loop 0 0 (dumphex ys) []"
    unfolding assms[symmetric] by (rule hex2bin_loop_dumphex[symmetric]) (rule even_zero)
  also have "\<dots> = [] @ ys" by (rule hex2bin_loop_dumphex) (rule even_zero)
  finally show ?thesis by simp
qed

end
