(* ===== verification/OrderedMap.thy ===== *)
theory OrderedMap
  imports Main
begin

text \<open>
  \<^verbatim>\<open>std::map\<close>: an association list kept in the strict order of its keys, which is the order an
  iterator visits it.  \<^verbatim>\<open>omap_put\<close> is assignment through \<^verbatim>\<open>operator[]\<close>, \<^verbatim>\<open>omap_emplace\<close> is \<^verbatim>\<open>emplace\<close>
  (which leaves an existing entry alone) and \<^verbatim>\<open>omap_erase\<close> is \<^verbatim>\<open>erase\<close> of a key; \<^verbatim>\<open>find\<close> is
  \<^const>\<open>map_of\<close>.  The contract of the container is the locale \<^verbatim>\<open>dictionary\<close>.
\<close>

fun omap_put :: "'k :: linorder \<Rightarrow> 'v \<Rightarrow> ('k \<times> 'v) list \<Rightarrow> ('k \<times> 'v) list" where
  "omap_put k v [] = [(k, v)]"
| "omap_put k v ((k', v') # m) =
     (if k < k' then (k, v) # (k', v') # m
      else if k = k' then (k, v) # m
      else (k', v') # omap_put k v m)"

definition omap_emplace :: "'k :: linorder \<Rightarrow> 'v \<Rightarrow> ('k \<times> 'v) list \<Rightarrow> ('k \<times> 'v) list" where
  "omap_emplace k v m = (if map_of m k = None then omap_put k v m else m)"

definition omap_erase :: "'k :: linorder \<Rightarrow> ('k \<times> 'v) list \<Rightarrow> ('k \<times> 'v) list" where
  "omap_erase k m = filter (\<lambda>kv. fst kv \<noteq> k) m"

definition omap_inv :: "('k :: linorder \<times> 'v) list \<Rightarrow> bool" where
  "omap_inv m \<longleftrightarrow> sorted_wrt (<) (map fst m)"

locale dictionary =
  fixes inv :: "'m \<Rightarrow> bool"
    and empty :: 'm
    and look :: "'m \<Rightarrow> 'k \<Rightarrow> 'v option"
    and put :: "'k \<Rightarrow> 'v \<Rightarrow> 'm \<Rightarrow> 'm"
    and erase :: "'k \<Rightarrow> 'm \<Rightarrow> 'm"
  assumes inv_empty: "inv empty"
    and look_empty: "look empty k = None"
    and inv_put: "inv m \<Longrightarrow> inv (put k v m)"
    and look_put: "inv m \<Longrightarrow> look (put k v m) k' = (if k' = k then Some v else look m k')"
    and inv_erase: "inv m \<Longrightarrow> inv (erase k m)"
    and look_erase: "inv m \<Longrightarrow> look (erase k m) k' = (if k' = k then None else look m k')"
begin

definition build :: "('k \<times> 'v) list \<Rightarrow> 'm" where
  "build kvs = foldl (\<lambda>m (k, v). put k v m) empty kvs"

lemma inv_build: "inv (build kvs)"
  unfolding build_def by (induction kvs rule: rev_induct) (auto simp: inv_empty inv_put split: prod.splits)

lemma build_snoc: "build (kvs @ [(k, v)]) = put k v (build kvs)"
  by (simp add: build_def)

text \<open>The last binding of a key wins.\<close>

lemma look_build: "look (build kvs) k = map_of (rev kvs) k"
proof (induction kvs rule: rev_induct)
  case Nil
  then show ?case by (simp add: build_def look_empty)
next
  case (snoc kv kvs)
  then show ?case by (cases kv) (auto simp: build_snoc look_put inv_build)
qed

lemma put_erase: "inv m \<Longrightarrow> look (erase k (put k v m)) = look (erase k m)"
  by (auto simp: look_erase inv_put look_put)

end

lemma map_of_omap_put [simp]: "map_of (omap_put k v m) = (map_of m)(k \<mapsto> v)"
  by (induction k v m rule: omap_put.induct) (auto simp: fun_upd_twist)

lemma keys_omap_put [simp]: "set (map fst (omap_put k v m)) = insert k (set (map fst m))"
  by (induction k v m rule: omap_put.induct) auto

lemma omap_inv_put: "omap_inv m \<Longrightarrow> omap_inv (omap_put k v m)"
  unfolding omap_inv_def
proof (induction k v m rule: omap_put.induct)
  case (2 k v k' v' m)
  have "\<forall>x\<in>set (map fst (omap_put k v m)). k' < x" if "k' < k"
    using 2(2) that by (simp only: keys_omap_put) (auto simp del: set_map)
  with 2 show ?case by (auto simp del: keys_omap_put)
qed simp

lemma map_of_omap_erase [simp]: "map_of (omap_erase k m) k' = (if k' = k then None else map_of m k')"
  by (induction m) (auto simp: omap_erase_def)

lemma omap_inv_erase: "omap_inv m \<Longrightarrow> omap_inv (omap_erase k m)"
  unfolding omap_inv_def omap_erase_def by (induction m) auto

lemma omap_inv_Nil [simp]: "omap_inv []"
  by (simp add: omap_inv_def)

lemma omap_inv_emplace: "omap_inv m \<Longrightarrow> omap_inv (omap_emplace k v m)"
  by (simp add: omap_emplace_def omap_inv_put)

lemma omap_mem: "omap_inv m \<Longrightarrow> (k, v) \<in> set m \<longleftrightarrow> map_of m k = Some v"
  unfolding omap_inv_def by (metis map_of_eq_Some_iff strict_sorted_imp_sorted strict_sorted_iff)

interpretation om: dictionary omap_inv "[]" map_of omap_put omap_erase
  by unfold_locales (simp_all add: omap_inv_put omap_inv_erase)

end
