(* ===== verification/GtidSet.thy ===== *)
theory GtidSet
  imports StrUtil OrderedMap "HOL-Library.Product_Lexorder" "HOL-Library.Char_ord"
    "HOL-Library.List_Lexorder" "HOL-Library.Monad_Syntax"
begin

text \<open>
  GTID sets: \<^verbatim>\<open>GtidMessage\<close> of \<^verbatim>\<open>binlog/ob_log_event.cpp\<close> with its text form, and the functions
  \<^verbatim>\<open>gtid_subset\<close> and \<^verbatim>\<open>gtid_subtract\<close> of \<^verbatim>\<open>binlog/binlog-instance/binlog_func.cpp\<close> that a client calls
  through \<^verbatim>\<open>SELECT\<close>.  \<^verbatim>\<open>_gtid_uuid\<close> is a pointer: \<^verbatim>\<open>None\<close> is the null pointer.  The value \<^verbatim>\<open>None\<close> of an
  operation is an access outside an allocation or through the null pointer; \<^verbatim>\<open>mem\<close> is what a fresh
  block of \<^verbatim>\<open>malloc\<close> holds and \<^verbatim>\<open>junk\<close> an uninitialised local.
\<close>

type_synonym txn_range = "u64 \<times> u64"

abbreviation OMS_OK :: int where "OMS_OK \<equiv> 0"
abbreviation OMS_FAILED :: int where "OMS_FAILED \<equiv> - 1"

definition SERVER_UUID_LEN :: nat where
  "SERVER_UUID_LEN = 16"

record GtidMessage =
  gm_gtid_uuid :: "byte list option"
  gm_gtid_txn_id_intervals :: u64
  gm_txn_range :: "txn_range list"

definition GtidMessage_init :: GtidMessage where
  "GtidMessage_init = \<lparr>gm_gtid_uuid = None, gm_gtid_txn_id_intervals = 0, gm_txn_range = []\<rparr>"

definition uuid_hex_bin_to_str :: "byte list option \<Rightarrow> string option" where
  "uuid_hex_bin_to_str uuid_hex_bin = do {
     uuid \<leftarrow> uuid_hex_bin;
     bs \<leftarrow> peek SERVER_UUID_LEN uuid 0;
     Some (dumphex bs) }"

definition get_gtid_uuid_str :: "GtidMessage \<Rightarrow> string option" where
  "get_gtid_uuid_str m = uuid_hex_bin_to_str (gm_gtid_uuid m)"

definition substr :: "string \<Rightarrow> nat \<Rightarrow> nat \<Rightarrow> string" where
  "substr s pos n = take n (drop pos s)"

definition with_delim :: "string \<Rightarrow> string" where
  "with_delim uuid_str =
     map tolower (substr uuid_str 0 8) @ ''-'' @ map tolower (substr uuid_str 8 4) @ ''-'' @
     map tolower (substr uuid_str 12 4) @ ''-'' @ map tolower (substr uuid_str 16 4) @ ''-'' @
     map tolower (substr uuid_str 20 12)"

definition uuid_hex_bin_to_str_with_delim :: "GtidMessage \<Rightarrow> string option" where
  "uuid_hex_bin_to_str_with_delim m = map_option with_delim (get_gtid_uuid_str m)"

definition format_range :: "txn_range \<Rightarrow> string" where
  "format_range i =
     (if snd i \<noteq> fst i then '':'' @ to_string (unat (fst i)) @ ''-'' @ to_string (unat (snd i))
      else '':'' @ to_string (unat (fst i)))"

definition format_string :: "GtidMessage \<Rightarrow> string option" where
  "format_string m = do {
     uuid \<leftarrow> uuid_hex_bin_to_str_with_delim m;
     Some (uuid @ concat (map format_range (gm_txn_range m))) }"

definition gtid_format :: "byte list \<Rightarrow> u64 \<Rightarrow> string option" where
  "gtid_format gtid_uuid gtid_txn_id = do {
     bs \<leftarrow> peek 16 gtid_uuid 0;
     Some (with_delim (dumphex bs) @ '':'' @ to_string (unat gtid_txn_id)) }"

definition uuid_str_to_hex_bin ::
  "byte \<Rightarrow> byte list \<Rightarrow> string \<Rightarrow> byte list option \<Rightarrow> (int \<times> byte list option) option" where
  "uuid_str_to_hex_bin junk mem uuid_str uuid_hex_bin =
     (let parts = split uuid_str CHR ''-'' in
      if length parts = 5 then do {
        b0 \<leftarrow> hex_to_bin junk (parts ! 0) mem 0;
        b1 \<leftarrow> hex_to_bin junk (parts ! 1) b0 4;
        b2 \<leftarrow> hex_to_bin junk (parts ! 2) b1 6;
        b3 \<leftarrow> hex_to_bin junk (parts ! 3) b2 8;
        b4 \<leftarrow> hex_to_bin junk (parts ! 4) b3 10;
        Some (OMS_OK, Some b4) }
      else Some (OMS_FAILED, uuid_hex_bin))"

definition set_gtid_uuid :: "byte \<Rightarrow> byte list \<Rightarrow> string \<Rightarrow> GtidMessage \<Rightarrow> (int \<times> GtidMessage) option" where
  "set_gtid_uuid junk mem gtid_uuid m = do {
     (rc, uuid) \<leftarrow> uuid_str_to_hex_bin junk mem gtid_uuid (gm_gtid_uuid m);
     Some (rc, m\<lparr>gm_gtid_uuid := uuid\<rparr>) }"

text \<open>The loop of \<^verbatim>\<open>merge_txn_range\<close>; \<^verbatim>\<open>start\<close> and \<^verbatim>\<open>fin\<close> are the pending range, \<^verbatim>\<open>start = 0\<close> before the first.\<close>

fun merge_loop :: "u64 \<Rightarrow> u64 \<Rightarrow> txn_range list \<Rightarrow> txn_range list" where
  "merge_loop start fin [] = (if start \<noteq> 0 then [(start, fin)] else [])"
| "merge_loop start fin (r # rs) =
     (if start = 0 then merge_loop (fst r) (snd r) rs
      else if fst r \<le> fin + 1 then merge_loop start (max fin (snd r)) rs
      else (start, fin) # merge_loop (fst r) (snd r) rs)"

definition merge_txn_range :: "GtidMessage \<Rightarrow> GtidMessage \<Rightarrow> GtidMessage" where
  "merge_txn_range message target =
     target\<lparr>gm_txn_range := merge_loop 0 0 (gm_txn_range message @ gm_txn_range target)\<rparr>"

text \<open>The ranges of \<^verbatim>\<open>deserialize_gtid_set\<close>, with the flag of its \<^verbatim>\<open>switch\<close>: a part that is neither one
  number nor two ends the loop with the ranges read so far.\<close>

fun parse_ranges :: "string list \<Rightarrow> txn_range list \<Rightarrow> bool \<times> txn_range list" where
  "parse_ranges [] acc = (True, acc)"
| "parse_ranges (p # ps) acc = (case split p CHR ''-'' of
     [a] \<Rightarrow> parse_ranges ps (acc @ [(word_of_int (atoll a), word_of_int (atoll a))])
   | [a, b] \<Rightarrow> parse_ranges ps (acc @ [(word_of_int (atoll a), word_of_int (atoll b))])
   | _ \<Rightarrow> (False, acc))"

definition deserialize_gtid_set ::
  "byte \<Rightarrow> byte list \<Rightarrow> string \<Rightarrow> GtidMessage \<Rightarrow> (int \<times> GtidMessage) option" where
  "deserialize_gtid_set junk mem gtid_set m =
     (let parts = split gtid_set CHR '':'' in
      if length parts \<le> 1 then Some (OMS_FAILED, m)
      else do {
        (rc, m1) \<leftarrow> set_gtid_uuid junk mem (parts ! 0) m;
        if rc \<noteq> OMS_OK then Some (OMS_FAILED, m1)
        else (let (ok, rs) = parse_ranges (tl parts) (gm_txn_range m1);
                  m2 = m1\<lparr>gm_txn_range := rs\<rparr>
              in if ok then Some (OMS_OK, merge_txn_range m2 m2) else Some (OMS_FAILED, m2)) })"

definition get_gtid_length :: "GtidMessage \<Rightarrow> u64" where
  "get_gtid_length m = of_nat SERVER_UUID_LEN + 8 + of_nat (length (gm_txn_range m)) * 16"

text \<open>\<^verbatim>\<open>copy_from\<close>, for an object other than the argument; the copy reads 16 bytes of the source's uuid.\<close>

definition copy_from :: "GtidMessage \<Rightarrow> GtidMessage \<Rightarrow> GtidMessage option" where
  "copy_from gtid_message this = do {
     uuid \<leftarrow> gm_gtid_uuid gtid_message;
     bs \<leftarrow> peek SERVER_UUID_LEN uuid 0;
     Some (this\<lparr>gm_gtid_uuid := Some bs,
                gm_gtid_txn_id_intervals := gm_gtid_txn_id_intervals gtid_message,
                gm_txn_range := gm_txn_range gtid_message\<rparr>) }"

subsection \<open>\<^verbatim>\<open>BinlogFunction\<close>\<close>

text \<open>\<^verbatim>\<open>BinlogFunction::merge_txn_range\<close> is a copy of \<^verbatim>\<open>GtidMessage::merge_txn_range\<close>.\<close>

definition func_merge_txn_range :: "GtidMessage \<Rightarrow> GtidMessage \<Rightarrow> GtidMessage" where
  "func_merge_txn_range message target =
     target\<lparr>gm_txn_range := merge_loop 0 0 (gm_txn_range message @ gm_txn_range target)\<rparr>"

type_synonym gtid_messages = "(string \<times> GtidMessage) list"

text \<open>\<^verbatim>\<open>mem i\<close> is the block allocated for the \<^verbatim>\<open>i\<close>-th set.\<close>

fun deserialize_sets ::
  "byte \<Rightarrow> (nat \<Rightarrow> byte list) \<Rightarrow> nat \<Rightarrow> string list \<Rightarrow> gtid_messages \<Rightarrow> gtid_messages option" where
  "deserialize_sets junk mem i [] gtid_message = Some gtid_message"
| "deserialize_sets junk mem i (gtid_set # sets) gtid_message = do {
     (rc, message) \<leftarrow> deserialize_gtid_set junk (mem i) gtid_set GtidMessage_init;
     key \<leftarrow> get_gtid_uuid_str message;
     deserialize_sets junk mem (Suc i) sets
       (case map_of gtid_message key of
          Some old \<Rightarrow> omap_put key (func_merge_txn_range message old) gtid_message
        | None \<Rightarrow> omap_put key message gtid_message) }"

definition deserialization ::
  "byte \<Rightarrow> (nat \<Rightarrow> byte list) \<Rightarrow> string \<Rightarrow> gtid_messages option" where
  "deserialization junk mem gtid_str = deserialize_sets junk mem 0 (split gtid_str CHR '','') []"

definition is_subset :: "txn_range list \<Rightarrow> txn_range list \<Rightarrow> bool" where
  "is_subset sub target =
     list_all (\<lambda>s. list_ex (\<lambda>t. fst s \<ge> fst t \<and> snd s \<le> snd t) target) sub"

fun subset_loop :: "gtid_messages \<Rightarrow> gtid_messages \<Rightarrow> int" where
  "subset_loop [] target_msg = 1"
| "subset_loop ((key, m) # sub_msg) target_msg = (case map_of target_msg key of
     None \<Rightarrow> 0
   | Some target \<Rightarrow> if \<not> is_subset (gm_txn_range m) (gm_txn_range target) then 0
                     else subset_loop sub_msg target_msg)"

text \<open>The blocks of the two parses are \<^verbatim>\<open>mem 0\<close> and \<^verbatim>\<open>mem 1\<close>.\<close>

definition gtid_subset :: "byte \<Rightarrow> (nat \<Rightarrow> nat \<Rightarrow> byte list) \<Rightarrow> string \<Rightarrow> string \<Rightarrow> int option" where
  "gtid_subset junk mem set_sub set_target = do {
     sub_msg \<leftarrow> deserialization junk (mem 0) set_sub;
     target_msg \<leftarrow> deserialization junk (mem 1) set_target;
     Some (subset_loop sub_msg target_msg) }"

text \<open>
  One round of the inner loop of \<^verbatim>\<open>difference\<close>, for the target range \<^verbatim>\<open>(c, d)\<close>.  Both
  \<^verbatim>\<open>emplace_back\<close> calls are followed by \<^verbatim>\<open>break\<close>, so the loop never reaches what it appends.
\<close>

fun dig :: "txn_range \<Rightarrow> txn_range list \<Rightarrow> txn_range list" where
  "dig (c, d) [] = []"
| "dig (c, d) ((a, b) # os) =
     (if d < a then (a, b) # os
      else if c > b then (a, b) # dig (c, d) os
      else if d < b \<and> c > a then (d + 1, b) # os @ [(a, c - 1)]
      else if d \<ge> b then
        (if c \<le> a then (0, 0) # dig (c, d) os
         else (a, c + 1) # dig (c, d) os)
      else if a \<ge> c then (d + 1, b) # os
      else (a, c - 1) # os @ [(d + 1, b)])"

definition difference :: "txn_range list \<Rightarrow> txn_range list \<Rightarrow> txn_range list \<Rightarrow> txn_range list" where
  "difference origin target result =
     result @ filter (\<lambda>(a, b). a \<noteq> 0 \<and> b \<noteq> 0) (foldl (\<lambda>os t. dig t os) (sort origin) (sort target))"

definition result_message :: "GtidMessage \<Rightarrow> txn_range list \<Rightarrow> GtidMessage option" where
  "result_message origin rs = do {
     uuid \<leftarrow> gm_gtid_uuid origin;
     bs \<leftarrow> peek SERVER_UUID_LEN uuid 0;
     Some (GtidMessage_init\<lparr>gm_gtid_uuid := Some bs, gm_txn_range := rs\<rparr>) }"

fun subtract_loop :: "gtid_messages \<Rightarrow> gtid_messages \<Rightarrow> gtid_messages \<Rightarrow> gtid_messages option" where
  "subtract_loop [] target_msg result_msg = Some result_msg"
| "subtract_loop ((key, m) # origin_msg) target_msg result_msg = (case map_of target_msg key of
     None \<Rightarrow> do {
       tmp_msg \<leftarrow> result_message m (gm_txn_range m);
       subtract_loop origin_msg target_msg (omap_put key tmp_msg result_msg) }
   | Some target \<Rightarrow>
       (let diff = difference (gm_txn_range m) (gm_txn_range target) []
        in if diff \<noteq> [] then do {
             tmp_msg \<leftarrow> result_message m (sort diff);
             subtract_loop origin_msg target_msg (omap_put key tmp_msg result_msg) }
           else subtract_loop origin_msg target_msg result_msg))"

fun format_all :: "nat \<Rightarrow> gtid_messages \<Rightarrow> string \<Rightarrow> string option" where
  "format_all index [] result = Some result"
| "format_all index ((key, m) # ms) result = do {
     s \<leftarrow> format_string m;
     format_all (Suc index) ms ((if index > 0 then result @ '','' else result) @ s) }"

definition gtid_subtract :: "byte \<Rightarrow> (nat \<Rightarrow> nat \<Rightarrow> byte list) \<Rightarrow> string \<Rightarrow> string \<Rightarrow> string \<Rightarrow> string option" where
  "gtid_subtract junk mem set_origin set_target result = do {
     origin_msg \<leftarrow> deserialization junk (mem 0) set_origin;
     target_msg \<leftarrow> deserialization junk (mem 1) set_target;
     result_msg \<leftarrow> subtract_loop origin_msg target_msg [];
     format_all 0 result_msg result }"


subsection \<open>The set a list of ranges stands for\<close>

definition ids :: "txn_range list \<Rightarrow> u64 set" where
  "ids rs = (\<Union>r\<in>set rs. {fst r..snd r})"

definition valid_range :: "txn_range \<Rightarrow> bool" where
  "valid_range r \<longleftrightarrow> 0 < fst r \<and> fst r \<le> snd r \<and> snd r < - 1"

definition by_start :: "txn_range list \<Rightarrow> bool" where
  "by_start rs = sorted_wrt (\<lambda>r s. fst r \<le> fst s) rs"

definition canonical :: "txn_range list \<Rightarrow> bool" where
  "canonical rs \<longleftrightarrow> list_all valid_range rs \<and> sorted_wrt (\<lambda>r s. snd r + 1 < fst s) rs"

lemma ids_simps [simp]:
  "ids [] = {}" "ids (r # rs) = {fst r..snd r} \<union> ids rs" "ids (rs @ ss) = ids rs \<union> ids ss"
  by (auto simp: ids_def)

lemma ids_iff: "x \<in> ids rs \<longleftrightarrow> list_ex (\<lambda>r. fst r \<le> x \<and> x \<le> snd r) rs"
  by (auto simp: ids_def list_ex_iff)

lemma word_succ_le: "(e :: u64) < - 1 \<Longrightarrow> e < x \<longleftrightarrow> e + 1 \<le> x"
  by unat_arith

lemma unat_max_u64 [simp]: "unat (- 1 :: u64) = 18446744073709551615"
  by (simp add: unsigned_minus_1_eq_mask mask_eq_exp_minus_1)

lemma range_union:
  fixes s :: u64
  assumes "s \<le> a" "a \<le> e + 1" "e < - 1" "a \<le> b" "s \<le> e"
  shows "{s..e} \<union> {a..b} = {s..max e b}"
proof (rule set_eqI)
  fix x
  have "a \<le> x" if "e < x" using that assms(2,3) word_succ_le[of e x] by auto
  then show "x \<in> {s..e} \<union> {a..b} \<longleftrightarrow> x \<in> {s..max e b}"
    using assms by (cases "x \<le> e") (auto simp: max_def)
qed

lemma canonical_Cons:
  "canonical (r # rs) \<longleftrightarrow> valid_range r \<and> canonical rs \<and> list_all (\<lambda>s. snd r + 1 < fst s) rs"
  by (auto simp: canonical_def list_all_iff)

lemma by_start_Cons:
  "by_start (r # rs) \<longleftrightarrow> by_start rs \<and> list_all (\<lambda>s. fst r \<le> fst s) rs"
  by (auto simp: by_start_def list_all_iff)

lemma merge_loop_ids:
  assumes "0 < s" "s \<le> e" "e < - 1" "list_all valid_range rs" "list_all (\<lambda>r. s \<le> fst r) rs" "by_start rs"
  shows "ids (merge_loop s e rs) = {s..e} \<union> ids rs \<and> canonical (merge_loop s e rs) \<and>
         list_all (\<lambda>r. s \<le> fst r) (merge_loop s e rs)"
  using assms
proof (induction rs arbitrary: s e)
  case Nil
  then show ?case by (auto simp: canonical_def valid_range_def)
next
  case (Cons r rs)
  obtain a b where r: "r = (a, b)" by (cases r)
  have v: "0 < a" "a \<le> b" "b < - 1" "s \<le> a" using Cons.prems by (auto simp: valid_range_def r)
  have rs: "list_all valid_range rs" "by_start rs" "list_all (\<lambda>r. a \<le> fst r) rs" "list_all (\<lambda>r. s \<le> fst r) rs"
    using Cons.prems by (auto simp: by_start_Cons r)
  show ?case
  proof (cases "a \<le> e + 1")
    case True
    then have "ids (merge_loop s (max e b) rs) = {s..max e b} \<union> ids rs \<and>
      canonical (merge_loop s (max e b) rs) \<and> list_all (\<lambda>r. s \<le> fst r) (merge_loop s (max e b) rs)"
      using Cons.prems v rs by (intro Cons.IH) (auto simp: max_def)
    then show ?thesis using True Cons.prems range_union[of s a e b] v by (auto simp: r)
  next
    case False
    have ih: "ids (merge_loop a b rs) = {a..b} \<union> ids rs \<and> canonical (merge_loop a b rs) \<and>
      list_all (\<lambda>r. a \<le> fst r) (merge_loop a b rs)"
      using v rs by (intro Cons.IH) auto
    moreover have "list_all (\<lambda>r. e + 1 < fst r) (merge_loop a b rs)"
      using ih False by (auto simp: list_all_iff)
    moreover have "list_all (\<lambda>r. s \<le> fst r) (merge_loop a b rs)"
      using ih v by (auto simp: list_all_iff)
    ultimately show ?thesis
      using False Cons.prems by (auto simp: r canonical_Cons valid_range_def)
  qed
qed

lemma merge_ranges_ids:
  assumes "list_all valid_range rs" "by_start rs"
  shows "ids (merge_loop 0 0 rs) = ids rs" "canonical (merge_loop 0 0 rs)"
proof -
  have "ids (merge_loop 0 0 rs) = ids rs \<and> canonical (merge_loop 0 0 rs)"
  proof (cases rs)
    case (Cons r rs')
    then show ?thesis
      using merge_loop_ids[of "fst r" "snd r" rs'] assms by (auto simp: by_start_Cons valid_range_def)
  qed (simp add: canonical_def)
  then show "ids (merge_loop 0 0 rs) = ids rs" "canonical (merge_loop 0 0 rs)" by simp_all
qed

lemma merge_loop_canonical:
  "canonical (r # rs) \<Longrightarrow> merge_loop (fst r) (snd r) rs = r # rs"
proof (induction rs arbitrary: r)
  case (Cons r' rs)
  then show ?case by (auto simp: canonical_Cons valid_range_def)
qed (auto simp: canonical_def valid_range_def)

lemma merge_canonical: "canonical rs \<Longrightarrow> merge_loop 0 0 rs = rs"
  by (cases rs) (auto simp: merge_loop_canonical)

lemma merge_loop_absorb:
  "0 < s \<Longrightarrow> e < - 1 \<Longrightarrow> list_all (\<lambda>r. fst r \<le> snd r \<and> snd r \<le> e) ys \<Longrightarrow>
   merge_loop s e ys = [(s, e)]"
proof (induction ys)
  case (Cons r ys)
  then have "fst r \<le> e" "snd r \<le> e" by auto
  then have "fst r \<le> e + 1" using Cons.prems(2) word_succ_le[of e "e + 1"] by auto
  then show ?case using Cons \<open>snd r \<le> e\<close> by (auto simp: max_def)
qed auto

lemma merge_loop_append_absorb:
  assumes "0 < s" "e < - 1" "list_all valid_range xs"
    "list_all (\<lambda>r. fst r \<le> snd r \<and> (snd r \<le> e \<or> list_ex (\<lambda>x. snd r \<le> snd x) xs)) ys"
  shows "merge_loop s e (xs @ ys) = merge_loop s e xs"
  using assms
proof (induction xs arbitrary: s e)
  case Nil
  then show ?case by (simp add: merge_loop_absorb)
next
  case (Cons x xs)
  obtain a b where x: "x = (a, b)" by (cases x)
  have v: "0 < a" "a \<le> b" "b < - 1" using Cons.prems by (auto simp: valid_range_def x)
  show ?case
  proof (cases "a \<le> e + 1")
    case True
    have "merge_loop s (max e b) (xs @ ys) = merge_loop s (max e b) xs"
      using Cons.prems v by (intro Cons.IH) (auto simp: list_all_iff x max_def)
    then show ?thesis using True Cons.prems by (auto simp: x)
  next
    case False
    then have "e < b" using Cons.prems(2) v word_succ_le[of e a] by auto
    then have "merge_loop a b (xs @ ys) = merge_loop a b xs"
      using Cons.prems v by (intro Cons.IH) (auto simp: list_all_iff x)
    then show ?thesis using False Cons.prems by (auto simp: x)
  qed
qed

text \<open>\<^verbatim>\<open>deserialize_gtid_set\<close> merges its ranges with themselves, which changes nothing of the result.\<close>

lemma merge_twice:
  assumes "list_all valid_range rs"
  shows "merge_loop 0 0 (rs @ rs) = merge_loop 0 0 rs"
proof (cases rs)
  case (Cons r rs')
  have "merge_loop (fst r) (snd r) (rs' @ r # rs') = merge_loop (fst r) (snd r) rs'"
    using assms Cons by (intro merge_loop_append_absorb) (auto simp: valid_range_def list_all_iff list_ex_iff)
  then show ?thesis using Cons assms by (auto simp: valid_range_def)
qed simp


subsection \<open>The text form\<close>

definition range_text :: "txn_range \<Rightarrow> string" where
  "range_text r = (if snd r \<noteq> fst r then to_string (unat (fst r)) @ ''-'' @ to_string (unat (snd r))
                   else to_string (unat (fst r)))"

definition gtid_text :: "byte list \<Rightarrow> txn_range list \<Rightarrow> string" where
  "gtid_text uuid rs = join '':'' (with_delim (dumphex uuid) # map range_text rs)"

definition message :: "byte list \<Rightarrow> u64 \<Rightarrow> txn_range list \<Rightarrow> GtidMessage" where
  "message uuid n rs = \<lparr>gm_gtid_uuid = Some uuid, gm_gtid_txn_id_intervals = n, gm_txn_range = rs\<rparr>"

lemma join_concat: "join [c] (p # ps) = p @ concat (map ((#) c) ps)"
  by (induction ps arbitrary: p) auto

lemma format_range_text: "format_range = (\<lambda>r. CHR '':'' # range_text r)"
  by (simp add: format_range_def range_text_def fun_eq_iff)

lemma with_delim_not_Nil [simp]: "with_delim s \<noteq> []"
  by (simp add: with_delim_def)

lemma format_string_message:
  "length uuid = 16 \<Longrightarrow> format_string (message uuid n rs) = Some (gtid_text uuid rs)"
  by (simp add: format_string_def uuid_hex_bin_to_str_with_delim_def get_gtid_uuid_str_def
      uuid_hex_bin_to_str_def message_def gtid_text_def join_concat SERVER_UUID_LEN_def
      format_range_text o_def)

lemma get_gtid_uuid_str_message [simp]:
  "length uuid = 16 \<Longrightarrow> get_gtid_uuid_str (message uuid n rs) = Some (dumphex uuid)"
  by (simp add: get_gtid_uuid_str_def uuid_hex_bin_to_str_def message_def SERVER_UUID_LEN_def)

lemma take_dumphex: "take (2 * n) (dumphex bs) = dumphex (take n bs)"
  by (induction bs arbitrary: n) (auto simp: take_Cons split: nat.splits)

lemma drop_dumphex: "drop (2 * n) (dumphex bs) = dumphex (drop n bs)"
  by (induction bs arbitrary: n) (auto simp: drop_Cons split: nat.splits)

lemma substr_dumphex:
  "substr (dumphex bs) (2 * p) (2 * n) = dumphex (take n (drop p bs))"
  by (simp only: substr_def drop_dumphex take_dumphex)

definition uuid_chunks :: "byte list \<Rightarrow> byte list list" where
  "uuid_chunks uuid = [take 4 uuid, take 2 (drop 4 uuid), take 2 (drop 6 uuid), take 2 (drop 8 uuid),
                       take 6 (drop 10 uuid)]"

lemma with_delim_join:
  "with_delim (dumphex uuid) = join ''-'' (map (\<lambda>c. map tolower (dumphex c)) (uuid_chunks uuid))"
  using substr_dumphex[of uuid 0 4] substr_dumphex[of uuid 4 2] substr_dumphex[of uuid 6 2]
    substr_dumphex[of uuid 8 2] substr_dumphex[of uuid 10 6]
  by (simp add: with_delim_def uuid_chunks_def)

lemma hex_piece: "hex_val sep = None \<Longrightarrow> piece sep (map tolower (dumphex c))"
  using dumphex_lower_no_char[of sep c] dumphex_lower_no_char[of NUL c]
  by (simp add: piece_def NUL_def hex_val_def del: set_map)

lemma split_with_delim:
  assumes "uuid \<noteq> []"
  shows "split (with_delim (dumphex uuid)) CHR ''-'' = map (\<lambda>c. map tolower (dumphex c)) (uuid_chunks uuid)"
  unfolding with_delim_join
  by (rule split_join) (simp_all add: uuid_chunks_def list_all_iff hex_piece hex_val_def NUL_def)

lemma to_string_piece: "\<not> isdigit sep \<Longrightarrow> piece sep (to_string n)"
  using to_string_no_char[of sep n] to_string_no_char[of NUL n]
  by (simp add: piece_def NUL_def isdigit_def)

lemma split_range_text:
  "split (range_text r) CHR ''-'' =
     (if snd r \<noteq> fst r then [to_string (unat (fst r)), to_string (unat (snd r))]
      else [to_string (unat (fst r))])"
proof -
  have p: "piece CHR ''-'' (to_string n)" for n by (rule to_string_piece) (simp add: isdigit_def)
  show ?thesis
    using split_join[of "CHR ''-''" "[to_string (unat (fst r)), to_string (unat (snd r))]"]
      split_join[of "CHR ''-''" "[to_string (unat (fst r))]"]
    by (simp add: range_text_def p NUL_def)
qed

lemma range_text_piece: "piece CHR '':'' (range_text r)" "piece CHR '','' (range_text r)"
  using to_string_piece[of "CHR '':''"] to_string_piece[of "CHR '',''"]
  by (auto simp: range_text_def piece_def isdigit_def NUL_def)

lemma with_delim_piece:
  "piece CHR '':'' (with_delim (dumphex uuid))" "piece CHR '','' (with_delim (dumphex uuid))"
  using hex_piece[of "CHR '':''"] hex_piece[of "CHR '',''"]
  by (simp_all add: with_delim_join uuid_chunks_def piece_def hex_val_def NUL_def del: set_map)

lemma split_gtid_text:
  "uuid \<noteq> [] \<Longrightarrow> split (gtid_text uuid rs) CHR '':'' = with_delim (dumphex uuid) # map range_text rs"
  unfolding gtid_text_def
  by (rule split_join)
     (simp_all add: join_concat with_delim_piece range_text_piece list_all_iff NUL_def)

definition fits_atoll :: "txn_range \<Rightarrow> bool" where
  "fits_atoll r \<longleftrightarrow> unat (fst r) < 2 ^ 63 \<and> unat (snd r) < 2 ^ 63"

lemma word_of_atoll: "unat w < 2 ^ 63 \<Longrightarrow> word_of_int (atoll (to_string (unat w))) = (w :: u64)"
  by (simp add: atoll_to_string)

lemma parse_ranges_text:
  "list_all fits_atoll rs \<Longrightarrow> parse_ranges (map range_text rs) acc = (True, acc @ rs)"
proof (induction rs arbitrary: acc)
  case (Cons r rs)
  then show ?case
    by (cases r) (auto simp: split_range_text fits_atoll_def atoll_to_string)
qed simp


lemma poke_at:
  "n = length xs \<Longrightarrow> length bs \<le> length ys \<Longrightarrow>
   poke (xs @ ys) n bs = Some ((xs @ bs) @ drop (length bs) ys)"
  by (simp add: poke_def)

lemma uuid_str_roundtrip:
  assumes "length uuid = 16" "length mem = 16"
  shows "uuid_str_to_hex_bin junk mem (with_delim (dumphex uuid)) old = Some (OMS_OK, Some uuid)"
proof -
  obtain a b c d e where u: "uuid = a @ b @ c @ d @ e"
    and l: "length a = 4" "length b = 2" "length c = 2" "length d = 2" "length e = 6"
  proof
    show "uuid = take 4 uuid @ take 2 (drop 4 uuid) @ take 2 (drop 6 uuid) @ take 2 (drop 8 uuid) @
            drop 10 uuid"
      using append_take_drop_id[of 2 "drop 4 uuid"] append_take_drop_id[of 2 "drop 6 uuid"]
        append_take_drop_id[of 2 "drop 8 uuid"] append_take_drop_id[of 4 uuid] by simp
  qed (use assms in simp_all)
  have chunks: "uuid_chunks uuid = [a, b, c, d, e]" by (simp add: uuid_chunks_def u l)
  have h: "hex_to_bin junk (map tolower (dumphex bs)) ret pos = poke ret pos bs"
    if "pos + length bs \<le> length ret" for bs ret pos
    using that by (rule hex_to_bin_dumphex)
  have "uuid \<noteq> []" using assms by auto
  then have sp: "split (with_delim (dumphex uuid)) CHR ''-'' = map (\<lambda>c. map tolower (dumphex c)) [a, b, c, d, e]"
    using split_with_delim chunks by simp
  have p0: "poke mem 0 a = Some (a @ drop 4 mem)" using poke_at[of 0 "[]" a mem] assms l by simp
  have p1: "poke (a @ drop 4 mem) 4 b = Some ((a @ b) @ drop 6 mem)"
    using poke_at[of 4 a b "drop 4 mem"] assms l by simp
  have p2: "poke ((a @ b) @ drop 6 mem) 6 c = Some ((a @ b @ c) @ drop 8 mem)"
    using poke_at[of 6 "a @ b" c "drop 6 mem"] assms l by simp
  have p3: "poke ((a @ b @ c) @ drop 8 mem) 8 d = Some ((a @ b @ c @ d) @ drop 10 mem)"
    using poke_at[of 8 "a @ b @ c" d "drop 8 mem"] assms l by simp
  have p4: "poke ((a @ b @ c @ d) @ drop 10 mem) 10 e = Some uuid"
    using poke_at[of 10 "a @ b @ c @ d" e "drop 10 mem"] assms l by (simp add: u)
  show ?thesis
    unfolding uuid_str_to_hex_bin_def sp Let_def
    using p0 p1 p2 p3 p4 assms l by (simp add: h)
qed

lemma deserialize_gtid_text:
  assumes "length uuid = 16" "length mem = 16" "rs \<noteq> []" "list_all valid_range rs" "list_all fits_atoll rs"
  shows "deserialize_gtid_set junk mem (gtid_text uuid rs) GtidMessage_init =
         Some (OMS_OK, message uuid 0 (merge_loop 0 0 rs))"
proof -
  have "uuid \<noteq> []" using assms by auto
  then show ?thesis
    using assms
    by (simp add: deserialize_gtid_set_def split_gtid_text set_gtid_uuid_def uuid_str_roundtrip
        GtidMessage_init_def parse_ranges_text merge_txn_range_def merge_twice message_def Let_def)
qed

text \<open>C13. A GTID set in normal form (positive ranges, increasing and not adjacent, each number below
  \<^verbatim>\<open>2^63\<close>, which is where \<^verbatim>\<open>atoll\<close> saturates) that \<^verbatim>\<open>format_string\<close> prints is read back unchanged by
  \<^verbatim>\<open>deserialize_gtid_set\<close> into a new object, whatever the memory it allocates held; only
  \<^verbatim>\<open>_gtid_txn_id_intervals\<close> is not restored.\<close>

theorem gtid_text_roundtrip:
  assumes "length uuid = 16" "length mem = 16" "rs \<noteq> []" "canonical rs" "list_all fits_atoll rs"
    and "format_string (message uuid n rs) = Some s"
  shows "deserialize_gtid_set junk mem s GtidMessage_init = Some (OMS_OK, message uuid 0 rs)"
  using assms deserialize_gtid_text[of uuid mem rs junk]
  by (simp add: format_string_message merge_canonical canonical_def)

text \<open>C34. For ranges that arrive in the order of their first transaction, \<^verbatim>\<open>merge_txn_range\<close> keeps
  exactly the transactions of both messages and leaves the target in normal form: no overlap, no
  adjacent ranges.\<close>

theorem merge_txn_range_keeps_ids:
  assumes "list_all valid_range (gm_txn_range m @ gm_txn_range t)" "by_start (gm_txn_range m @ gm_txn_range t)"
  shows "ids (gm_txn_range (merge_txn_range m t)) = ids (gm_txn_range m) \<union> ids (gm_txn_range t)
       \<and> canonical (gm_txn_range (merge_txn_range m t))"
  using merge_ranges_ids[OF assms] by (simp add: merge_txn_range_def)


subsection \<open>\<^verbatim>\<open>gtid_subset\<close> and \<^verbatim>\<open>gtid_subtract\<close>\<close>

lemma is_subset_sound: "is_subset A B \<Longrightarrow> ids A \<subseteq> ids B"
proof
  fix x
  assume sub: "is_subset A B" and "x \<in> ids A"
  then obtain s where s: "s \<in> set A" "fst s \<le> x" "x \<le> snd s" by (auto simp: ids_def)
  then obtain t where t: "t \<in> set B" "fst t \<le> fst s" "snd s \<le> snd t"
    using sub by (auto simp: is_subset_def list_all_iff list_ex_iff)
  then have "fst t \<le> x" "x \<le> snd t" using s by order+
  then show "x \<in> ids B" using t by (auto simp: ids_def)
qed

text \<open>A range inside a set in normal form lies in one range of it.\<close>

lemma canonical_covers:
  "canonical rs \<Longrightarrow> a \<le> b \<Longrightarrow> {a..b} \<subseteq> ids rs \<Longrightarrow> list_ex (\<lambda>t. fst t \<le> a \<and> b \<le> snd t) rs"
proof (induction rs)
  case Nil
  then show ?case by simp
next
  case (Cons r rs)
  have v: "fst r \<le> snd r" "snd r < - 1" and far: "list_all (\<lambda>s. snd r + 1 < fst s) rs"
    using Cons.prems by (auto simp: canonical_Cons valid_range_def)
  have lt: "snd r < snd r + 1" using word_succ_le[OF v(2), of "snd r + 1"] by blast
  have tl: "snd r + 1 < x" if "x \<in> ids rs" for x
    using that far by (auto simp: ids_def list_all_iff intro: order.strict_trans2)
  have gap: "snd r + 1 \<notin> ids (r # rs)"
    using lt tl[of "snd r + 1"] by auto
  show ?case
  proof (cases "a \<le> snd r")
    case True
    have "b \<le> snd r"
    proof (rule ccontr)
      assume "\<not> b \<le> snd r"
      then have "snd r + 1 \<le> b" using word_succ_le[OF v(2), of b] by (simp add: not_le)
      moreover have "a \<le> snd r + 1" using True lt by order
      ultimately have "snd r + 1 \<in> {a..b}" by simp
      then show False using Cons.prems(3) gap by blast
    qed
    moreover have "a \<notin> ids rs" using tl[of a] True lt by force
    moreover have "a \<in> ids (r # rs)" using Cons.prems by (meson atLeastAtMost_iff order_refl subsetD)
    ultimately show ?thesis by auto
  next
    case False
    have "x \<in> ids rs" if "x \<in> {a..b}" for x
    proof -
      have "\<not> x \<le> snd r" using False that by auto
      moreover have "x \<in> ids (r # rs)" using Cons.prems(3) that by blast
      ultimately show ?thesis by auto
    qed
    then have "{a..b} \<subseteq> ids rs" by blast
    then show ?thesis using Cons by (simp add: canonical_Cons)
  qed
qed

text \<open>C15. \<^verbatim>\<open>is_subset\<close> decides inclusion: on a target in normal form and non-empty ranges to test it
  returns true exactly when every transaction of the first list is one of the second.\<close>

theorem is_subset_iff:
  assumes "list_all (\<lambda>r. fst r \<le> snd r) A" "canonical B"
  shows "is_subset A B \<longleftrightarrow> ids A \<subseteq> ids B"
proof
  assume sub: "ids A \<subseteq> ids B"
  have "list_ex (\<lambda>t. fst s \<ge> fst t \<and> snd s \<le> snd t) B" if "s \<in> set A" for s
    using that assms sub canonical_covers[of B "fst s" "snd s"] by (auto simp: list_all_iff ids_def)
  then show "is_subset A B" by (simp add: is_subset_def list_all_iff)
qed (rule is_subset_sound)

lemma message_simps [simp]:
  "gm_txn_range (message uuid n rs) = rs" "gm_gtid_uuid (message uuid n rs) = Some uuid"
  "func_merge_txn_range (message uuid n rs) (message uuid k ss) = message uuid k (merge_loop 0 0 (rs @ ss))"
  by (simp_all add: message_def func_merge_txn_range_def)

lemma result_message_simp [simp]:
  "length uuid = 16 \<Longrightarrow> result_message (message uuid n rs) ss = Some (message uuid 0 ss)"
  by (simp add: result_message_def SERVER_UUID_LEN_def GtidMessage_init_def message_def)

lemma gtid_text_piece: "piece CHR '','' (gtid_text uuid rs)"
  using with_delim_piece(2)[of uuid] range_text_piece(2)
  by (auto simp: gtid_text_def join_concat piece_def NUL_def)

lemma gtid_text_not_Nil [simp]: "gtid_text uuid rs \<noteq> []"
  by (simp add: gtid_text_def join_concat)

lemma split_sets:
  "ts \<noteq> [] \<Longrightarrow> list_all (\<lambda>t. t \<noteq> [] \<and> piece CHR '','' t) ts \<Longrightarrow> split (join '','' ts) CHR '','' = ts"
  by (rule split_join) (cases ts; auto simp: NUL_def join_concat list_all_iff)+

lemma deserialization_one:
  assumes "length uuid = 16" "length (mem 0) = 16" "rs \<noteq> []" "list_all valid_range rs" "list_all fits_atoll rs"
  shows "deserialization junk mem (gtid_text uuid rs) = Some [(dumphex uuid, message uuid 0 (merge_loop 0 0 rs))]"
  using assms split_sets[of "[gtid_text uuid rs]"]
  by (simp add: deserialization_def gtid_text_piece deserialize_gtid_text)

lemma deserialization_two:
  assumes "length uuid = 16" "length (mem 0) = 16" "length (mem 1) = 16"
    and "rs \<noteq> []" "list_all valid_range rs" "list_all fits_atoll rs"
    and "ss \<noteq> []" "list_all valid_range ss" "list_all fits_atoll ss"
  shows "deserialization junk mem (gtid_text uuid rs @ '','' @ gtid_text uuid ss) =
         Some [(dumphex uuid, message uuid 0 (merge_loop 0 0 (merge_loop 0 0 ss @ merge_loop 0 0 rs)))]"
  using assms split_sets[of "[gtid_text uuid rs, gtid_text uuid ss]"]
  by (simp add: deserialization_def gtid_text_piece deserialize_gtid_text)

text \<open>C36. Two sets of one server written in ascending order are not united: \<^verbatim>\<open>deserialization\<close> puts the
  later set in front of the earlier one and \<^verbatim>\<open>merge_txn_range\<close> does not sort, so the earlier
  transactions vanish and \<^verbatim>\<open>GTID_SUBSET('u:a-b', 'u:a-b,u:c-d')\<close> answers 0.\<close>

theorem gtid_subset_loses_earlier_set:
  assumes "length uuid = 16" "\<And>i j. length (mem i j) = 16"
    and "0 < a" "a \<le> b" "unat b + 1 < unat c" "c \<le> d" "unat d < 2 ^ 63"
  shows "gtid_subset junk mem (gtid_text uuid [(a, b)])
           (gtid_text uuid [(a, b)] @ '','' @ gtid_text uuid [(c, d)]) = Some 0"
proof -
  have u: "unat b + 1 < unat c" "unat c \<le> unat d" "unat a \<le> unat b" "0 < unat a" "b < d" "d < - 1" "b < - 1"
    using assms(3-) by (simp_all add: word_less_nat_alt word_le_nat_alt)
  then have v: "list_all valid_range [(a, b)]" "list_all valid_range [(c, d)]"
    "list_all fits_atoll [(a, b)]" "list_all fits_atoll [(c, d)]"
    using assms(3-) by (simp_all add: valid_range_def fits_atoll_def word_less_nat_alt)
  have w: "c \<noteq> 0" "a \<noteq> 0" "max d b = d" "\<not> c \<le> a" "a \<le> d + 1"
    using u by (auto simp: word_le_nat_alt) unat_arith
  show ?thesis
    using assms(1,2) v w deserialization_one[of uuid "mem 0" "[(a, b)]" junk]
      deserialization_two[of uuid "mem 1" "[(a, b)]" "[(c, d)]" junk]
    by (simp add: gtid_subset_def is_subset_def)
qed

text \<open>C37. \<^verbatim>\<open>GTID_SUBTRACT\<close> of an interval that reaches over the end of the origin cuts one too far to the
  right: \<^verbatim>\<open>u:a-b\<close> minus \<^verbatim>\<open>u:c-d\<close> with \<^verbatim>\<open>a < c <= b <= d\<close> is printed as \<^verbatim>\<open>u:a-(c+1)\<close>, which still has
  \<^verbatim>\<open>c\<close>, which was subtracted, and \<^verbatim>\<open>c+1\<close>, which was too or, when \<^verbatim>\<open>c = d\<close>, was not there to begin with.\<close>

theorem gtid_subtract_keeps_subtracted:
  assumes "length uuid = 16" "\<And>i j. length (mem i j) = 16"
    and "0 < a" "a < c" "c \<le> b" "b \<le> d" "unat d < 2 ^ 63"
  shows "gtid_subtract junk mem (gtid_text uuid [(a, b)]) (gtid_text uuid [(c, d)]) [] =
         Some (gtid_text uuid [(a, c + 1)])"
proof -
  have u: "unat a < unat c" "unat c \<le> unat b" "unat b \<le> unat d" "0 < unat a" "d < - 1" "b < - 1"
    using assms(3-) by (simp_all add: word_less_nat_alt word_le_nat_alt)
  then have v: "list_all valid_range [(a, b)]" "list_all valid_range [(c, d)]"
    "list_all fits_atoll [(a, b)]" "list_all fits_atoll [(c, d)]"
    using assms(3-) by (simp_all add: valid_range_def fits_atoll_def word_less_nat_alt word_le_nat_alt)
  have w: "c \<noteq> 0" "a \<noteq> 0" "\<not> d < a" "\<not> b < c" "\<not> d < b" "\<not> c \<le> a"
    using u by (auto simp: word_le_nat_alt word_less_nat_alt)
  have "c \<noteq> - 1" using assms(5) \<open>b < - 1\<close> by order
  then have "c + 1 \<noteq> 0" by (simp add: add_eq_0_iff2)
  then have "difference [(a, b)] [(c, d)] [] = [(a, c + 1)]" using w assms(6) by (simp add: difference_def)
  then show ?thesis
    using assms(1,2) v w deserialization_one[of uuid "mem 0" "[(a, b)]" junk]
      deserialization_one[of uuid "mem 1" "[(c, d)]" junk]
      format_string_message[of uuid 0 "[(a, c + 1)]"]
    by (simp add: gtid_subtract_def)
qed


lemma hex_to_bin_length: "hex_to_bin junk s ret pos = Some ret' \<Longrightarrow> length ret' = length ret"
  by (induction junk s ret pos rule: hex_to_bin.induct) (auto split: option.splits dest: poke_length)

lemma hex_to_bin_iff:
  "pos \<le> length ret \<Longrightarrow>
   (\<exists>ret'. hex_to_bin junk s ret pos = Some ret') \<longleftrightarrow> pos + (length s + 1) div 2 \<le> length ret"
proof (induction junk s ret pos rule: hex_to_bin.induct)
  case (3 junk c d cs ret pos)
  show ?case
  proof (cases "poke ret pos [hex_extract junk [c, d]]")
    case None
    then show ?thesis using 3 by (auto simp: poke_def split: if_splits)
  next
    case (Some ret')
    then have "length ret' = length ret" "pos + 1 \<le> length ret" by (auto simp: poke_def split: if_splits)
    then show ?thesis using 3(1)[OF Some] Some by simp
  qed
qed (auto simp: poke_def)

text \<open>C35. \<^verbatim>\<open>uuid_str_to_hex_bin\<close> checks that a uuid has five parts but not how long they are: its stores
  stay inside the 16 bytes it allocates exactly when the parts have at most 32, 24, 20, 16 and 12
  characters.  A longer part, which a client can send in \<^verbatim>\<open>GTID_SUBSET\<close>, overruns the block.\<close>

theorem uuid_str_in_bounds_iff:
  assumes "length mem = 16" "split s CHR ''-'' = [p0, p1, p2, p3, p4]"
  shows "(\<exists>r. uuid_str_to_hex_bin junk mem s old = Some r) \<longleftrightarrow>
         length p0 \<le> 32 \<and> length p1 \<le> 24 \<and> length p2 \<le> 20 \<and> length p3 \<le> 16 \<and> length p4 \<le> 12"
proof -
  let ?ps = "[p0, p1, p2, p3, p4]"
  have n: "?ps ! 0 = p0" "?ps ! 1 = p1" "?ps ! 2 = p2" "?ps ! 3 = p3" "?ps ! 4 = p4" "length ?ps = 5"
    by simp_all
  have h: "(\<exists>r. hex_to_bin junk p b n \<bind> k = Some r) \<longleftrightarrow> n + (length p + 1) div 2 \<le> 16 \<and> P"
    if "length b = 16" "n \<le> 16" "\<And>b'. length b' = 16 \<Longrightarrow> (\<exists>r. k b' = Some r) \<longleftrightarrow> P"
    for p b n P and k :: "byte list \<Rightarrow> (int \<times> byte list option) option"
    using hex_to_bin_iff[of n b junk p] hex_to_bin_length[of junk p b n] that
    by (cases "hex_to_bin junk p b n") auto
  have "(\<exists>r. uuid_str_to_hex_bin junk mem s old = Some r) \<longleftrightarrow>
     0 + (length p0 + 1) div 2 \<le> 16 \<and> 4 + (length p1 + 1) div 2 \<le> 16 \<and> 6 + (length p2 + 1) div 2 \<le> 16 \<and>
     8 + (length p3 + 1) div 2 \<le> 16 \<and> 10 + (length p4 + 1) div 2 \<le> 16 \<and> True"
    unfolding uuid_str_to_hex_bin_def assms(2) Let_def
    by (simp only: n if_True simp_thms(6)) (intro h; simp add: assms)
  then show ?thesis by presburger
qed

text \<open>A GTID set without a colon crashes the process: \<^verbatim>\<open>deserialization\<close> ignores that
  \<^verbatim>\<open>deserialize_gtid_set\<close> failed and prints the uuid through a null pointer.\<close>

theorem gtid_subset_crashes:
  assumes "s \<noteq> []" "CHR '':'' \<notin> set s" "CHR '','' \<notin> set s" "NUL \<notin> set s"
  shows "gtid_subset junk mem s target = None"
proof -
  have "split s CHR '','' = [s]" "split s CHR '':'' = [s]"
    using assms split_loop_last[of _ s False "[]"] by (auto simp: split_str_def piece_def)
  then show ?thesis
    by (simp add: gtid_subset_def deserialization_def deserialize_gtid_set_def GtidMessage_init_def
        get_gtid_uuid_str_def uuid_hex_bin_to_str_def)
qed


subsection \<open>\<^verbatim>\<open>difference\<close>\<close>

text \<open>
  The list \<^verbatim>\<open>origin\<close> during \<^verbatim>\<open>difference\<close>: an entry is a range or \<^verbatim>\<open>(0, 0)\<close>, a deleted one, and in the
  round of a target that starts at \<^verbatim>\<open>c\<close> a later entry lies behind an earlier one or entirely before
  \<^verbatim>\<open>c\<close>.  \<^verbatim>\<open>no_tail t r\<close> says that \<^verbatim>\<open>t\<close> does not cover the end of \<^verbatim>\<open>r\<close> while leaving its beginning.
\<close>

definition entry :: "txn_range \<Rightarrow> bool" where
  "entry r \<longleftrightarrow> r = (0, 0) \<or> valid_range r"

definition behind :: "u64 \<Rightarrow> txn_range \<Rightarrow> txn_range \<Rightarrow> bool" where
  "behind c r s \<longleftrightarrow> snd r < fst s \<or> snd s < c"

definition no_tail :: "txn_range \<Rightarrow> txn_range \<Rightarrow> bool" where
  "no_tail t r \<longleftrightarrow> \<not> (fst r < fst t \<and> fst t \<le> snd r \<and> snd r \<le> snd t)"

abbreviation kept :: "txn_range list \<Rightarrow> txn_range list" where
  "kept os \<equiv> filter (\<lambda>(a, b). a \<noteq> 0 \<and> b \<noteq> 0) os"

definition dig_inv :: "txn_range \<Rightarrow> txn_range list \<Rightarrow> bool" where
  "dig_inv t os \<longleftrightarrow> list_all entry os \<and> sorted_wrt (behind (fst t)) os \<and> list_all (no_tail t) os"

lemma word_le_pred: "(0 :: u64) < c \<Longrightarrow> x \<le> c - 1 \<longleftrightarrow> x < c"
  by unat_arith

lemma dig_inv_Cons:
  "dig_inv t (r # os) \<longleftrightarrow> dig_inv t os \<and> entry r \<and> no_tail t r \<and> list_all (behind (fst t) r) os"
  by (auto simp: dig_inv_def list_all_iff)

lemma kept_disjoint:
  assumes "list_all (behind c r) os" "d \<le> snd r"
  shows "ids (kept os) \<inter> {c..d} = {}"
  using assms by (fastforce simp: ids_def list_all_iff behind_def)

lemma ids_kept_Cons: "entry (a, b) \<Longrightarrow> ids (kept ((a, b) # os)) = (if a = 0 then {} else {a..b}) \<union> ids (kept os)"
  by (auto simp: entry_def valid_range_def)

lemma entry_nonzero: "entry (a, b) \<Longrightarrow> a \<noteq> 0 \<Longrightarrow> 0 < a \<and> a \<le> b \<and> b < - 1"
  by (auto simp: entry_def valid_range_def)

lemma entry_zero: "entry (0, b) \<Longrightarrow> b = 0"
  by (auto simp: entry_def valid_range_def)

lemma above_Icc: "d < b \<Longrightarrow> {d + 1..b} = {d<..b :: u64}"
  using word_succ_le[of d] by (auto simp: word_order.not_eq_extremum) (metis max_word_max order_less_le_trans)+

lemma below_Icc: "0 < c \<Longrightarrow> {a..c - 1} = {a..<c :: u64}"
  using word_le_pred by auto

lemma interval_minus_inner:
  fixes a :: u64
  assumes "0 < c" "a < c" "c \<le> d" "d < b"
  shows "{d + 1..b} \<union> {a..c - 1} = {a..b} - {c..d}"
  unfolding above_Icc[OF assms(4)] below_Icc[OF assms(1)] using assms by auto

text \<open>The rounds of the inner loop, for an entry that the target does not cut at its end.\<close>

lemma dig_rounds:
  "d < a \<Longrightarrow> dig (c, d) ((a, b) # os) = (a, b) # os"
  "a \<le> b \<Longrightarrow> c \<le> d \<Longrightarrow> b < c \<Longrightarrow> dig (c, d) ((a, b) # os) = (a, b) # dig (c, d) os"
  "a < c \<Longrightarrow> c \<le> d \<Longrightarrow> d < b \<Longrightarrow> dig (c, d) ((a, b) # os) = (d + 1, b) # os @ [(a, c - 1)]"
  "c \<le> a \<Longrightarrow> a \<le> b \<Longrightarrow> b \<le> d \<Longrightarrow> dig (c, d) ((a, b) # os) = (0, 0) # dig (c, d) os"
  "c \<le> a \<Longrightarrow> a \<le> d \<Longrightarrow> d < b \<Longrightarrow> dig (c, d) ((a, b) # os) = (d + 1, b) # os"
proof goal_cases
  case 1
  then show ?case by simp
next
  case 2
  then have "\<not> d < a" by order
  then show ?case using 2 by simp
next
  case 3
  then have "\<not> d < a" "\<not> b < c" by order+
  then show ?case using 3 by simp
next
  case 4
  then have "\<not> d < a" "\<not> b < c" "\<not> d < b" by order+
  then show ?case using 4 by simp
next
  case 5
  then have "\<not> d < a" "\<not> b < c" "\<not> a < c" "\<not> b \<le> d" by order+
  then show ?case using 5 by simp
qed

declare dig.simps(2) [simp del]

lemma round_cases:
  assumes "valid_range (c, d)" "entry (a, b)" "no_tail (c, d) (a, b)"
  obtains "a = 0" "b = 0" | "0 < a" "a \<le> b" "d < a" | "0 < a" "a \<le> b" "b < c"
    | "0 < a" "a < c" "d < b" | "0 < a" "c \<le> a" "a \<le> b" "b \<le> d" | "0 < a" "c \<le> a" "a \<le> d" "d < b"
proof (cases "a = 0")
  case True
  then show thesis using that(1) entry_zero assms(2) by blast
next
  case False
  then have v: "0 < a" "a \<le> b" using entry_nonzero assms(2) by blast+
  have "\<not> (a < c \<and> c \<le> b \<and> b \<le> d)" using assms(3) by (simp add: no_tail_def)
  then show thesis using v that(2-) by (metis linorder_not_less)
qed

lemma d_succ_nonzero: "valid_range (c, d) \<Longrightarrow> d + 1 \<noteq> 0"
  by (auto simp: valid_range_def add_eq_0_iff2)

definition kids :: "txn_range list \<Rightarrow> u64 set" where
  "kids os = ids (kept os)"

lemma kids_zero: "kids ((0, 0) # os) = kids os"
  by (simp add: kids_def)

lemma kids_Cons: "a \<noteq> 0 \<Longrightarrow> b \<noteq> 0 \<Longrightarrow> kids ((a, b) # os) = {a..b} \<union> kids os"
  by (simp add: kids_def)

lemma kids_append: "kids (xs @ ys) = kids xs \<union> kids ys"
  by (simp add: kids_def)

lemma kids_Nil: "kids [] = {}"
  by (simp add: kids_def)

lemmas kids_simps = kids_zero kids_Cons kids_append kids_Nil

text \<open>One round removes exactly the target.\<close>

lemma dig_ids:
  assumes t: "valid_range (c, d)" and "dig_inv (c, d) os"
  shows "kids (dig (c, d) os) = kids os - {c..d}"
  using assms(2)
proof (induction os)
  case Nil
  then show ?case by (simp add: kids_Nil)
next
  case (Cons r os)
  obtain a b where r: "r = (a, b)" by (cases r)
  have cd: "0 < c" "c \<le> d" "d + 1 \<noteq> 0" using t d_succ_nonzero[OF t] by (auto simp: valid_range_def)
  have e: "entry (a, b)" "no_tail (c, d) (a, b)" and be: "list_all (behind c (a, b)) os"
    and ih: "kids (dig (c, d) os) = kids os - {c..d}"
    using Cons by (auto simp: dig_inv_Cons r)
  have dis: "kids os \<inter> {c..d} = {}" if "d \<le> b"
    using kept_disjoint[OF be, of d] that by (simp add: kids_def)
  from t e show ?case
  proof (cases rule: round_cases)
    case 1
    then show ?thesis using cd ih by (simp add: r dig_rounds kids_zero)
  next
    case 2
    then have n: "a \<noteq> 0" "b \<noteq> 0" "d \<le> b" "{a..b} \<inter> {c..d} = {}" by (auto simp: word_gt_0)
    have "kids (dig (c, d) (r # os)) = {a..b} \<union> kids os"
      using n(1,2) by (simp only: r dig_rounds(1)[OF 2(3)] kids_Cons not_False_eq_True)
    also have "\<dots> = {a..b} \<union> kids os - {c..d}" using n(4) dis[OF n(3)] by blast
    also have "\<dots> = kids (r # os) - {c..d}" using n(1,2) by (simp only: r kids_Cons not_False_eq_True)
    finally show ?thesis .
  next
    case 3
    then have n: "a \<noteq> 0" "b \<noteq> 0" "{a..b} \<inter> {c..d} = {}" by (auto simp: word_gt_0)
    have "kids (dig (c, d) (r # os)) = {a..b} \<union> (kids os - {c..d})"
      using n(1,2) by (simp only: r dig_rounds(2)[OF 3(2) cd(2) 3(3)] kids_Cons not_False_eq_True ih)
    also have "\<dots> = {a..b} \<union> kids os - {c..d}" using n(3) by blast
    also have "\<dots> = kids (r # os) - {c..d}" using n(1,2) by (simp only: r kids_Cons not_False_eq_True)
    finally show ?thesis .
  next
    case 4
    then have n: "a \<noteq> 0" "b \<noteq> 0" "d \<le> b" by (auto simp: word_gt_0)
    have "c \<noteq> 1" using 4(1,2) by (metis word_less_1 word_gt_0)
    then have "c - 1 \<noteq> 0" by simp
    note n = n this
    have "kids (dig (c, d) (r # os)) = {d + 1..b} \<union> (kids os \<union> ({a..c - 1} \<union> {}))"
      using n cd(3)
      by (simp only: r dig_rounds(3)[OF 4(2) cd(2) 4(3)] kids_simps not_False_eq_True)
    also have "\<dots> = ({a..b} - {c..d}) \<union> kids os"
      using interval_minus_inner[OF cd(1) 4(2) cd(2) 4(3)] by blast
    also have "\<dots> = {a..b} \<union> kids os - {c..d}" using dis[OF n(3)] by blast
    also have "\<dots> = kids (r # os) - {c..d}" using n(1,2) by (simp only: r kids_Cons not_False_eq_True)
    finally show ?thesis .
  next
    case 5
    then have n: "a \<noteq> 0" "b \<noteq> 0" "{a..b} \<subseteq> {c..d}" by auto
    have "kids (dig (c, d) (r # os)) = kids os - {c..d}"
      by (simp only: r dig_rounds(4)[OF 5(2-4)] kids_zero ih)
    also have "\<dots> = {a..b} \<union> kids os - {c..d}" using n(3) by blast
    also have "\<dots> = kids (r # os) - {c..d}" using n(1,2) by (simp only: r kids_Cons not_False_eq_True)
    finally show ?thesis .
  next
    case 6
    then have n: "a \<noteq> 0" "b \<noteq> 0" "d \<le> b" by auto
    have i: "{d + 1..b} = {a..b} - {c..d}" unfolding above_Icc[OF 6(4)] using 6(2,3) by fastforce
    have "kids (dig (c, d) (r # os)) = {d + 1..b} \<union> kids os"
      using n cd(3) by (simp only: r dig_rounds(5)[OF 6(2-4)] kids_simps not_False_eq_True)
    also have "\<dots> = {a..b} \<union> kids os - {c..d}" unfolding i using dis[OF n(3)] by blast
    also have "\<dots> = kids (r # os) - {c..d}" using n(1,2) by (simp only: r kids_Cons not_False_eq_True)
    finally show ?thesis .
  qed
qed

text \<open>What a round leaves of an entry is part of it or lies before the next target.\<close>

definition piece_of :: "u64 \<Rightarrow> u64 \<Rightarrow> txn_range list \<Rightarrow> txn_range \<Rightarrow> bool" where
  "piece_of c d os s \<longleftrightarrow> entry s \<and>
     (snd s < c \<or> list_ex (\<lambda>r. snd s = snd r \<and> fst r \<le> fst s \<and> (fst s = fst r \<or> fst r \<le> d)) os)"

lemma piece_of_zero: "0 < c \<Longrightarrow> piece_of c d os (0, 0)"
  by (simp add: piece_of_def entry_def)

lemma piece_of_self: "entry s \<Longrightarrow> s \<in> set os \<Longrightarrow> piece_of c d os s"
  by (auto simp: piece_of_def list_ex_iff)

lemma piece_of_Cons: "piece_of c d os s \<Longrightarrow> piece_of c d (r # os) s"
  by (auto simp: piece_of_def)

lemma piece_of_cut:
  assumes t: "valid_range (c, d)" and "entry (a, b)" "a \<le> d" "d < b"
  shows "piece_of c d ((a, b) # os) (d + 1, b)"
proof -
  have cd: "0 < c" "c \<le> d" "d < - 1" using t by (auto simp: valid_range_def)
  have "b < - 1" using assms(2,4) by (auto simp: entry_def valid_range_def)
  moreover have d: "d + 1 \<le> b" "d < d + 1"
    using word_succ_le[OF cd(3), of b] word_succ_le[OF cd(3), of "d + 1"] assms(4) by blast+
  moreover have "0 < d + 1" "a \<le> d + 1" using cd(1,2) d(2) assms(3) by order+
  ultimately show ?thesis using assms(3) by (simp add: piece_of_def entry_def valid_range_def)
qed

lemma piece_of_left:
  assumes "0 < a" "a < c"
  shows "piece_of c d os (a, c - 1)"
proof -
  have "0 < c" using assms by order
  then have "c - 1 < c" "a \<le> c - 1"
    using word_le_pred[of c "c - 1"] word_le_pred[of c a] assms(2) order_refl[of "c - 1"] by blast+
  moreover have "c - 1 < - 1" using \<open>c - 1 < c\<close> by (metis max_word_max order_less_le_trans)
  ultimately show ?thesis using assms by (simp add: piece_of_def entry_def valid_range_def)
qed

lemma dig_pieces:
  assumes t: "valid_range (c, d)" and "dig_inv (c, d) os"
  shows "list_all (piece_of c d os) (dig (c, d) os)"
  using assms(2)
proof (induction os)
  case (Cons r os)
  obtain a b where r: "r = (a, b)" by (cases r)
  have cd: "0 < c" "c \<le> d" using t by (auto simp: valid_range_def)
  have e: "entry (a, b)" "no_tail (c, d) (a, b)" "list_all entry os"
    using Cons.prems by (auto simp: dig_inv_Cons dig_inv_def r)
  have self: "piece_of c d (r # os) r" "list_all (piece_of c d (r # os)) os"
    using e by (auto simp: r list_all_iff intro!: piece_of_self)
  have ih: "list_all (piece_of c d (r # os)) (dig (c, d) os)"
    using Cons by (auto simp: dig_inv_Cons list_all_iff intro: piece_of_Cons)
  from t e(1,2) show ?case
  proof (cases rule: round_cases)
    case 1
    then show ?thesis using cd ih dig_rounds(2)[of a b c d os] piece_of_zero by (simp add: r)
  next
    case 2
    then show ?thesis using self by (simp add: r dig_rounds(1))
  next
    case 3
    then show ?thesis using self ih by (simp add: r dig_rounds(2)[OF _ cd(2)])
  next
    case 4
    then have "a \<le> d" using cd by order
    then show ?thesis
      using 4 self piece_of_cut[OF t e(1)] piece_of_left[of a c] by (simp add: r dig_rounds(3)[OF _ cd(2)])
  next
    case 5
    then show ?thesis using ih piece_of_zero[OF cd(1)] by (simp add: r dig_rounds(4))
  next
    case 6
    then show ?thesis using self piece_of_cut[OF t e(1)] by (simp add: r dig_rounds(5))
  qed
qed simp


lemma behind_mono: "behind c r s \<Longrightarrow> c < c' \<Longrightarrow> behind c' r s"
  by (auto simp: behind_def)

lemma behind_piece:
  assumes "list_all (behind c r) os" "piece_of c d os s" "c < c'"
  shows "behind c' r s"
proof -
  consider "snd s < c" | q where "q \<in> set os" "snd s = snd q" "fst q \<le> fst s"
    using assms(2) by (auto simp: piece_of_def list_ex_iff)
  then show ?thesis
  proof cases
    case 2
    then have "snd r < fst q \<or> snd s < c" using assms(1) by (auto simp: list_all_iff behind_def)
    then show ?thesis using 2(3) assms(3) unfolding behind_def by (meson order.strict_trans order.strict_trans2)
  qed (use assms(3) in \<open>auto simp: behind_def\<close>)
qed

lemma behind_zero: "entry s \<Longrightarrow> 0 < c' \<Longrightarrow> behind c' (0, 0) s"
  by (auto simp: entry_def behind_def valid_range_def)

lemma behind_list_mono: "sorted_wrt (behind c) os \<Longrightarrow> c < c' \<Longrightarrow> sorted_wrt (behind c') os"
  by (erule sorted_wrt_mono_rel[rotated]) (auto intro: behind_mono)

lemma dig_sorted:
  assumes t: "valid_range (c, d)" and "dig_inv (c, d) os" and c': "d < c'"
  shows "sorted_wrt (behind c') (dig (c, d) os)"
  using assms(2)
proof (induction os)
  case (Cons r os)
  obtain a b where r: "r = (a, b)" by (cases r)
  have cd: "0 < c" "c \<le> d" "c < c'" "0 < c'" using t c' by (auto simp: valid_range_def)
  have e: "entry (a, b)" "no_tail (c, d) (a, b)" and inv: "dig_inv (c, d) os" and be: "list_all (behind c (a, b)) os"
    using Cons.prems by (auto simp: dig_inv_Cons r)
  have pieces: "list_all (piece_of c d os) (dig (c, d) os)" using dig_pieces[OF t inv] .
  then have zero: "list_all (behind c' (0, 0)) (dig (c, d) os)"
    using cd(4) by (auto simp: list_all_iff piece_of_def intro: behind_zero)
  have rest: "list_all (behind c' (a, b)) (dig (c, d) os)"
    using pieces by (auto simp: list_all_iff intro: behind_piece[OF be _ cd(3)])
  have os: "sorted_wrt (behind c') os" "list_all (behind c' (x, b)) os" for x
    using inv be cd(3) behind_list_mono[of c os c'] by (auto simp: dig_inv_def list_all_iff behind_def)
  have ih: "sorted_wrt (behind c') (dig (c, d) os)" using Cons.IH inv .
  from t e show ?case
  proof (cases rule: round_cases)
    case 1
    then show ?thesis using cd ih zero dig_rounds(2)[of a b c d os] by (simp add: r list_all_iff)
  next
    case 2
    then show ?thesis using os by (simp add: r dig_rounds(1) list_all_iff)
  next
    case 3
    then show ?thesis using ih rest by (simp add: r dig_rounds(2)[OF _ cd(2)] list_all_iff)
  next
    case 4
    have "0 < c" using cd by simp
    then have "c - 1 < c'" using word_le_pred[of c "c - 1"] cd(3) by (meson order.strict_trans order_refl)
    then have "behind c' x (a, c - 1)" for x by (simp add: behind_def)
    then show ?thesis using 4 os by (simp add: r dig_rounds(3)[OF _ cd(2)] list_all_iff sorted_wrt_append)
  next
    case 5
    then show ?thesis using ih zero by (simp add: r dig_rounds(4) list_all_iff)
  next
    case 6
    then show ?thesis using os by (simp add: r dig_rounds(5) list_all_iff)
  qed
qed simp

lemma no_tail_piece:
  assumes "list_all (no_tail t') os" "piece_of c d os s" "c \<le> d" "d < fst t'"
  shows "no_tail t' s"
proof -
  consider "snd s < c" | q where "q \<in> set os" "snd s = snd q" "fst s = fst q \<or> fst q \<le> d"
    using assms(2) by (auto simp: piece_of_def list_ex_iff)
  then show ?thesis
  proof cases
    case 1
    then have "\<not> fst t' \<le> snd s" using assms(3,4) by order
    then show ?thesis by (simp add: no_tail_def)
  next
    case 2
    then have "no_tail t' q" using assms(1) by (simp add: list_all_iff)
    moreover have "fst q < fst t'" if "fst q \<le> d" using that assms(4) by order
    ultimately show ?thesis using 2(2,3) by (auto simp: no_tail_def)
  qed
qed

lemma dig_inv_next:
  assumes "valid_range (c, d)" "dig_inv (c, d) os" "d < fst t'" "list_all (no_tail t') os"
  shows "dig_inv t' (dig (c, d) os)"
proof -
  have "c \<le> d" using assms(1) by (simp add: valid_range_def)
  then show ?thesis
    using dig_pieces[OF assms(1,2)] dig_sorted[OF assms(1-3)] no_tail_piece[OF assms(4) _ _ assms(3), of c]
    by (auto simp: dig_inv_def list_all_iff piece_of_def)
qed

lemma foldl_dig_ids:
  assumes "canonical ts" "list_all (\<lambda>t. list_all (no_tail t) os) ts" "ts \<noteq> [] \<Longrightarrow> dig_inv (hd ts) os"
  shows "kids (foldl (\<lambda>os t. dig t os) os ts) = kids os - ids ts"
  using assms
proof (induction ts arbitrary: os)
  case (Cons t ts)
  obtain c d where t: "t = (c, d)" by (cases t)
  have v: "valid_range (c, d)" and ts: "canonical ts" and far: "list_all (\<lambda>s. d + 1 < fst s) ts"
    using Cons.prems(1) by (auto simp: canonical_Cons t)
  have inv: "dig_inv (c, d) os" using Cons.prems(3) by (simp add: t)
  have lt: "d < fst s" if "s \<in> set ts" for s
  proof -
    have "d < d + 1" using v word_succ_le[of d "d + 1"] by (auto simp: valid_range_def)
    then show ?thesis using far that by (auto simp: list_all_iff)
  qed
  have nt: "list_all (no_tail s) os" if "s \<in> set ts" for s
    using Cons.prems(2) that by (simp add: list_all_iff)
  have "list_all (\<lambda>s. list_all (no_tail s) (dig (c, d) os)) ts"
    using dig_inv_next[OF v inv lt nt] by (auto simp: list_all_iff dig_inv_def)
  moreover have "ts \<noteq> [] \<Longrightarrow> dig_inv (hd ts) (dig (c, d) os)"
    using dig_inv_next[OF v inv lt nt] by auto
  ultimately have "kids (foldl (\<lambda>os t. dig t os) (dig (c, d) os) ts) = kids (dig (c, d) os) - ids ts"
    using Cons.IH ts by blast
  then show ?case using dig_ids[OF v inv] by (auto simp: t)
qed simp

lemma canonical_sorted: "canonical rs \<Longrightarrow> sort rs = rs"
proof (intro sorted_sort_id)
  assume c: "canonical rs"
  have "r \<le> s" if "snd r + 1 < fst s" "valid_range r" for r s :: txn_range
  proof -
    have "snd r < snd r + 1" using that(2) word_succ_le[of "snd r" "snd r + 1"] by (auto simp: valid_range_def)
    then have "fst r < fst s" using that by (auto simp: valid_range_def)
    then show ?thesis by (simp add: less_eq_prod_def)
  qed
  then show "sorted rs"
    using c by (auto simp: canonical_def list_all_iff elim: sorted_wrt_mono_rel[rotated])
qed

text \<open>C14. \<^verbatim>\<open>difference\<close> is exact when no subtracted range covers the end of an origin range while
  leaving its beginning: on sets in normal form the ranges it returns hold exactly the transactions
  of the origin that are not in the target, although the pieces it splits off are appended behind
  the sorted list while later targets are still processed.\<close>

theorem difference_exact:
  assumes "canonical origin" "canonical target" "list_all (\<lambda>t. list_all (no_tail t) origin) target"
  shows "ids (difference origin target []) = ids origin - ids target"
proof -
  have v: "list_all valid_range origin" using assms(1) by (simp add: canonical_def)
  have "behind c r s" if "snd r + 1 < fst s" "valid_range r" for c and r s :: txn_range
  proof -
    have "snd r < snd r + 1" using that(2) word_succ_le[of "snd r" "snd r + 1"] by (auto simp: valid_range_def)
    then show ?thesis using that by (auto simp: behind_def)
  qed
  then have "sorted_wrt (behind c) origin" for c
    using assms(1) by (auto simp: canonical_def list_all_iff elim: sorted_wrt_mono_rel[rotated])
  then have "target \<noteq> [] \<Longrightarrow> dig_inv (hd target) origin"
    using v assms(3) by (cases target) (auto simp: dig_inv_def entry_def list_all_iff)
  then have "kids (foldl (\<lambda>os t. dig t os) origin target) = kids origin - ids target"
    using assms by (intro foldl_dig_ids)
  moreover have "kept origin = origin"
    using v by (auto simp: filter_id_conv list_all_iff valid_range_def)
  ultimately show ?thesis
    by (simp add: difference_def kids_def canonical_sorted assms)
qed


subsection \<open>Witnesses\<close>

theorem gtid_text_roundtrip_witness:
  "deserialize_gtid_set 0 (replicate 16 0) (gtid_text (replicate 16 7) [(1, 5), (9, 9)]) GtidMessage_init =
   Some (OMS_OK, message (replicate 16 7) 0 [(1, 5), (9, 9)])"
  by (rule gtid_text_roundtrip[of _ _ _ 2])
     (simp_all add: canonical_def valid_range_def fits_atoll_def format_string_message word_less_nat_alt)

theorem merge_txn_range_keeps_ids_witness:
  "ids (gm_txn_range (merge_txn_range (message [] 0 [(1, 3)]) (message [] 0 [(4, 8), (12, 12)]))) =
     ids [(1, 3)] \<union> ids [(4, 8), (12, 12)] \<and>
   canonical (gm_txn_range (merge_txn_range (message [] 0 [(1, 3)]) (message [] 0 [(4, 8), (12, 12)])))"
  using merge_txn_range_keeps_ids[of "message [] 0 [(1, 3)]" "message [] 0 [(4, 8), (12, 12)]"]
  by (simp add: valid_range_def by_start_def word_less_nat_alt)

theorem is_subset_iff_witness:
  "is_subset [(2, 3)] [(1, 5), (9, 12)] \<longleftrightarrow> ids [(2, 3)] \<subseteq> ids [(1, 5), (9, 12)]"
  by (rule is_subset_iff) (simp_all add: canonical_def valid_range_def word_less_nat_alt)

theorem gtid_subset_loses_earlier_set_witness:
  "gtid_subset 0 (\<lambda>_ _. replicate 16 0) (gtid_text (replicate 16 7) [(1, 5)])
     (gtid_text (replicate 16 7) [(1, 5)] @ '','' @ gtid_text (replicate 16 7) [(10, 20)]) = Some 0"
  by (rule gtid_subset_loses_earlier_set) (simp_all add: word_less_nat_alt)

theorem gtid_subtract_keeps_subtracted_witness:
  "gtid_subtract 0 (\<lambda>_ _. replicate 16 0) (gtid_text (replicate 16 7) [(1, 10)])
     (gtid_text (replicate 16 7) [(5, 20)]) [] = Some (gtid_text (replicate 16 7) [(1, 5 + 1)])"
  by (rule gtid_subtract_keeps_subtracted) (simp_all add: word_less_nat_alt)

theorem uuid_str_in_bounds_iff_witness:
  "(\<exists>r. uuid_str_to_hex_bin 0 (replicate 16 0) ''a-b-c-d-0123456789abcd'' None = Some r) \<longleftrightarrow>
     length ''a'' \<le> 32 \<and> length ''b'' \<le> 24 \<and> length ''c'' \<le> 20 \<and> length ''d'' \<le> 16 \<and>
     length ''0123456789abcd'' \<le> 12"
  by (rule uuid_str_in_bounds_iff) (simp_all add: split_str_def NUL_def)

theorem gtid_subset_crashes_witness: "gtid_subset 0 (\<lambda>_ _. []) ''x'' '''' = None"
  by (rule gtid_subset_crashes) (simp_all add: NUL_def)

theorem difference_exact_witness:
  "ids (difference [(1, 100), (200, 300)] [(10, 20), (30, 40), (150, 250)] []) =
   ids [(1, 100), (200, 300)] - ids [(10, 20), (30, 40), (150, 250)]"
  by (rule difference_exact) (simp_all add: canonical_def valid_range_def no_tail_def word_less_nat_alt)

end
