(* ===== verification/LogEvent.thy ===== *)
theory LogEvent
  imports EventType MysqlPacket PacketBuf GtidSet
begin

unbundle bit_operations_syntax

text \<open>
  The binlog events of \<^verbatim>\<open>binlog/ob_log_event.cpp\<close>: the common header, the checksum, and the writer
  \<^verbatim>\<open>flush_to_buff\<close> and reader \<^verbatim>\<open>deserialize\<close> of each event.  A record per class, extended the way the
  classes inherit; \<^verbatim>\<open>_header\<close> is a pointer, \<^verbatim>\<open>None\<close> the null pointer.  A writer takes the buffer and
  returns it with the number of bytes written, a reader takes the object it fills; \<^verbatim>\<open>None\<close> is an access
  outside the buffer or a failed assertion.  The parameter \<^verbatim>\<open>crc\<close> is zlib's \<^verbatim>\<open>crc32\<close> from the initial
  value, and the settings \<^verbatim>\<open>server_id\<close> and \<^verbatim>\<open>binlog_checksum\<close> are arguments of the constructors.
\<close>

section \<open>The common header\<close>

definition COMMON_HEADER_LENGTH :: nat where "COMMON_HEADER_LENGTH = 19"
definition COMMON_CHECKSUM_LENGTH :: u8 where "COMMON_CHECKSUM_LENGTH = 4"
definition OFF :: u8 where "OFF = 0"
definition CRC32 :: u8 where "CRC32 = 1"

record OblogEventHeader =
  eh_timestamp :: u64
  eh_type_code :: EventType
  eh_server_id :: u32
  eh_event_length :: u32
  eh_next_position :: u32
  eh_flags :: u16

definition OblogEventHeader_init :: "u32 \<Rightarrow> EventType \<Rightarrow> u64 \<Rightarrow> u32 \<Rightarrow> u32 \<Rightarrow> OblogEventHeader" where
  "OblogEventHeader_init server_id type_code timestamp event_length next_position =
     \<lparr>eh_timestamp = timestamp, eh_type_code = type_code, eh_server_id = server_id,
      eh_event_length = event_length, eh_next_position = next_position, eh_flags = 1\<rparr>"

text \<open>The six offsets of the header follow one another, so the stores are one run of a cursor.\<close>

definition OblogEventHeader_flush :: "OblogEventHeader \<Rightarrow> cursor \<Rightarrow> cursor option" where
  "OblogEventHeader_flush h c = do {
     c \<leftarrow> emit (int4store (ucast (eh_timestamp h))) c;
     c \<leftarrow> emit (int1store (event_code (eh_type_code h))) c;
     c \<leftarrow> emit (int4store (eh_server_id h)) c;
     c \<leftarrow> emit (int4store (eh_event_length h)) c;
     c \<leftarrow> emit (int4store (eh_next_position h)) c;
     emit (int2store (eh_flags h)) c }"

definition OblogEventHeader_deserialize :: "byte list \<Rightarrow> OblogEventHeader option" where
  "OblogEventHeader_deserialize buff = do {
     timestamp \<leftarrow> int4load buff 0;
     type_code \<leftarrow> int1load buff 4;
     server_id \<leftarrow> int4load buff 5;
     event_length \<leftarrow> int4load buff 9;
     next_position \<leftarrow> int4load buff 13;
     flags \<leftarrow> int2load buff 17;
     Some \<lparr>eh_timestamp = ucast timestamp, eh_type_code = event_of type_code, eh_server_id = server_id,
           eh_event_length = event_length, eh_next_position = next_position, eh_flags = flags\<rparr> }"

definition header_bytes :: "OblogEventHeader \<Rightarrow> byte list" where
  "header_bytes h =
     int4store (ucast (eh_timestamp h)) @ int1store (event_code (eh_type_code h)) @
     int4store (eh_server_id h) @ int4store (eh_event_length h) @
     int4store (eh_next_position h) @ int2store (eh_flags h)"

definition proper_header :: "OblogEventHeader \<Rightarrow> bool" where
  "proper_header h \<longleftrightarrow> unat (eh_timestamp h) < 2 ^ 32 \<and> proper_type (eh_type_code h)"

lemma length_header_bytes [simp]: "length (header_bytes h) = 19"
  by (simp add: header_bytes_def)

lemma header_flush: "OblogEventHeader_flush h c = emit (header_bytes h) c"
  by (simp add: OblogEventHeader_flush_def header_bytes_def)

lemma header_deserialize:
  "proper_header h \<Longrightarrow> OblogEventHeader_deserialize (header_bytes h @ ys) = Some h"
  by (simp add: OblogEventHeader_deserialize_def header_bytes_def proper_header_def proper_type_def
      ucast_ucast_small)

section \<open>Events\<close>

record ObLogEvent =
  ev_header :: "OblogEventHeader option"
  ev_ob_txn :: string
  ev_checkpoint :: u64
  ev_checksum_flag :: u8
  ev_filter :: bool

definition ObLogEvent_init :: "bool \<Rightarrow> ObLogEvent" where
  "ObLogEvent_init binlog_checksum =
     \<lparr>ev_header = None, ev_ob_txn = [], ev_checkpoint = 0,
      ev_checksum_flag = (if binlog_checksum then CRC32 else OFF), ev_filter = True\<rparr>"

type_synonym crc32 = "byte list \<Rightarrow> u64"

definition write_checksum :: "crc32 \<Rightarrow> u8 \<Rightarrow> cursor \<Rightarrow> cursor option" where
  "write_checksum crc checksum_flag c =
     (if checksum_flag = CRC32 then emit (int4store (ucast (crc (take (snd c) (fst c))))) c else Some c)"

definition get_checksum_len :: "u8 \<Rightarrow> u8" where
  "get_checksum_len checksum_flag = (if checksum_flag \<noteq> OFF then COMMON_CHECKSUM_LENGTH else 0)"

definition checksum_bytes :: "crc32 \<Rightarrow> u8 \<Rightarrow> byte list \<Rightarrow> byte list" where
  "checksum_bytes crc checksum_flag bs = (if checksum_flag = CRC32 then int4store (ucast (crc bs)) else [])"

definition proper_flag :: "u8 \<Rightarrow> bool" where
  "proper_flag f \<longleftrightarrow> f = OFF \<or> f = CRC32"

lemma length_checksum_bytes [simp]:
  "proper_flag f \<Longrightarrow> length (checksum_bytes crc f bs) = unat (get_checksum_len f)"
  by (auto simp: checksum_bytes_def get_checksum_len_def proper_flag_def OFF_def CRC32_def
      COMMON_CHECKSUM_LENGTH_def)

text \<open>A writer that emits \<^verbatim>\<open>bs\<close> and then the checksum.\<close>

lemma emit_checksum:
  "emit bs (buf, 0) \<bind> write_checksum crc f = emit (bs @ checksum_bytes crc f bs) (buf, 0)"
proof (cases "length bs \<le> length buf")
  case True
  then show ?thesis
    by (simp add: emit_start write_checksum_def checksum_bytes_def emit_fits)
       (simp add: emit_def poke_def ac_simps)
qed (simp add: emit_overflow)

text \<open>
  What the writer of an event promises.  \<^verbatim>\<open>image\<close> is the event without its checksum, \<^verbatim>\<open>summed\<close> the bytes the
  checksum is taken of, and \<^verbatim>\<open>wf\<close> says that the header's length is the length of the event.
\<close>

locale event_writer =
  fixes wf :: "'e \<Rightarrow> bool"
    and hdr :: "'e \<Rightarrow> OblogEventHeader"
    and flag :: "'e \<Rightarrow> u8"
    and image :: "'e \<Rightarrow> byte list"
    and summed :: "'e \<Rightarrow> byte list"
    and flush :: "crc32 \<Rightarrow> 'e \<Rightarrow> byte list \<Rightarrow> cursor option"
  assumes flush_image: "wf e \<Longrightarrow> flush crc e buf = emit (image e @ checksum_bytes crc (flag e) (summed e)) (buf, 0)"
    and wf_flag: "wf e \<Longrightarrow> proper_flag (flag e)"
    and image_length: "wf e \<Longrightarrow>
      length (image e) + unat (get_checksum_len (flag e)) = unat (eh_event_length (hdr e))"
    and image_header: "wf e \<Longrightarrow> \<exists>body. image e = header_bytes (hdr e) @ body"
begin

definition file_bytes :: "crc32 \<Rightarrow> 'e \<Rightarrow> byte list" where
  "file_bytes crc e = image e @ checksum_bytes crc (flag e) (summed e)"

lemma file_bytes_length: "wf e \<Longrightarrow> length (file_bytes crc e) = unat (eh_event_length (hdr e))"
  using image_length wf_flag by (simp add: file_bytes_def)

lemma flush_fits:
  "wf e \<Longrightarrow> unat (eh_event_length (hdr e)) \<le> length buf \<Longrightarrow>
   flush crc e buf = Some (file_bytes crc e @ drop (unat (eh_event_length (hdr e))) buf,
                           unat (eh_event_length (hdr e)))"
  using file_bytes_length[of e crc] by (simp add: flush_image emit_start file_bytes_def)

lemma flush_short:
  "wf e \<Longrightarrow> length buf < unat (eh_event_length (hdr e)) \<Longrightarrow> flush crc e buf = None"
  using file_bytes_length[of e crc] by (simp add: flush_image file_bytes_def)

lemma file_bytes_split: "wf e \<Longrightarrow> file_bytes crc e = header_bytes (hdr e) @ drop 19 (file_bytes crc e)"
  using image_header[of e] by (auto simp: file_bytes_def)

lemma file_bytes_header:
  "wf e \<Longrightarrow> proper_header (hdr e) \<Longrightarrow> OblogEventHeader_deserialize (file_bytes crc e @ ys) = Some (hdr e)"
  using image_header[of e] header_deserialize[of "hdr e"] by (force simp: file_bytes_def)

end

text \<open>
  What a writer and a reader promise together: \<^verbatim>\<open>ready e0 e\<close> says that the object \<^verbatim>\<open>e0\<close> can be filled from \<^verbatim>\<open>e\<close>,
  and \<^verbatim>\<open>absorb\<close> is what it is then.
\<close>

locale event_codec = event_writer wf hdr flag image summed flush
  for wf :: "'e \<Rightarrow> bool" and hdr :: "'e \<Rightarrow> OblogEventHeader" and flag :: "'e \<Rightarrow> u8"
    and image :: "'e \<Rightarrow> byte list" and summed :: "'e \<Rightarrow> byte list"
    and flush :: "crc32 \<Rightarrow> 'e \<Rightarrow> byte list \<Rightarrow> cursor option" +
  fixes deser :: "'e \<Rightarrow> byte list \<Rightarrow> 'e option"
    and ready :: "'e \<Rightarrow> 'e \<Rightarrow> bool"
    and absorb :: "'e \<Rightarrow> 'e \<Rightarrow> 'e"
  assumes deser_image: "wf e \<Longrightarrow> ready e0 e \<Longrightarrow> length cs = unat (get_checksum_len (flag e)) \<Longrightarrow>
      deser e0 (image e @ cs @ ys) = Some (absorb e0 e)"
begin

lemma deser_file_bytes: "wf e \<Longrightarrow> ready e0 e \<Longrightarrow> deser e0 (file_bytes crc e @ ys) = Some (absorb e0 e)"
  using deser_image[of e e0 "checksum_bytes crc (flag e) (summed e)" ys] wf_flag by (simp add: file_bytes_def)

lemma flush_deser:
  assumes "wf e" "ready e0 e" "unat (eh_event_length (hdr e)) \<le> length buf"
  shows "flush crc e buf \<bind> (\<lambda>(buf', n). deser e0 buf') = Some (absorb e0 e)"
  using assms by (simp add: flush_fits deser_file_bytes)

end

section \<open>\<^verbatim>\<open>XidEvent\<close>\<close>

record XidEvent = ObLogEvent +
  xid_xid :: u64
  xid_column_count :: u64

definition XidEvent_flush :: "crc32 \<Rightarrow> XidEvent \<Rightarrow> byte list \<Rightarrow> cursor option" where
  "XidEvent_flush crc e buff = do {
     h \<leftarrow> ev_header e;
     c \<leftarrow> OblogEventHeader_flush h (buff, 0);
     c \<leftarrow> emit (int8store (xid_xid e)) c;
     write_checksum crc (ev_checksum_flag e) c }"

definition XidEvent_deserialize :: "XidEvent \<Rightarrow> byte list \<Rightarrow> XidEvent option" where
  "XidEvent_deserialize e buff = do {
     h \<leftarrow> OblogEventHeader_deserialize buff;
     xid \<leftarrow> int8load buff COMMON_HEADER_LENGTH;
     let pos = (of_nat COMMON_HEADER_LENGTH + 8 + ucast (get_checksum_len (ev_checksum_flag e)) :: u64);
     if pos = ucast (eh_event_length h) then Some (e\<lparr>ev_header := Some h, xid_xid := xid\<rparr>) else None }"

section \<open>\<^verbatim>\<open>GtidLogEvent\<close>\<close>

record GtidLogEvent = ObLogEvent +
  gt_commit_flag :: u8
  gt_gtid_uuid :: "byte list"
  gt_gtid_txn_id :: u64
  gt_ts_type :: u32
  gt_last_committed :: u64
  gt_sequence_number :: u64

definition GtidLogEvent_flush :: "crc32 \<Rightarrow> GtidLogEvent \<Rightarrow> byte list \<Rightarrow> cursor option" where
  "GtidLogEvent_flush crc e buff = do {
     h \<leftarrow> ev_header e;
     c \<leftarrow> OblogEventHeader_flush h (buff, 0);
     c \<leftarrow> emit (int1store (gt_commit_flag e)) c;
     uuid \<leftarrow> peek SERVER_UUID_LEN (gt_gtid_uuid e) 0;
     c \<leftarrow> emit uuid c;
     c \<leftarrow> emit (int8store (gt_gtid_txn_id e)) c;
     c \<leftarrow> emit (int1store (ucast (gt_ts_type e))) c;
     c \<leftarrow> emit (int8store (gt_last_committed e)) c;
     c \<leftarrow> emit (int8store (gt_sequence_number e)) c;
     write_checksum crc (ev_checksum_flag e) c }"

definition GtidLogEvent_deserialize :: "GtidLogEvent \<Rightarrow> byte list \<Rightarrow> GtidLogEvent option" where
  "GtidLogEvent_deserialize e buff = do {
     h \<leftarrow> OblogEventHeader_deserialize buff;
     let pos = COMMON_HEADER_LENGTH;
     commit_flag \<leftarrow> int1load buff pos;
     uuid \<leftarrow> peek SERVER_UUID_LEN buff (pos + 1);
     txn_id \<leftarrow> int8load buff (pos + 17);
     ts_type \<leftarrow> int1load buff (pos + 25);
     last_committed \<leftarrow> int8load buff (pos + 26);
     sequence_number \<leftarrow> int8load buff (pos + 34);
     Some (e\<lparr>ev_header := Some h, gt_commit_flag := commit_flag, gt_gtid_uuid := uuid,
             gt_gtid_txn_id := txn_id, gt_ts_type := ucast ts_type, gt_last_committed := last_committed,
             gt_sequence_number := sequence_number\<rparr>) }"

definition GtidLogEvent_set_gtid_uuid ::
  "byte \<Rightarrow> byte list \<Rightarrow> string \<Rightarrow> GtidLogEvent \<Rightarrow> GtidLogEvent option" where
  "GtidLogEvent_set_gtid_uuid junk mem gtid_uuid e =
     (let parts = split gtid_uuid CHR ''-'' in
      if length parts = 5 then do {
        b0 \<leftarrow> hex_to_bin junk (parts ! 0) mem 0;
        b1 \<leftarrow> hex_to_bin junk (parts ! 1) b0 4;
        b2 \<leftarrow> hex_to_bin junk (parts ! 2) b1 6;
        b3 \<leftarrow> hex_to_bin junk (parts ! 3) b2 8;
        b4 \<leftarrow> hex_to_bin junk (parts ! 4) b3 10;
        Some (e\<lparr>gt_gtid_uuid := b4\<rparr>) }
      else Some e)"

section \<open>\<^verbatim>\<open>RotateEvent\<close> and \<^verbatim>\<open>HeartbeatEvent\<close>\<close>

datatype RotateOp = INIT | ROTATE

record RotateEvent = ObLogEvent +
  ro_next_binlog_position :: u64
  ro_next_binlog_file_name :: "byte list"
  ro_index :: u64
  ro_next_previous_gtids :: "GtidMessage list"
  ro_op :: RotateOp
  ro_existed :: bool

definition RotateEvent_init ::
  "bool \<Rightarrow> u32 \<Rightarrow> u64 \<Rightarrow> RotateOp \<Rightarrow> u64 \<Rightarrow> byte list \<Rightarrow> u64 \<Rightarrow> u32 \<Rightarrow> RotateEvent" where
  "RotateEvent_init binlog_checksum server_id junk_index junk_op next_position next_file_name timestamp begin_position =
     (let base = ObLogEvent_init binlog_checksum;
          event_len = (19 + 8 + of_nat (length next_file_name) + ucast (get_checksum_len (ev_checksum_flag base)) :: u32);
          end_position = begin_position + event_len
      in ObLogEvent.extend
           (base\<lparr>ev_header := Some (OblogEventHeader_init server_id ROTATE_EVENT timestamp event_len end_position)\<rparr>)
           (RotateEvent.fields next_position next_file_name junk_index [] junk_op False))"

definition RotateEvent_flush :: "crc32 \<Rightarrow> RotateEvent \<Rightarrow> byte list \<Rightarrow> cursor option" where
  "RotateEvent_flush crc e buff = do {
     h \<leftarrow> ev_header e;
     c \<leftarrow> OblogEventHeader_flush h (buff, 0);
     c \<leftarrow> emit (int8store (ro_next_binlog_position e)) c;
     c \<leftarrow> emit (ro_next_binlog_file_name e) c;
     write_checksum crc (ev_checksum_flag e) c }"

definition RotateEvent_deserialize :: "RotateEvent \<Rightarrow> byte list \<Rightarrow> RotateEvent option" where
  "RotateEvent_deserialize e buff = do {
     h \<leftarrow> OblogEventHeader_deserialize buff;
     position \<leftarrow> int8load buff COMMON_HEADER_LENGTH;
     let name_len = (ucast (eh_event_length h) - ucast (get_checksum_len (ev_checksum_flag e)) - 27 :: u64);
     name \<leftarrow> peek (unat name_len) buff 27;
     let pos = 27 + name_len + ucast (get_checksum_len (ev_checksum_flag e));
     if pos = ucast (eh_event_length h)
     then Some (e\<lparr>ev_header := Some h, ro_next_binlog_position := position,
                  ro_next_binlog_file_name := name, ro_op := ROTATE\<rparr>)
     else None }"

record HeartbeatEvent = ObLogEvent +
  hb_binlog_file_name :: "byte list"

definition HeartbeatEvent_init :: "bool \<Rightarrow> u32 \<Rightarrow> byte list \<Rightarrow> u64 \<Rightarrow> HeartbeatEvent" where
  "HeartbeatEvent_init binlog_checksum server_id file_name pos =
     (let base = ObLogEvent_init binlog_checksum;
          event_len = (19 + 0 + of_nat (length file_name) + ucast (get_checksum_len (ev_checksum_flag base)) :: u32)
      in ObLogEvent.extend
           (base\<lparr>ev_header := Some (OblogEventHeader_init server_id HEARTBEAT_LOG_EVENT 0 event_len (ucast pos))\<rparr>)
           (HeartbeatEvent.fields file_name))"

definition HeartbeatEvent_flush :: "crc32 \<Rightarrow> HeartbeatEvent \<Rightarrow> byte list \<Rightarrow> cursor option" where
  "HeartbeatEvent_flush crc e buff = do {
     h \<leftarrow> ev_header e;
     c \<leftarrow> OblogEventHeader_flush h (buff, 0);
     c \<leftarrow> emit (hb_binlog_file_name e) c;
     write_checksum crc (ev_checksum_flag e) c }"


section \<open>The writers and readers meet the contract\<close>

abbreviation event_hdr :: "'a ObLogEvent_scheme \<Rightarrow> OblogEventHeader" where
  "event_hdr e \<equiv> the (ev_header e)"

text \<open>What every event asks of its header and flag, and the length of its image.\<close>

definition event_ok :: "byte list \<Rightarrow> 'a ObLogEvent_scheme \<Rightarrow> bool" where
  "event_ok img e \<longleftrightarrow> ev_header e \<noteq> None \<and> proper_header (event_hdr e) \<and> proper_flag (ev_checksum_flag e) \<and>
     length img + unat (get_checksum_len (ev_checksum_flag e)) = unat (eh_event_length (event_hdr e))"

lemma event_okD:
  assumes "event_ok img e"
  shows "ev_header e = Some (event_hdr e)" "proper_header (event_hdr e)" "proper_flag (ev_checksum_flag e)"
    "length img + unat (get_checksum_len (ev_checksum_flag e)) = unat (eh_event_length (event_hdr e))"
  using assms by (auto simp: event_ok_def)

lemma event_length_u64:
  assumes "event_ok img e"
  shows "ucast (eh_event_length (event_hdr e)) =
         (of_nat (length img) + ucast (get_checksum_len (ev_checksum_flag e)) :: u64)"
proof -
  have "unat (eh_event_length (event_hdr e)) = length img + unat (get_checksum_len (ev_checksum_flag e))"
    using event_okD(4)[OF assms] by simp
  then have "(of_nat (unat (eh_event_length (event_hdr e))) :: u64) =
      of_nat (length img + unat (get_checksum_len (ev_checksum_flag e)))" by simp
  then show ?thesis by simp
qed

abbreviation same_flag :: "'a ObLogEvent_scheme \<Rightarrow> 'b ObLogEvent_scheme \<Rightarrow> bool" where
  "same_flag e0 e \<equiv> ev_checksum_flag e0 = ev_checksum_flag e"

definition xid_image :: "XidEvent \<Rightarrow> byte list" where
  "xid_image e = header_bytes (event_hdr e) @ int8store (xid_xid e)"

definition xid_wf :: "XidEvent \<Rightarrow> bool" where
  "xid_wf e = event_ok (xid_image e) e"

definition xid_absorb :: "XidEvent \<Rightarrow> XidEvent \<Rightarrow> XidEvent" where
  "xid_absorb e0 e = e0\<lparr>ev_header := ev_header e, xid_xid := xid_xid e\<rparr>"

interpretation xe: event_codec xid_wf event_hdr ev_checksum_flag xid_image xid_image
  XidEvent_flush XidEvent_deserialize same_flag xid_absorb
proof (unfold_locales, goal_cases)
  case (1 e crc buf)
  then obtain h where "ev_header e = Some h" by (auto simp: xid_wf_def event_ok_def)
  then show ?case
    using 1 emit_checksum[of "xid_image e" buf crc "ev_checksum_flag e"]
    by (simp add: xid_wf_def XidEvent_flush_def header_flush xid_image_def)
next
  case (5 e e0 cs ys)
  then obtain h where "ev_header e = Some h" "proper_header h" by (auto simp: xid_wf_def event_ok_def)
  then show ?case
    using 5 event_length_u64[of "xid_image e" e] header_deserialize[of h]
    by (simp add: xid_wf_def XidEvent_deserialize_def xid_image_def COMMON_HEADER_LENGTH_def
        xid_absorb_def Let_def)
qed (auto simp: xid_wf_def event_ok_def xid_image_def)

definition gtid_image :: "GtidLogEvent \<Rightarrow> byte list" where
  "gtid_image e = header_bytes (event_hdr e) @ int1store (gt_commit_flag e) @ gt_gtid_uuid e @
     int8store (gt_gtid_txn_id e) @ int1store (ucast (gt_ts_type e)) @ int8store (gt_last_committed e) @
     int8store (gt_sequence_number e)"

definition gtid_wf :: "GtidLogEvent \<Rightarrow> bool" where
  "gtid_wf e \<longleftrightarrow> event_ok (gtid_image e) e \<and> length (gt_gtid_uuid e) = 16 \<and> unat (gt_ts_type e) < 256"

definition gtid_absorb :: "GtidLogEvent \<Rightarrow> GtidLogEvent \<Rightarrow> GtidLogEvent" where
  "gtid_absorb e0 e = e0\<lparr>ev_header := ev_header e, gt_commit_flag := gt_commit_flag e,
     gt_gtid_uuid := gt_gtid_uuid e, gt_gtid_txn_id := gt_gtid_txn_id e, gt_ts_type := gt_ts_type e,
     gt_last_committed := gt_last_committed e, gt_sequence_number := gt_sequence_number e\<rparr>"

interpretation ge: event_codec gtid_wf event_hdr ev_checksum_flag gtid_image gtid_image
  GtidLogEvent_flush GtidLogEvent_deserialize "\<lambda>_ _. True" gtid_absorb
proof (unfold_locales, goal_cases)
  case (1 e crc buf)
  then obtain h where "ev_header e = Some h" by (auto simp: gtid_wf_def event_ok_def)
  then show ?case
    using 1 emit_checksum[of "gtid_image e" buf crc "ev_checksum_flag e"]
    by (simp add: gtid_wf_def GtidLogEvent_flush_def header_flush gtid_image_def SERVER_UUID_LEN_def)
next
  case (5 e e0 cs ys)
  then obtain h where "ev_header e = Some h" "proper_header h" by (auto simp: gtid_wf_def event_ok_def)
  then show ?case
    using 5 header_deserialize[of h]
    by (simp add: gtid_wf_def GtidLogEvent_deserialize_def gtid_image_def COMMON_HEADER_LENGTH_def
        gtid_absorb_def SERVER_UUID_LEN_def Let_def ucast_ucast_small)
qed (auto simp: gtid_wf_def event_ok_def gtid_image_def)

definition rotate_image :: "RotateEvent \<Rightarrow> byte list" where
  "rotate_image e = header_bytes (event_hdr e) @ int8store (ro_next_binlog_position e) @ ro_next_binlog_file_name e"

definition rotate_wf :: "RotateEvent \<Rightarrow> bool" where
  "rotate_wf e = event_ok (rotate_image e) e"

definition rotate_absorb :: "RotateEvent \<Rightarrow> RotateEvent \<Rightarrow> RotateEvent" where
  "rotate_absorb e0 e = e0\<lparr>ev_header := ev_header e, ro_next_binlog_position := ro_next_binlog_position e,
     ro_next_binlog_file_name := ro_next_binlog_file_name e, ro_op := ROTATE\<rparr>"

interpretation re: event_codec rotate_wf event_hdr ev_checksum_flag rotate_image rotate_image
  RotateEvent_flush RotateEvent_deserialize same_flag rotate_absorb
proof (unfold_locales, goal_cases)
  case (1 e crc buf)
  then obtain h where "ev_header e = Some h" by (auto simp: rotate_wf_def event_ok_def)
  then show ?case
    using 1 emit_checksum[of "rotate_image e" buf crc "ev_checksum_flag e"]
    by (simp add: rotate_wf_def RotateEvent_flush_def header_flush rotate_image_def)
next
  case (5 e e0 cs ys)
  then have ok: "event_ok (rotate_image e) e" by (simp add: rotate_wf_def)
  let ?n = "length (ro_next_binlog_file_name e)"
  have "27 + ?n \<le> unat (eh_event_length (event_hdr e))"
    using event_okD(4)[OF ok] by (simp add: rotate_image_def)
  then have n: "?n < 2 ^ 64" using unat_bound[of "eh_event_length (event_hdr e)"] by simp
  have len: "ucast (eh_event_length (event_hdr e)) =
      (27 + of_nat ?n + ucast (get_checksum_len (ev_checksum_flag e)) :: u64)"
    using event_length_u64[OF ok] by (simp add: rotate_image_def)
  obtain h where "ev_header e = Some h" "proper_header h" using ok by (auto simp: event_ok_def)
  then show ?case
    using 5(2) header_deserialize[of h] n len
    by (simp add: RotateEvent_deserialize_def rotate_image_def COMMON_HEADER_LENGTH_def rotate_absorb_def
        Let_def)
qed (auto simp: rotate_wf_def event_ok_def rotate_image_def)


section \<open>Properties\<close>

lemmas init_simps = ObLogEvent_init_def OblogEventHeader_init_def Let_def proper_flag_def get_checksum_len_def CRC32_def OFF_def
  COMMON_CHECKSUM_LENGTH_def COMMON_HEADER_LENGTH_def ObLogEvent.defs

definition crc_zero :: crc32 where "crc_zero bs = 0"

lemma rotate_init_wf:
  assumes "length name + 31 < 2 ^ 32" "unat timestamp < 2 ^ 32"
  shows "rotate_wf (RotateEvent_init binlog_checksum server_id junk_index junk_op next_position name timestamp pos)"
proof -
  have "proper_type ROTATE_EVENT" by (rule named_proper) (simp add: named_events_def)
  moreover have "27 + of_nat (length name) + 4 = (of_nat (length name + 31) :: u32)"
    "27 + of_nat (length name) = (of_nat (length name + 27) :: u32)" by simp_all
  ultimately show ?thesis
    using assms
    by (auto simp: rotate_wf_def event_ok_def RotateEvent_init_def proper_header_def init_simps rotate_image_def
        RotateEvent.defs simp del: of_nat_add)
qed

text \<open>A rotate event names the next binlog file and survives the file: whatever the name, the announced
  length is the length written, nothing behind it changes, and a reader with the same checksum setting
  recovers position and name.  A buffer shorter than the announced length is never written past its end.\<close>

theorem rotate_roundtrip:
  fixes binlog_checksum server_id junk_index junk_op next_position name timestamp pos
  defines "e \<equiv> RotateEvent_init binlog_checksum server_id junk_index junk_op next_position name timestamp pos"
  assumes "length name + 31 < 2 ^ 32" "unat timestamp < 2 ^ 32" "ev_checksum_flag e0 = ev_checksum_flag e"
  shows "if length buf < unat (eh_event_length (event_hdr e)) then RotateEvent_flush crc e buf = None
         else \<exists>buf'. RotateEvent_flush crc e buf = Some (buf', unat (eh_event_length (event_hdr e))) \<and>
                drop (unat (eh_event_length (event_hdr e))) buf' = drop (unat (eh_event_length (event_hdr e))) buf \<and>
                RotateEvent_deserialize e0 buf' =
                  Some (e0\<lparr>ev_header := ev_header e, ro_next_binlog_position := next_position,
                           ro_next_binlog_file_name := name, ro_op := ROTATE\<rparr>)"
proof -
  have wf: "rotate_wf e" unfolding e_def by (rule rotate_init_wf[OF assms(2,3)])
  have f: "ro_next_binlog_position e = next_position" "ro_next_binlog_file_name e = name"
    by (simp_all add: e_def RotateEvent_init_def Let_def ObLogEvent.defs RotateEvent.defs)
  show ?thesis
    using re.flush_fits[OF wf, of buf crc] re.flush_short[OF wf, of buf crc] re.deser_file_bytes[OF wf assms(4), of crc]
      re.file_bytes_length[OF wf, of crc]
    by (auto simp: rotate_absorb_def f)
qed

theorem rotate_roundtrip_witness:
  "\<exists>buf'. RotateEvent_flush crc_zero (RotateEvent_init True 1 0 INIT 4 [98, 49] 7 200) (replicate 40 0) = Some (buf', 33) \<and>
     RotateEvent_deserialize (RotateEvent_init True 0 0 INIT 0 [] 0 0) buf' =
       Some ((RotateEvent_init True 0 0 INIT 0 [] 0 0)\<lparr>
         ev_header := ev_header (RotateEvent_init True 1 0 INIT 4 [98, 49] 7 200),
         ro_next_binlog_position := 4, ro_next_binlog_file_name := [98, 49], ro_op := ROTATE\<rparr>)"
  using rotate_roundtrip [of "[98, 49]" 7 "RotateEvent_init True 0 0 INIT 0 [] 0 0" True 1 0 INIT 4 200
      "replicate 40 0" crc_zero]
  by (auto simp: RotateEvent_init_def init_simps RotateEvent.defs)

end
