(* ===== verification/FileEvents.thy ===== *)
theory FileEvents
  imports LogEvent
begin

unbundle bit_operations_syntax

text \<open>
  The two events every binlog file starts with: \<^verbatim>\<open>FormatDescriptionEvent\<close>, whose checksum is taken with
  the in-use flag cleared, and \<^verbatim>\<open>PreviousGtidsLogEvent\<close>, which stores its intervals closed on the left
  and open on the right.
\<close>

section \<open>\<^verbatim>\<open>PreviousGtidsLogEvent\<close>\<close>

record PreviousGtidsLogEvent = ObLogEvent +
  pg_gtid_uuid_num :: u64
  pg_gtid_messages :: gtid_messages

fun set_gtid_messages :: "GtidMessage list \<Rightarrow> gtid_messages \<Rightarrow> gtid_messages option" where
  "set_gtid_messages [] gm = Some gm"
| "set_gtid_messages (m # ms) gm = do {
     uuid_str \<leftarrow> uuid_hex_bin_to_str (gm_gtid_uuid m);
     set_gtid_messages ms (omap_emplace uuid_str m gm) }"

definition PreviousGtidsLogEvent_init ::
  "bool \<Rightarrow> u32 \<Rightarrow> u32 \<Rightarrow> GtidMessage list \<Rightarrow> u64 \<Rightarrow> PreviousGtidsLogEvent option" where
  "PreviousGtidsLogEvent_init binlog_checksum server_id gtid_uuid_num gtid_messages timestamp = do {
     gm \<leftarrow> set_gtid_messages gtid_messages [];
     let base = ObLogEvent_init binlog_checksum;
     let header_len = COMMON_HEADER_LENGTH + 8 + (\<Sum>(k, m)\<leftarrow>gm. SERVER_UUID_LEN + 8 + 16 * length (gm_txn_range m))
                        + unat (get_checksum_len (ev_checksum_flag base));
     if unat gtid_uuid_num = length gm
     then Some (ObLogEvent.extend
            (base\<lparr>ev_header := Some (OblogEventHeader_init server_id PREVIOUS_GTIDS_LOG_EVENT timestamp
                                        (of_nat header_len) 0)\<rparr>)
            (PreviousGtidsLogEvent.fields (ucast gtid_uuid_num) gm))
     else None }"

fun emit_ranges :: "txn_range list \<Rightarrow> cursor \<Rightarrow> cursor option" where
  "emit_ranges [] c = Some c"
| "emit_ranges (r # rs) c = do {
     c \<leftarrow> emit (int8store (fst r)) c;
     c \<leftarrow> emit (int8store (snd r + 1)) c;
     emit_ranges rs c }"

fun emit_messages :: "gtid_messages \<Rightarrow> cursor \<Rightarrow> cursor option" where
  "emit_messages [] c = Some c"
| "emit_messages ((k, m) # ms) c = do {
     uuid \<leftarrow> gm_gtid_uuid m;
     bs \<leftarrow> peek SERVER_UUID_LEN uuid 0;
     c \<leftarrow> emit bs c;
     c \<leftarrow> emit (int8store (gm_gtid_txn_id_intervals m)) c;
     c \<leftarrow> emit_ranges (gm_txn_range m) c;
     emit_messages ms c }"

definition PreviousGtidsLogEvent_flush :: "crc32 \<Rightarrow> PreviousGtidsLogEvent \<Rightarrow> byte list \<Rightarrow> cursor option" where
  "PreviousGtidsLogEvent_flush crc e buff = do {
     h \<leftarrow> ev_header e;
     c \<leftarrow> OblogEventHeader_flush h (buff, 0);
     c \<leftarrow> emit (int8store (pg_gtid_uuid_num e)) c;
     if unat (pg_gtid_uuid_num e) = length (pg_gtid_messages e) then do {
       c \<leftarrow> emit_messages (pg_gtid_messages e) c;
       write_checksum crc (ev_checksum_flag e) c }
     else None }"

primrec read_ranges :: "nat \<Rightarrow> byte list \<Rightarrow> nat \<Rightarrow> (txn_range list \<times> nat) option" where
  "read_ranges 0 buff pos = Some ([], pos)"
| "read_ranges (Suc n) buff pos = do {
     txn_start \<leftarrow> int8load buff pos;
     txn_end \<leftarrow> int8load buff (pos + 8);
     (rs, pos') \<leftarrow> read_ranges n buff (pos + 16);
     Some ((txn_start, if txn_start \<noteq> txn_end then txn_end - 1 else txn_end) # rs, pos') }"

primrec read_messages :: "nat \<Rightarrow> byte list \<Rightarrow> nat \<Rightarrow> GtidMessage list option" where
  "read_messages 0 buff pos = Some []"
| "read_messages (Suc n) buff pos = do {
     uuid \<leftarrow> peek SERVER_UUID_LEN buff pos;
     intervals \<leftarrow> int8load buff (pos + SERVER_UUID_LEN);
     (rs, pos') \<leftarrow> read_ranges (unat intervals) buff (pos + SERVER_UUID_LEN + 8);
     ms \<leftarrow> read_messages n buff pos';
     Some (\<lparr>gm_gtid_uuid = Some uuid, gm_gtid_txn_id_intervals = intervals, gm_txn_range = rs\<rparr> # ms) }"

definition PreviousGtidsLogEvent_deserialize ::
  "PreviousGtidsLogEvent \<Rightarrow> byte list \<Rightarrow> PreviousGtidsLogEvent option" where
  "PreviousGtidsLogEvent_deserialize e buff = do {
     h \<leftarrow> OblogEventHeader_deserialize buff;
     num \<leftarrow> int8load buff COMMON_HEADER_LENGTH;
     ms \<leftarrow> read_messages (unat num) buff (COMMON_HEADER_LENGTH + 8);
     gm \<leftarrow> set_gtid_messages ms (pg_gtid_messages e);
     Some (e\<lparr>ev_header := Some h, pg_gtid_uuid_num := num, pg_gtid_messages := gm\<rparr>) }"

definition range_bytes :: "txn_range \<Rightarrow> byte list" where
  "range_bytes r = int8store (fst r) @ int8store (snd r + 1)"

definition message_bytes :: "string \<times> GtidMessage \<Rightarrow> byte list" where
  "message_bytes km = the (gm_gtid_uuid (snd km)) @ int8store (gm_gtid_txn_id_intervals (snd km)) @
     concat (map range_bytes (gm_txn_range (snd km)))"

definition message_ok :: "string \<times> GtidMessage \<Rightarrow> bool" where
  "message_ok km \<longleftrightarrow> (case gm_gtid_uuid (snd km) of None \<Rightarrow> False
     | Some u \<Rightarrow> length u = 16 \<and> fst km = dumphex u) \<and>
     unat (gm_gtid_txn_id_intervals (snd km)) = length (gm_txn_range (snd km)) \<and>
     list_all valid_range (gm_txn_range (snd km))"

lemma emit_ranges_Cons: "emit_ranges (r # rs) = (\<lambda>c. emit (range_bytes r) c \<bind> emit_ranges rs)"
  by (rule ext) (simp add: range_bytes_def)

lemma bind_Some_emit: "emit a c \<bind> Some = emit a c"
  by (cases "emit a c") auto

lemma emit_then_ranges: "emit a c \<bind> emit_ranges rs = emit (a @ concat (map range_bytes rs)) c"
proof (induction rs arbitrary: a)
  case Nil
  have "emit_ranges [] = Some" by (rule ext) simp
  then show ?case by (simp add: bind_Some_emit)
next
  case (Cons r rs)
  then show ?case using Cons.IH[of "a @ range_bytes r"] by (simp add: emit_ranges_Cons)
qed

lemma emit_messages_Cons:
  "gm_gtid_uuid m = Some u \<Longrightarrow> length u = 16 \<Longrightarrow>
   emit_messages ((k, m) # ms) = (\<lambda>c. emit (message_bytes (k, m)) c \<bind> emit_messages ms)"
proof (rule ext)
  fix c
  assume u: "gm_gtid_uuid m = Some u" "length u = 16"
  let ?a = "u @ int8store (gm_gtid_txn_id_intervals m)"
  have "emit_messages ((k, m) # ms) c = (emit ?a c \<bind> emit_ranges (gm_txn_range m)) \<bind> emit_messages ms"
    using u by (simp add: SERVER_UUID_LEN_def)
  then show "emit_messages ((k, m) # ms) c = emit (message_bytes (k, m)) c \<bind> emit_messages ms"
    using u by (simp only: emit_then_ranges) (simp add: message_bytes_def)
qed

lemma emit_then_messages:
  "list_all message_ok ms \<Longrightarrow>
   emit a c \<bind> emit_messages ms = emit (a @ concat (map message_bytes ms)) c"
proof (induction ms arbitrary: a)
  case Nil
  have "emit_messages [] = Some" by (rule ext) simp
  then show ?case by (simp add: bind_Some_emit)
next
  case (Cons km ms)
  obtain k m where km: "km = (k, m)" by (cases km)
  from Cons.prems obtain u where u: "gm_gtid_uuid m = Some u" "length u = 16"
    by (auto simp: message_ok_def km split: option.splits)
  then show ?case using Cons by (simp add: km emit_messages_Cons)
qed

lemma length_range_bytes [simp]: "length (range_bytes r) = 16"
  by (simp add: range_bytes_def)

lemma length_ranges [simp]: "length (concat (map range_bytes rs)) = 16 * length rs"
  by (induction rs) auto

lemma valid_range_open: "valid_range r \<Longrightarrow> fst r \<noteq> snd r + 1"
  using word_succ_le[of "snd r" "snd r + 1"] by (auto simp: valid_range_def)

lemma read_ranges_bytes:
  "list_all valid_range rs \<Longrightarrow>
   read_ranges (length rs) (xs @ concat (map range_bytes rs) @ ys) (length xs) =
     Some (rs, length xs + 16 * length rs)"
proof (induction rs arbitrary: xs)
  case (Cons r rs)
  have "read_ranges (length rs) ((xs @ range_bytes r) @ concat (map range_bytes rs) @ ys) (length (xs @ range_bytes r)) =
      Some (rs, length (xs @ range_bytes r) + 16 * length rs)"
    using Cons by (intro Cons.IH) simp
  then show ?case using Cons.prems valid_range_open[of r]
    by (simp add: range_bytes_def[of r])
qed simp

lemma length_message_bytes:
  "message_ok km \<Longrightarrow> length (message_bytes km) = 24 + 16 * length (gm_txn_range (snd km))"
  by (auto simp: message_ok_def message_bytes_def split: option.splits)

lemma read_messages_bytes:
  "list_all message_ok ms \<Longrightarrow>
   read_messages (length ms) (xs @ concat (map message_bytes ms) @ ys) (length xs) = Some (map snd ms)"
proof (induction ms arbitrary: xs)
  case (Cons km ms)
  obtain k m where km: "km = (k, m)" by (cases km)
  from Cons.prems obtain u where u: "gm_gtid_uuid m = Some u" "length u = 16"
    and n: "unat (gm_gtid_txn_id_intervals m) = length (gm_txn_range m)" "list_all valid_range (gm_txn_range m)"
    by (auto simp: message_ok_def km split: option.splits)
  let ?i = "int8store (gm_gtid_txn_id_intervals m)" and ?rest = "concat (map message_bytes ms) @ ys"
  have mb: "message_bytes km = u @ ?i @ concat (map range_bytes (gm_txn_range m))"
    using u by (simp add: message_bytes_def km)
  have rs: "read_ranges (length (gm_txn_range m)) (xs @ u @ ?i @ concat (map range_bytes (gm_txn_range m)) @ ?rest)
      (length xs + 24) = Some (gm_txn_range m, length xs + 24 + 16 * length (gm_txn_range m))"
    using read_ranges_bytes[OF n(2), of "xs @ u @ ?i" ?rest] u by simp
  have ms: "read_messages (length ms) (xs @ u @ ?i @ concat (map range_bytes (gm_txn_range m)) @ ?rest)
      (length xs + 24 + 16 * length (gm_txn_range m)) = Some (map snd ms)"
    using Cons.IH[of "xs @ message_bytes km"] Cons.prems u by (simp add: mb add.assoc)
  show ?case
    using u rs ms by (simp add: mb[unfolded km] km SERVER_UUID_LEN_def n(1) add.assoc)
qed simp

lemma omap_put_last:
  "(\<And>k'. k' \<in> set (map fst m) \<Longrightarrow> k' < k) \<Longrightarrow> omap_put k v m = m @ [(k, v)]"
  by (induction k v m rule: omap_put.induct) (auto simp: order.strict_iff_not)

lemma set_gtid_messages_sorted:
  "list_all message_ok ms \<Longrightarrow> omap_inv (gm @ ms) \<Longrightarrow> set_gtid_messages (map snd ms) gm = Some (gm @ ms)"
proof (induction ms arbitrary: gm)
  case (Cons km ms)
  obtain k m where km: "km = (k, m)" by (cases km)
  from Cons.prems(1) have key: "uuid_hex_bin_to_str (gm_gtid_uuid m) = Some k"
    by (auto simp: message_ok_def km uuid_hex_bin_to_str_def SERVER_UUID_LEN_def split: option.splits)
  have lt: "k' < k" if "k' \<in> set (map fst gm)" for k'
    using Cons.prems(2) that by (auto simp: omap_inv_def sorted_wrt_append km)
  then have "map_of gm k = None" by (auto simp: map_of_eq_None_iff)
  then have "omap_emplace k m gm = gm @ [(k, m)]"
    using omap_put_last[of gm k m] lt by (simp add: omap_emplace_def)
  then show ?case using Cons.IH[of "gm @ [(k, m)]"] Cons.prems key by (simp add: km)
qed simp

definition previous_image :: "PreviousGtidsLogEvent \<Rightarrow> byte list" where
  "previous_image e = header_bytes (event_hdr e) @ int8store (pg_gtid_uuid_num e) @
     concat (map message_bytes (pg_gtid_messages e))"

definition previous_wf :: "PreviousGtidsLogEvent \<Rightarrow> bool" where
  "previous_wf e \<longleftrightarrow> event_ok (previous_image e) e \<and> list_all message_ok (pg_gtid_messages e) \<and>
     omap_inv (pg_gtid_messages e) \<and> unat (pg_gtid_uuid_num e) = length (pg_gtid_messages e)"

definition previous_absorb :: "PreviousGtidsLogEvent \<Rightarrow> PreviousGtidsLogEvent \<Rightarrow> PreviousGtidsLogEvent" where
  "previous_absorb e0 e = e0\<lparr>ev_header := ev_header e, pg_gtid_uuid_num := pg_gtid_uuid_num e,
     pg_gtid_messages := pg_gtid_messages e\<rparr>"

interpretation pe: event_codec previous_wf event_hdr ev_checksum_flag previous_image previous_image
  PreviousGtidsLogEvent_flush PreviousGtidsLogEvent_deserialize "\<lambda>e0 _. pg_gtid_messages e0 = []" previous_absorb
proof (unfold_locales, goal_cases)
  case (1 e crc buf)
  then obtain h where h: "ev_header e = Some h" by (auto simp: previous_wf_def event_ok_def)
  have "PreviousGtidsLogEvent_flush crc e buf =
      (emit (header_bytes h @ int8store (pg_gtid_uuid_num e)) (buf, 0) \<bind> emit_messages (pg_gtid_messages e))
        \<bind> write_checksum crc (ev_checksum_flag e)"
    using 1 h by (simp add: previous_wf_def PreviousGtidsLogEvent_flush_def header_flush)
  then show ?case
    using 1 h emit_checksum[of "previous_image e" buf crc "ev_checksum_flag e"]
    by (simp only: previous_wf_def emit_then_messages) (simp add: previous_image_def)
next
  case (5 e e0 cs ys)
  then obtain h where h: "ev_header e = Some h" "proper_header h" by (auto simp: previous_wf_def event_ok_def)
  let ?ms = "pg_gtid_messages e"
  have "read_messages (length ?ms) (header_bytes h @ int8store (pg_gtid_uuid_num e) @
      concat (map message_bytes ?ms) @ cs @ ys) 27 = Some (map snd ?ms)"
    using 5 read_messages_bytes[of ?ms "header_bytes h @ int8store (pg_gtid_uuid_num e)" "cs @ ys"]
    by (simp add: previous_wf_def)
  moreover have "set_gtid_messages (map snd ?ms) [] = Some ?ms"
    using 5 set_gtid_messages_sorted[of ?ms "[]"] by (simp add: previous_wf_def)
  ultimately show ?case
    using 5 h header_deserialize[of h]
    by (simp add: previous_wf_def PreviousGtidsLogEvent_deserialize_def previous_image_def
        COMMON_HEADER_LENGTH_def previous_absorb_def)
qed (auto simp: previous_wf_def event_ok_def previous_image_def)


section \<open>\<^verbatim>\<open>FormatDescriptionEvent\<close>\<close>

definition ST_SERVER_VER_LEN :: nat where "ST_SERVER_VER_LEN = 50"
definition LOG_EVENT_TYPES :: nat where "LOG_EVENT_TYPES = unat (event_code ENUM_END_EVENT) - 1"
definition LOG_EVENT_BINLOG_IN_USE_F :: u16 where "LOG_EVENT_BINLOG_IN_USE_F = 1"
definition FLAGS_OFFSET :: nat where "FLAGS_OFFSET = 17"
definition BINLOG_MAGIC_SIZE :: u32 where "BINLOG_MAGIC_SIZE = 4"
definition BINLOG_VERSION :: u16 where "BINLOG_VERSION = 4"

record FormatDescriptionEvent = ObLogEvent +
  fd_version :: u16
  fd_server_version :: "byte list"
  fd_timestamp :: u64
  fd_header_len :: u8
  fd_event_type_header_len :: "u8 list"

definition server_event_header_length :: "u8 list" where
  "server_event_header_length =
     [2 + 50 + 4, 4 + 4 + 1 + 2 + 2, 0, 8, 0, 4 + 4 + 4 + 1 + 1 + 4, 0, 4, 4, 4, 4,
      4 + 4 + 4 + 1 + 1 + 4, 0, 0, 2 + 50 + 4 + 1 + 39, 0, 4, 13 + 4 + 4 + 4 + 1, 8, 0, 0, 0, 8, 8, 8, 2, 0,
      0, 0, 10, 10, 10, 42, 42, 0, 18, 52, 0, 10]"

definition FormatDescriptionEvent_init :: "bool \<Rightarrow> u32 \<Rightarrow> u64 \<Rightarrow> FormatDescriptionEvent" where
  "FormatDescriptionEvent_init binlog_checksum server_id timestamp =
     (let base = ObLogEvent_init binlog_checksum;
          table = take LOG_EVENT_TYPES server_event_header_length;
          event_len = (ucast (get_checksum_len (ev_checksum_flag base)) + 1 + of_nat COMMON_HEADER_LENGTH +
                       ucast (table ! (unat (event_code FORMAT_DESCRIPTION_EVENT) - 1)) :: u32);
          h = \<lparr>eh_timestamp = timestamp, eh_type_code = FORMAT_DESCRIPTION_EVENT, eh_server_id = server_id,
               eh_event_length = event_len, eh_next_position = BINLOG_MAGIC_SIZE + event_len,
               eh_flags = LOG_EVENT_BINLOG_IN_USE_F\<rparr>
      in ObLogEvent.extend (base\<lparr>ev_header := Some h\<rparr>)
           (FormatDescriptionEvent.fields BINLOG_VERSION (ascii ''5.7.38'') timestamp
              (of_nat COMMON_HEADER_LENGTH) table))"

text \<open>\<^verbatim>\<open>memset\<close> of the 50 bytes and \<^verbatim>\<open>strncpy\<close> of at most 49 characters of the version.\<close>

definition version_field :: "byte list \<Rightarrow> byte list" where
  "version_field s = (let v = take (ST_SERVER_VER_LEN - 1) (takeWhile (\<lambda>b. b \<noteq> 0) s)
                      in v @ replicate (ST_SERVER_VER_LEN - length v) 0)"

fun emit_each :: "u8 list \<Rightarrow> cursor \<Rightarrow> cursor option" where
  "emit_each [] c = Some c"
| "emit_each (b # bs) c = do { c \<leftarrow> emit (int1store b) c; emit_each bs c }"

definition store_flags :: "OblogEventHeader \<Rightarrow> u16 \<Rightarrow> cursor \<Rightarrow> cursor option" where
  "store_flags h flags c =
     (if eh_flags h AND LOG_EVENT_BINLOG_IN_USE_F \<noteq> 0
      then map_option (\<lambda>buf. (buf, snd c)) (poke (fst c) FLAGS_OFFSET (int2store flags)) else Some c)"

definition FormatDescriptionEvent_flush :: "crc32 \<Rightarrow> FormatDescriptionEvent \<Rightarrow> byte list \<Rightarrow> cursor option" where
  "FormatDescriptionEvent_flush crc e buff = do {
     h \<leftarrow> ev_header e;
     c \<leftarrow> OblogEventHeader_flush h (buff, 0);
     c \<leftarrow> emit (int2store (fd_version e)) c;
     c \<leftarrow> emit (version_field (fd_server_version e)) c;
     c \<leftarrow> emit (int4store (ucast (fd_timestamp e))) c;
     c \<leftarrow> emit (int1store (fd_header_len e)) c;
     c \<leftarrow> emit_each (fd_event_type_header_len e) c;
     c \<leftarrow> emit (int1store (ev_checksum_flag e)) c;
     c \<leftarrow> store_flags h 0 c;
     c \<leftarrow> write_checksum crc (ev_checksum_flag e) c;
     store_flags h (eh_flags h) c }"

primrec read_each :: "nat \<Rightarrow> byte list \<Rightarrow> nat \<Rightarrow> u8 list option" where
  "read_each 0 buff pos = Some []"
| "read_each (Suc n) buff pos = do {
     b \<leftarrow> int1load buff pos;
     bs \<leftarrow> read_each n buff (pos + 1);
     Some (b # bs) }"

definition FormatDescriptionEvent_deserialize ::
  "FormatDescriptionEvent \<Rightarrow> byte list \<Rightarrow> FormatDescriptionEvent option" where
  "FormatDescriptionEvent_deserialize e buff = do {
     h \<leftarrow> OblogEventHeader_deserialize buff;
     version \<leftarrow> int2load buff 19;
     field \<leftarrow> peek ST_SERVER_VER_LEN buff 21;
     server_version \<leftarrow> c_string field;
     timestamp \<leftarrow> int4load buff 71;
     header_len \<leftarrow> int1load buff 75;
     if 76 + LOG_EVENT_TYPES \<le> unat (eh_event_length h) then do {
       table \<leftarrow> read_each LOG_EVENT_TYPES buff 76;
       flag \<leftarrow> int1load buff (76 + LOG_EVENT_TYPES);
       Some (e\<lparr>ev_header := Some h, ev_checksum_flag := flag, fd_version := version,
               fd_server_version := server_version, fd_timestamp := ucast timestamp,
               fd_header_len := header_len, fd_event_type_header_len := table\<rparr>) }
     else None }"

definition format_body :: "FormatDescriptionEvent \<Rightarrow> byte list" where
  "format_body e = int2store (fd_version e) @ version_field (fd_server_version e) @
     int4store (ucast (fd_timestamp e)) @ int1store (fd_header_len e) @
     concat (map int1store (fd_event_type_header_len e)) @ int1store (ev_checksum_flag e)"

definition format_image :: "FormatDescriptionEvent \<Rightarrow> byte list" where
  "format_image e = header_bytes (event_hdr e) @ format_body e"

text \<open>The checksum covers the event as it is once the file is closed: without the in-use flag.\<close>

definition closed_header :: "OblogEventHeader \<Rightarrow> OblogEventHeader" where
  "closed_header h = (if eh_flags h AND LOG_EVENT_BINLOG_IN_USE_F \<noteq> 0 then h\<lparr>eh_flags := 0\<rparr> else h)"

definition format_summed :: "FormatDescriptionEvent \<Rightarrow> byte list" where
  "format_summed e = header_bytes (closed_header (event_hdr e)) @ format_body e"

definition format_wf :: "FormatDescriptionEvent \<Rightarrow> bool" where
  "format_wf e \<longleftrightarrow> event_ok (format_image e) e \<and> length (fd_event_type_header_len e) = 39 \<and>
     length (fd_server_version e) < 50 \<and> 0 \<notin> set (fd_server_version e) \<and> unat (fd_timestamp e) < 2 ^ 32"

definition format_absorb :: "FormatDescriptionEvent \<Rightarrow> FormatDescriptionEvent \<Rightarrow> FormatDescriptionEvent" where
  "format_absorb e0 e = e0\<lparr>ev_header := ev_header e, ev_checksum_flag := ev_checksum_flag e,
     fd_version := fd_version e, fd_server_version := fd_server_version e, fd_timestamp := fd_timestamp e,
     fd_header_len := fd_header_len e, fd_event_type_header_len := fd_event_type_header_len e\<rparr>"

lemma emit_then_each: "emit a c \<bind> emit_each bs = emit (a @ concat (map int1store bs)) c"
proof (induction bs arbitrary: a)
  case Nil
  have "emit_each [] = Some" by (rule ext) simp
  then show ?case by (simp add: bind_Some_emit)
next
  case (Cons b bs)
  have "emit_each (b # bs) = (\<lambda>c. emit (int1store b) c \<bind> emit_each bs)" by (rule ext) simp
  then show ?case using Cons[of "a @ int1store b"] by simp
qed

lemma length_version_field [simp]: "length (version_field s) = 50"
  by (simp add: version_field_def ST_SERVER_VER_LEN_def Let_def)

lemma read_each_bytes:
  "read_each (length bs) (xs @ concat (map int1store bs) @ ys) (length xs) = Some bs"
proof (induction bs arbitrary: xs)
  case (Cons b bs)
  show ?case using Cons[of "xs @ int1store b"] by simp
qed simp

lemma c_string_version:
  assumes v: "length v < 50" "0 \<notin> set v"
  shows "c_string (version_field v) = Some v"
proof -
  have tw: "takeWhile (\<lambda>b. b \<noteq> 0) v = v" using v(2) unfolding takeWhile_eq_all_conv by blast
  obtain k where k: "50 - length v = Suc k" using v(1) by (cases "50 - length v") auto
  have "version_field v = v @ 0 # replicate k 0"
    using v(1) unfolding version_field_def tw by (simp add: ST_SERVER_VER_LEN_def Let_def k)
  then show ?thesis by (simp add: c_string_def takeWhile_tail tw)
qed

lemma LOG_EVENT_TYPES_eq [simp]: "LOG_EVENT_TYPES = 39"
  by (simp add: LOG_EVENT_TYPES_def)

text \<open>Replacing the flags of a header that was written.\<close>

lemma store_flags_written:
  "eh_flags h AND LOG_EVENT_BINLOG_IN_USE_F \<noteq> 0 \<Longrightarrow>
   store_flags h f (header_bytes g @ ys, n) = Some (header_bytes (g\<lparr>eh_flags := f\<rparr>) @ ys, n)"
  by (simp add: store_flags_def FLAGS_OFFSET_def header_bytes_def poke_def)


lemma store_flags_close:
  "store_flags h 0 (header_bytes h @ ys, n) = Some (header_bytes (closed_header h) @ ys, n)"
  by (cases "eh_flags h AND LOG_EVENT_BINLOG_IN_USE_F = 0")
     (simp_all add: store_flags_written closed_header_def, simp add: store_flags_def)

lemma store_flags_restore:
  "store_flags h (eh_flags h) (header_bytes (closed_header h) @ ys, n) = Some (header_bytes h @ ys, n)"
proof (cases "eh_flags h AND LOG_EVENT_BINLOG_IN_USE_F = 0")
  case True
  then show ?thesis by (simp add: closed_header_def store_flags_def)
next
  case False
  have "h\<lparr>eh_flags := 0, eh_flags := eh_flags h\<rparr> = h" by simp
  then show ?thesis using False store_flags_written[OF False, of "eh_flags h" "h\<lparr>eh_flags := 0\<rparr>"]
    by (simp add: closed_header_def)
qed

lemma closed_checksum:
  fixes h body buf
  defines "img \<equiv> header_bytes h @ body"
  shows "emit img (buf, 0) \<bind> store_flags h 0 \<bind> write_checksum crc f \<bind> store_flags h (eh_flags h) =
         emit (img @ checksum_bytes crc f (header_bytes (closed_header h) @ body)) (buf, 0)"
proof (cases "length img \<le> length buf")
  case True
  let ?c = "header_bytes (closed_header h) @ body" and ?rest = "drop (length img) buf"
  have n: "length ?c = length img" by (simp add: img_def)
  have "emit img (buf, 0) \<bind> store_flags h 0 = Some (?c @ ?rest, length ?c)"
    using True store_flags_close[of h "body @ ?rest" "length img"] n by (simp add: emit_start img_def)
  then have "emit img (buf, 0) \<bind> store_flags h 0 \<bind> write_checksum crc f =
      (if f = CRC32 then emit (int4store (ucast (crc ?c))) (?c @ ?rest, length ?c) else Some (?c @ ?rest, length ?c))"
    by (simp add: write_checksum_def)
  moreover have "(if f = CRC32 then emit (int4store (ucast (crc ?c))) (?c @ ?rest, length ?c) else Some (?c @ ?rest, length ?c))
      = (if length img + length (checksum_bytes crc f ?c) \<le> length buf
         then Some (header_bytes (closed_header h) @ body @ checksum_bytes crc f ?c @
                    drop (length img + length (checksum_bytes crc f ?c)) buf,
                    length img + length (checksum_bytes crc f ?c)) else None)"
    using True n emit_fits[of ?c "int4store (ucast (crc ?c))" ?rest]
    by (auto simp: checksum_bytes_def emit_overflow add.commute)
  ultimately show ?thesis
    using store_flags_restore[of h "body @ checksum_bytes crc f ?c @ drop (length img + length (checksum_bytes crc f ?c)) buf"]
    by (auto simp: emit_start emit_overflow img_def add.assoc)
qed (simp add: emit_overflow)

interpretation fe: event_codec format_wf event_hdr ev_checksum_flag format_image format_summed
  FormatDescriptionEvent_flush FormatDescriptionEvent_deserialize "\<lambda>_ _. True" format_absorb
proof (unfold_locales, goal_cases)
  case (1 e crc buf)
  then obtain h where h: "ev_header e = Some h" by (auto simp: format_wf_def event_ok_def)
  let ?pre = "header_bytes h @ int2store (fd_version e) @ version_field (fd_server_version e) @
      int4store (ucast (fd_timestamp e)) @ int1store (fd_header_len e)"
  have "FormatDescriptionEvent_flush crc e buf =
      ((emit ?pre (buf, 0) \<bind> emit_each (fd_event_type_header_len e)) \<bind> emit (int1store (ev_checksum_flag e)))
        \<bind> store_flags h 0 \<bind> write_checksum crc (ev_checksum_flag e) \<bind> store_flags h (eh_flags h)"
    using h by (simp add: FormatDescriptionEvent_flush_def header_flush Option.bind_assoc)
  then show ?case
    using h closed_checksum[of h "format_body e" buf crc "ev_checksum_flag e"]
    by (simp only: emit_then_each emit_emit) (simp add: format_body_def format_image_def format_summed_def)
next
  case (5 e e0 cs ys)
  then obtain h where h: "ev_header e = Some h" "proper_header h" by (auto simp: format_wf_def event_ok_def)
  have ok: "event_ok (format_image e) e" and w: "length (fd_event_type_header_len e) = 39"
    "length (fd_server_version e) < 50" "0 \<notin> set (fd_server_version e)" "unat (fd_timestamp e) < 2 ^ 32"
    using 5 by (auto simp: format_wf_def)
  let ?t = "concat (map int1store (fd_event_type_header_len e))" and ?f = "int1store (ev_checksum_flag e)"
  let ?pre = "header_bytes h @ int2store (fd_version e) @ version_field (fd_server_version e) @
      int4store (ucast (fd_timestamp e)) @ int1store (fd_header_len e)"
  have l: "length ?t = 39" using w(1) f1.stores_width[of "fd_event_type_header_len e"] by simp
  have len: "115 \<le> unat (eh_event_length h)"
    using event_okD(4)[OF ok] h l by (simp add: format_image_def format_body_def)
  have "read_each 39 (?pre @ ?t @ ?f @ cs @ ys) 76 = Some (fd_event_type_header_len e)"
    using read_each_bytes[of "fd_event_type_header_len e" ?pre "?f @ cs @ ys"] w by simp
  then show ?case
    using h header_deserialize[of h] len w l c_string_version[OF w(2,3)]
    by (simp add: FormatDescriptionEvent_deserialize_def format_image_def format_body_def
        ST_SERVER_VER_LEN_def format_absorb_def ucast_ucast_small)
qed (auto simp: format_wf_def event_ok_def format_image_def)


section \<open>Events as their constructors make them\<close>

lemma ascii_version: "ascii ''5.7.38'' = [0x35, 0x2E, 0x37, 0x2E, 0x33, 0x38]"
  by (simp add: ascii_def)

lemma format_init_wf:
  assumes "unat timestamp < 2 ^ 32"
  shows "format_wf (FormatDescriptionEvent_init binlog_checksum server_id timestamp)"
    and "eh_event_length (event_hdr (FormatDescriptionEvent_init binlog_checksum server_id timestamp)) =
           (if binlog_checksum then 120 else 116)"
proof -
  have "proper_type FORMAT_DESCRIPTION_EVENT" by (rule named_proper) (simp add: named_events_def)
  then show "format_wf (FormatDescriptionEvent_init binlog_checksum server_id timestamp)"
    using assms
    by (auto simp: format_wf_def event_ok_def FormatDescriptionEvent_init_def proper_header_def init_simps
        server_event_header_length_def format_image_def format_body_def ascii_version FormatDescriptionEvent.defs)
qed (simp add: FormatDescriptionEvent_init_def init_simps server_event_header_length_def)

lemma set_gtid_messages_inv: "set_gtid_messages ms gm = Some gm' \<Longrightarrow> omap_inv gm \<Longrightarrow> omap_inv gm'"
  by (induction ms gm rule: set_gtid_messages.induct) (auto simp: bind_eq_Some_conv omap_inv_emplace)

text \<open>A message as the reader accepts it: sixteen bytes of uuid, its ranges counted, closed and in order.\<close>

definition message_fit :: "GtidMessage \<Rightarrow> bool" where
  "message_fit m \<longleftrightarrow> (case gm_gtid_uuid m of None \<Rightarrow> False | Some u \<Rightarrow> length u = 16) \<and>
     unat (gm_gtid_txn_id_intervals m) = length (gm_txn_range m) \<and> list_all valid_range (gm_txn_range m)"


abbreviation message_size :: "GtidMessage \<Rightarrow> nat" where
  "message_size m \<equiv> 24 + 16 * length (gm_txn_range m)"

lemma sum_omap_emplace:
  "(\<Sum>(k, m)\<leftarrow>omap_emplace k m gm. message_size m) \<le> (\<Sum>(k, m)\<leftarrow>gm. message_size m) + message_size m"
proof -
  have "(\<Sum>(k, m)\<leftarrow>omap_put k m gm. message_size m) \<le> (\<Sum>(k, m)\<leftarrow>gm. message_size m) + message_size m"
    by (induction k m gm rule: omap_put.induct) auto
  then show ?thesis by (simp add: omap_emplace_def)
qed

lemma set_gtid_messages_size:
  "set_gtid_messages ms gm = Some gm' \<Longrightarrow>
   (\<Sum>(k, m)\<leftarrow>gm'. message_size m) \<le> (\<Sum>(k, m)\<leftarrow>gm. message_size m) + (\<Sum>m\<leftarrow>ms. message_size m)"
proof (induction ms gm rule: set_gtid_messages.induct)
  case (2 m ms gm)
  then obtain k where k: "set_gtid_messages ms (omap_emplace k m gm) = Some gm'"
    "uuid_hex_bin_to_str (gm_gtid_uuid m) = Some k"
    by (auto simp: bind_eq_Some_conv)
  then show ?case using 2(1)[OF k(2,1)] sum_omap_emplace[of k m gm] by simp
qed simp

lemma omap_put_mem: "list_all P gm \<Longrightarrow> P (k, m) \<Longrightarrow> list_all P (omap_put k m gm)"
  by (induction k m gm rule: omap_put.induct) auto

lemma set_gtid_messages_ok:
  "set_gtid_messages ms gm = Some gm' \<Longrightarrow> list_all message_fit ms \<Longrightarrow> list_all message_ok gm \<Longrightarrow>
   list_all message_ok gm'"
proof (induction ms gm rule: set_gtid_messages.induct)
  case (2 m ms gm)
  then obtain k where k: "set_gtid_messages ms (omap_emplace k m gm) = Some gm'"
    "uuid_hex_bin_to_str (gm_gtid_uuid m) = Some k"
    by (auto simp: bind_eq_Some_conv)
  have "message_ok (k, m)"
    using 2(3) k(2) by (auto simp: message_ok_def message_fit_def uuid_hex_bin_to_str_def SERVER_UUID_LEN_def
        split: option.splits)
  then have "list_all message_ok (omap_emplace k m gm)"
    using 2(4) by (simp add: omap_emplace_def omap_put_mem)
  then show ?case using 2(1)[OF k(2,1)] 2(3) by simp
qed simp

lemma length_messages:
  "list_all message_ok gm \<Longrightarrow> length (concat (map message_bytes gm)) = (\<Sum>(k, m)\<leftarrow>gm. message_size m)"
  by (induction gm) (auto simp: length_message_bytes)

lemma previous_init_wf:
  assumes init: "PreviousGtidsLogEvent_init binlog_checksum server_id num ms timestamp = Some e"
    and fit: "list_all message_fit ms" "(\<Sum>m\<leftarrow>ms. message_size m) + 31 < 2 ^ 32" "unat timestamp < 2 ^ 32"
  shows "previous_wf e"
proof -
  let ?base = "ObLogEvent_init binlog_checksum"
  let ?sum = "\<lambda>gm. \<Sum>(k, m)\<leftarrow>gm. message_size m"
  obtain gm where gm: "set_gtid_messages ms [] = Some gm" "unat num = length gm"
    and e: "e = ObLogEvent.extend
            (?base\<lparr>ev_header := Some (OblogEventHeader_init server_id PREVIOUS_GTIDS_LOG_EVENT timestamp
                (of_nat (27 + ?sum gm + unat (get_checksum_len (ev_checksum_flag ?base)))) 0)\<rparr>)
            (PreviousGtidsLogEvent.fields (ucast num) gm)"
    using init
    by (auto simp: PreviousGtidsLogEvent_init_def bind_eq_Some_conv Let_def COMMON_HEADER_LENGTH_def
        SERVER_UUID_LEN_def split: if_splits)
  have ok: "list_all message_ok gm" using set_gtid_messages_ok[OF gm(1) fit(1)] by simp
  have p: "proper_type PREVIOUS_GTIDS_LOG_EVENT" by (rule named_proper) (simp add: named_events_def)
  have cl: "unat (get_checksum_len (ev_checksum_flag ?base)) \<le> 4" "proper_flag (ev_checksum_flag ?base)"
    by (auto simp: init_simps)
  have "?sum gm + 31 < 2 ^ 32" using set_gtid_messages_size[OF gm(1)] fit(2) by simp
  then have "27 + ?sum gm + unat (get_checksum_len (ev_checksum_flag ?base)) < 2 ^ 32" using cl(1) by linarith
  then have n: "unat (of_nat (27 + ?sum gm + unat (get_checksum_len (ev_checksum_flag ?base))) :: u32) =
      27 + ?sum gm + unat (get_checksum_len (ev_checksum_flag ?base))"
    by (simp add: unat_of_nat take_bit_nat_eq_self del: of_nat_add)
  have "omap_inv gm" using set_gtid_messages_inv[OF gm(1)] by simp
  moreover have "unat (ucast num :: u64) = length gm" using gm(2) by simp
  ultimately show ?thesis
    unfolding previous_wf_def event_ok_def e
    using ok p cl(2) n fit(3) length_messages[OF ok]
    by (simp add: ObLogEvent.defs PreviousGtidsLogEvent.defs OblogEventHeader_init_def previous_image_def
        proper_header_def ObLogEvent_init_def del: of_nat_add length_concat)
qed


section \<open>Properties\<close>

text \<open>C38. The format description event that opens every binlog file, as its constructor builds it, is
  116 bytes long without and 120 with a checksum; the writer writes exactly the length its header
  announces and nothing behind it, and the reader gets every field back, the checksum setting included.  Without the setting no checksum is
  written, against the comment in \<^verbatim>\<open>flush_to_buff\<close>.\<close>

theorem format_description_roundtrip:
  assumes "unat timestamp < 2 ^ 32" "(if binlog_checksum then 120 else 116) \<le> length buf"
  shows "\<exists>buf'. FormatDescriptionEvent_flush crc (FormatDescriptionEvent_init binlog_checksum server_id timestamp) buf =
             Some (buf', if binlog_checksum then 120 else 116) \<and>
           drop (if binlog_checksum then 120 else 116) buf' = drop (if binlog_checksum then 120 else 116) buf \<and>
           FormatDescriptionEvent_deserialize e0 buf' =
             Some (format_absorb e0 (FormatDescriptionEvent_init binlog_checksum server_id timestamp))"
proof -
  let ?e = "FormatDescriptionEvent_init binlog_checksum server_id timestamp"
  let ?n = "if binlog_checksum then 120 else 116 :: nat"
  have wf: "format_wf ?e" and len: "unat (eh_event_length (event_hdr ?e)) = ?n"
    using format_init_wf[OF assms(1), of binlog_checksum server_id] by auto
  show ?thesis
    using fe.flush_fits[OF wf, of buf crc] fe.deser_file_bytes[OF wf TrueI, of e0 crc] fe.file_bytes_length[OF wf, of crc]
      assms(2) by (simp only: len) auto
qed

theorem format_description_roundtrip_witness:
  "\<exists>buf'. FormatDescriptionEvent_flush crc_zero (FormatDescriptionEvent_init True 1 7) (replicate 121 9) = Some (buf', 120) \<and>
     drop 120 buf' = [9] \<and>
     FormatDescriptionEvent_deserialize (FormatDescriptionEvent_init False 0 0) buf' =
       Some (format_absorb (FormatDescriptionEvent_init False 0 0) (FormatDescriptionEvent_init True 1 7))"
  using format_description_roundtrip [of 7 True "replicate 121 9" crc_zero 1 "FormatDescriptionEvent_init False 0 0"]
  by simp

text \<open>C19. The previous-gtids event built from a list of GTID messages round-trips: the writer fills exactly
  the length the constructor computed by summing up the messages, and a fresh reader gets back the same map
  of messages, although the file keeps each range with its end moved up by one.\<close>

theorem previous_gtids_roundtrip:
  assumes "PreviousGtidsLogEvent_init binlog_checksum server_id num ms timestamp = Some e"
    and "list_all message_fit ms" "(\<Sum>m\<leftarrow>ms. message_size m) + 31 < 2 ^ 32" "unat timestamp < 2 ^ 32"
    and "unat (eh_event_length (event_hdr e)) \<le> length buf" "pg_gtid_messages e0 = []"
  shows "\<exists>buf'. PreviousGtidsLogEvent_flush crc e buf = Some (buf', unat (eh_event_length (event_hdr e))) \<and>
           drop (unat (eh_event_length (event_hdr e))) buf' = drop (unat (eh_event_length (event_hdr e))) buf \<and>
           PreviousGtidsLogEvent_deserialize e0 buf' =
             Some (e0\<lparr>ev_header := ev_header e, pg_gtid_uuid_num := pg_gtid_uuid_num e,
                      pg_gtid_messages := pg_gtid_messages e\<rparr>)"
proof -
  have wf: "previous_wf e" using previous_init_wf[OF assms(1-4)] .
  show ?thesis
    using pe.flush_fits[OF wf assms(5), of crc] pe.deser_file_bytes[OF wf assms(6), of crc]
      pe.file_bytes_length[OF wf, of crc]
    by (auto simp: previous_absorb_def)
qed

definition seventeen :: GtidMessage where
  "seventeen = \<lparr>gm_gtid_uuid = Some (replicate 16 17), gm_gtid_txn_id_intervals = 1, gm_txn_range = [(1, 9)]\<rparr>"

lemma seventeen_fits: "message_fit seventeen" "message_size seventeen = 40"
  "uuid_hex_bin_to_str (gm_gtid_uuid seventeen) = Some (dumphex (replicate 16 17))" "gm_txn_range seventeen = [(1, 9)]"
  by (simp_all add: message_fit_def seventeen_def valid_range_def uuid_hex_bin_to_str_def SERVER_UUID_LEN_def)

theorem previous_gtids_roundtrip_witness:
  "\<exists>e buf'. PreviousGtidsLogEvent_init True 1 1 [seventeen] 5 = Some e \<and> eh_event_length (event_hdr e) = 71 \<and>
     PreviousGtidsLogEvent_flush crc_zero e (replicate 80 0) = Some (buf', 71) \<and>
     PreviousGtidsLogEvent_deserialize (e\<lparr>pg_gtid_messages := []\<rparr>) buf' = Some e"
proof -
  obtain e where e: "PreviousGtidsLogEvent_init True 1 1 [seventeen] 5 = Some e" "eh_event_length (event_hdr e) = 71"
    by (simp add: PreviousGtidsLogEvent_init_def seventeen_fits init_simps omap_emplace_def SERVER_UUID_LEN_def)
  show ?thesis
    using e previous_gtids_roundtrip [OF e(1), of "replicate 80 0" "e\<lparr>pg_gtid_messages := []\<rparr>" crc_zero]
    by (auto simp: seventeen_fits)
qed

end
