(* ===== verification/DataEvents.thy ===== *)
theory DataEvents
  imports LogEvent
begin

unbundle bit_operations_syntax

text \<open>
  The events inside a transaction: \<^verbatim>\<open>QueryEvent\<close>, \<^verbatim>\<open>TableMapEvent\<close> and the three rows events.  A size the
  code keeps in a \<^verbatim>\<open>size_t\<close> is a \<^typ>\<open>u64\<close>.  A read through \<^verbatim>\<open>c_str()\<close> sees the characters and the
  terminating zero.  \<^verbatim>\<open>mem\<close> is the content of a fresh allocation and \<^verbatim>\<open>tail\<close> what follows it in memory.
\<close>

section \<open>\<^verbatim>\<open>QueryEvent\<close>\<close>

record QueryEvent = ObLogEvent +
  qu_thread_id :: u32
  qu_query_exec_time :: u32
  qu_db_len :: u64
  qu_sql_statment_len :: u64
  qu_error_code :: u16
  qu_status_var_len :: u16
  qu_status_vars :: "byte list"
  qu_dbname :: "byte list"
  qu_sql_statment :: "byte list"
  qu_is_ddl :: bool

text \<open>The status of \<^verbatim>\<open>write_null_terminate_string\<close> is ignored: a name that does not fit leaves the
  block as it was.\<close>

definition name_block :: "byte list \<Rightarrow> u64 \<Rightarrow> byte list \<Rightarrow> byte list" where
  "name_block mem len s =
     (let bs = snd (write_null_terminate_string (unat (len + 1)) s)
      in take (unat (len + 1)) (bs @ drop (length bs) mem))"

definition QueryEvent_flush :: "crc32 \<Rightarrow> byte list \<Rightarrow> QueryEvent \<Rightarrow> byte list \<Rightarrow> cursor option" where
  "QueryEvent_flush crc mem e buff = do {
     h \<leftarrow> ev_header e;
     c \<leftarrow> OblogEventHeader_flush h (buff, 0);
     c \<leftarrow> emit (int4store (qu_thread_id e)) c;
     c \<leftarrow> emit (int4store (qu_query_exec_time e)) c;
     c \<leftarrow> emit (int1store (ucast (qu_db_len e))) c;
     c \<leftarrow> emit (int2store (qu_error_code e)) c;
     c \<leftarrow> emit (int2store (qu_status_var_len e)) c;
     vars \<leftarrow> peek (unat (qu_status_var_len e)) (qu_status_vars e @ [0]) 0;
     c \<leftarrow> emit vars c;
     c \<leftarrow> emit (name_block mem (qu_db_len e) (qu_dbname e)) c;
     sql \<leftarrow> peek (unat (qu_sql_statment_len e)) (qu_sql_statment e @ [0]) 0;
     c \<leftarrow> emit sql c;
     write_checksum crc (ev_checksum_flag e) c }"

text \<open>\<^verbatim>\<open>set_status_vars\<close> and \<^verbatim>\<open>set_dbname\<close> take a C string, the copied block read up to a zero byte.\<close>

definition QueryEvent_deserialize :: "byte list \<Rightarrow> byte list \<Rightarrow> QueryEvent \<Rightarrow> byte list \<Rightarrow> QueryEvent option" where
  "QueryEvent_deserialize tail tail_name e buff = do {
     h \<leftarrow> OblogEventHeader_deserialize buff;
     thread_id \<leftarrow> int4load buff 19;
     exec_time \<leftarrow> int4load buff 23;
     db_len \<leftarrow> int1load buff 27;
     error_code \<leftarrow> int2load buff 28;
     var_len \<leftarrow> int2load buff 30;
     vars \<leftarrow> peek (unat var_len) buff 32;
     status_vars \<leftarrow> c_string (vars @ tail);
     name \<leftarrow> peek (unat db_len + 1) buff (32 + unat var_len);
     dbname \<leftarrow> c_string (name @ tail_name);
     let pos = (32 + ucast var_len + (ucast db_len + 1) :: u64);
     let checksum_len = (ucast (get_checksum_len (ev_checksum_flag e)) :: u64);
     let sql_len = ucast (eh_event_length h) - checksum_len - pos;
     sql \<leftarrow> peek (unat sql_len) buff (unat pos);
     if pos + sql_len + checksum_len = ucast (eh_event_length h)
     then Some (e\<lparr>ev_header := Some h, qu_thread_id := thread_id, qu_query_exec_time := exec_time,
                  qu_db_len := ucast db_len, qu_sql_statment_len := sql_len, qu_error_code := error_code,
                  qu_status_var_len := var_len, qu_status_vars := status_vars, qu_dbname := dbname,
                  qu_sql_statment := sql\<rparr>)
     else None }"

definition query_image :: "QueryEvent \<Rightarrow> byte list" where
  "query_image e = header_bytes (event_hdr e) @ int4store (qu_thread_id e) @ int4store (qu_query_exec_time e) @
     int1store (ucast (qu_db_len e)) @ int2store (qu_error_code e) @ int2store (qu_status_var_len e) @
     qu_status_vars e @ (qu_dbname e @ [0]) @ qu_sql_statment e"

definition query_wf :: "QueryEvent \<Rightarrow> bool" where
  "query_wf e \<longleftrightarrow> event_ok (query_image e) e \<and> unat (qu_db_len e) = length (qu_dbname e) \<and>
     length (qu_dbname e) < 256 \<and> 0 \<notin> set (qu_dbname e) \<and>
     unat (qu_status_var_len e) = length (qu_status_vars e) \<and>
     unat (qu_sql_statment_len e) = length (qu_sql_statment e)"

definition query_absorb :: "byte list \<Rightarrow> QueryEvent \<Rightarrow> QueryEvent \<Rightarrow> QueryEvent" where
  "query_absorb tail e0 e = e0\<lparr>ev_header := ev_header e, qu_thread_id := qu_thread_id e,
     qu_query_exec_time := qu_query_exec_time e, qu_db_len := qu_db_len e,
     qu_sql_statment_len := qu_sql_statment_len e, qu_error_code := qu_error_code e,
     qu_status_var_len := qu_status_var_len e,
     qu_status_vars := takeWhile (\<lambda>b. b \<noteq> 0) (qu_status_vars e @ tail), qu_dbname := qu_dbname e,
     qu_sql_statment := qu_sql_statment e\<rparr>"

lemma name_block_fits:
  assumes "unat len = length s" "length s < 256"
  shows "name_block mem len s = s @ [0]"
proof -
  have "unat (len + 1) = length s + 1"
    using assms by (simp add: unat_add_small)
  then show ?thesis by (simp add: name_block_def write_null_terminate_string_def Let_def)
qed

lemma peek_terminated: "peek (Suc (length s)) (s @ x # ys) 0 = Some (s @ [x])"
  by (simp add: peek_def)

lemma c_string_terminated: "0 \<notin> set s \<Longrightarrow> c_string (s @ 0 # ys) = Some s"
  by (simp add: c_string_def takeWhile_tail) (metis takeWhile_eq_all_conv)


interpretation qe: event_codec query_wf event_hdr ev_checksum_flag query_image query_image
  "\<lambda>crc. QueryEvent_flush crc mem" "QueryEvent_deserialize tail tail_name"
  "\<lambda>e0 e. same_flag e0 e \<and> 0 \<in> set (qu_status_vars e @ tail)" "query_absorb tail"
  for mem tail tail_name :: "byte list"
proof (unfold_locales, goal_cases)
  case (1 e crc buf)
  then obtain h where "ev_header e = Some h" by (auto simp: query_wf_def event_ok_def)
  then show ?case
    using 1 emit_checksum[of "query_image e" buf crc "ev_checksum_flag e"]
    by (simp add: query_wf_def QueryEvent_flush_def header_flush query_image_def name_block_fits)
next
  case (5 e e0 cs ys)
  then have ok: "event_ok (query_image e) e" and w: "unat (qu_db_len e) = length (qu_dbname e)"
    "length (qu_dbname e) < 256" "0 \<notin> set (qu_dbname e)"
    "unat (qu_status_var_len e) = length (qu_status_vars e)"
    "unat (qu_sql_statment_len e) = length (qu_sql_statment e)"
    by (auto simp: query_wf_def)
  obtain h where h: "ev_header e = Some h" "proper_header h" using ok by (auto simp: event_ok_def)
  let ?v = "qu_status_vars e" and ?d = "qu_dbname e" and ?s = "qu_sql_statment e"
  have db: "(ucast (ucast (qu_db_len e) :: u8) :: u64) = qu_db_len e" "unat (ucast (qu_db_len e) :: u8) = length ?d"
    using w(1,2) by (simp_all add: ucast_ucast_small unat_ucast_small)
  have len: "ucast (eh_event_length h) =
      (of_nat (length ?v) + of_nat (length ?d) + of_nat (length ?s) + 33 +
       ucast (get_checksum_len (ev_checksum_flag e)) :: u64)"
    using event_length_u64[OF ok] h by (simp add: query_image_def)
  have vd: "(ucast (qu_status_var_len e) :: u64) = of_nat (length ?v)" "qu_db_len e = of_nat (length ?d)"
    "qu_sql_statment_len e = of_nat (length ?s)"
    by (simp_all add: w(1,4,5)[symmetric])
  have "unat (eh_event_length h) < 2 ^ 32" using unat_bound[of "eh_event_length h"] by simp
  then have small: "length ?v + length ?d + length ?s + 33 < 2 ^ 32"
    using event_okD(4)[OF ok] h by (simp add: query_image_def)
  have pos: "unat (32 + of_nat (length ?v) + (of_nat (length ?d) + 1) :: u64) = length ?v + length ?d + 33"
  proof -
    have "32 + of_nat (length ?v) + (of_nat (length ?d) + 1) = (of_nat (length ?v + length ?d + 33) :: u64)" by simp
    then show ?thesis using small by (simp del: of_nat_add)
  qed
  have c1: "c_string (?v @ tail) = Some (takeWhile (\<lambda>b. b \<noteq> 0) (?v @ tail))"
    using 5(2) by (simp add: c_string_def)
  show ?case
    using 5(2) h w header_deserialize[of h] c1 db len small pos
    by (simp add: QueryEvent_deserialize_def query_image_def query_absorb_def Let_def peek_terminated
        c_string_terminated vd)
qed (auto simp: query_wf_def event_ok_def query_image_def)


section \<open>Length-encoded integers inside an event\<close>

lemma get_lenenc_skip:
  "get_lenenc_uint (xs @ ys) (length xs + p) = map_option (apsnd ((+) (length xs))) (get_lenenc_uint ys p)"
proof -
  have p: "peek n (xs @ ys) (length xs + p + k) = peek n ys (p + k)" for n k
    using peek_append_skip[of xs "length xs + p + k" n ys] by simp
  have i: "int1load (xs @ ys) (length xs + p) = int1load ys p" by simp
  show ?thesis
    using p[of _ 1] unfolding get_lenenc_uint_def i
    by (cases "int1load ys p") (simp_all add: map_option_bind comp_def add.assoc)
qed

lemma lenenc_width:
  assumes "v < 0x10000" "9 \<le> capacity"
  shows "get_lenenc_uint (xs @ snd (write_lenenc_uint capacity v) @ ys) (length xs) =
           Some (v, length xs + length (snd (write_lenenc_uint capacity v)))"
    and "fst (write_lenenc_uint capacity v) = int (length (snd (write_lenenc_uint capacity v)))"
proof -
  show l: "fst (write_lenenc_uint capacity v) = int (length (snd (write_lenenc_uint capacity v)))"
    using assms by (simp add: write_lenenc_uint_def)
  have "get_lenenc_uint (snd (write_lenenc_uint capacity v) @ ys) 0 =
      Some (v, length (snd (write_lenenc_uint capacity v)))"
  proof (cases "v < 251")
    case True
    then have "unat v < 251" by (simp add: word_less_nat_alt)
    then have "(ucast v :: u8) < 251" "ucast (ucast v :: u8) = v"
      using unat_ucast_small[of v, where 'b = 8] ucast_ucast_small[of v, where 'b = 8]
      by (simp_all add: word_less_nat_alt)
    then show ?thesis using True assms by (simp add: write_lenenc_uint_def get_lenenc_uint_Cons)
  next
    case False
    then show ?thesis using assms take_bit_small[of v 16]
      by (simp add: write_lenenc_uint_def get_lenenc_uint_Cons le_bytes_ucast peek_le_bytes
          ucast_le_word_le_bytes)
  qed
  then show "get_lenenc_uint (xs @ snd (write_lenenc_uint capacity v) @ ys) (length xs) =
      Some (v, length xs + length (snd (write_lenenc_uint capacity v)))"
    using get_lenenc_skip[of xs "snd (write_lenenc_uint capacity v) @ ys" 0] by simp
qed


section \<open>Rows events\<close>

datatype RowsEventType = INSERT | DELETE | UPDATE

record RowsEvent = ObLogEvent +
  rw_table_id :: u64
  rw_flags :: u16
  rw_var_header_len :: u16
  rw_width :: u64
  rw_before_image_cols :: u64
  rw_after_image_cols :: u64
  rw_columns_before_bitmaps :: "byte list option"
  rw_columns_after_bitmaps :: "byte list option"
  rw_partial_columns_bitmaps :: "byte list option"
  rw_partial_cols_bytes :: u64
  rw_before_row :: chunks
  rw_after_row :: chunks
  rw_before_pos :: u64
  rw_after_pos :: u64
  rw_rows_event_type :: RowsEventType

definition bitmap_bytes :: "u64 \<Rightarrow> nat" where
  "bitmap_bytes width = unat ((width + 7) div 8)"

text \<open>\<^verbatim>\<open>rows.bytes\<close> overwrites the whole temporary block, whose first content is left at zero here.\<close>

definition write_rows :: "chunks \<Rightarrow> u64 \<Rightarrow> cursor \<Rightarrow> cursor option" where
  "write_rows rows len c = do {
     (temp, n) \<leftarrow> MsgBuf_bytes rows (replicate (MsgBuf_byte_size rows) 0);
     bs \<leftarrow> peek (unat len) temp 0;
     emit bs c }"

definition write_image :: "byte list option \<Rightarrow> u64 \<Rightarrow> chunks \<Rightarrow> u64 \<Rightarrow> cursor \<Rightarrow> cursor option" where
  "write_image bitmaps width rows len c = do {
     bm \<leftarrow> bitmaps;
     bs \<leftarrow> peek (bitmap_bytes width) bm 0;
     c \<leftarrow> emit bs c;
     write_rows rows len c }"

definition RowsEvent_flush :: "crc32 \<Rightarrow> RowsEvent \<Rightarrow> byte list \<Rightarrow> cursor option" where
  "RowsEvent_flush crc e buff = do {
     h \<leftarrow> ev_header e;
     c \<leftarrow> OblogEventHeader_flush h (buff, 0);
     c \<leftarrow> emit (int6store (rw_table_id e)) c;
     c \<leftarrow> emit (int2store (rw_flags e)) c;
     c \<leftarrow> emit (int2store (rw_var_header_len e)) c;
     c \<leftarrow> emit (snd (write_lenenc_uint 9 (rw_width e))) c;
     c \<leftarrow> (if rw_rows_event_type e \<noteq> INSERT then emit (fill_bit_map (unat (rw_before_image_cols e))) c else Some c);
     c \<leftarrow> (if rw_rows_event_type e \<noteq> DELETE then emit (fill_bit_map (unat (rw_after_image_cols e))) c else Some c);
     c \<leftarrow> (if rw_rows_event_type e \<noteq> INSERT
          then write_image (rw_columns_before_bitmaps e) (rw_width e) (rw_before_row e) (rw_before_pos e) c
          else Some c);
     c \<leftarrow> (if eh_type_code h = PARTIAL_UPDATE_ROWS_EVENT then do {
            pb \<leftarrow> rw_partial_columns_bitmaps e;
            c \<leftarrow> emit (int1store 1) c;
            bs \<leftarrow> peek (unat (rw_partial_cols_bytes e)) pb 0;
            emit bs c }
          else Some c);
     c \<leftarrow> (if rw_rows_event_type e \<noteq> DELETE
          then write_image (rw_columns_after_bitmaps e) (rw_width e) (rw_after_row e) (rw_after_pos e) c
          else Some c);
     write_checksum crc (ev_checksum_flag e) c }"

text \<open>The part the three readers share: header, fixed fields, one bitmap, and the rest as row bytes.\<close>

definition rows_fields ::
  "u8 \<Rightarrow> byte list \<Rightarrow> (OblogEventHeader \<times> u64 \<times> u16 \<times> u16 \<times> u64 \<times> byte list \<times> byte list) option" where
  "rows_fields flag buff = do {
     h \<leftarrow> OblogEventHeader_deserialize buff;
     table_id \<leftarrow> int6load buff 19;
     flags \<leftarrow> int2load buff 25;
     var_header_len \<leftarrow> int2load buff 27;
     (width, pos) \<leftarrow> get_lenenc_uint buff 29;
     let n = bitmap_bytes width;
     bitmaps \<leftarrow> peek n buff (pos + n);
     let row_bytes = (ucast (eh_event_length h) - of_nat (pos + 2 * n) - ucast (get_checksum_len flag) :: u64);
     row \<leftarrow> peek (unat row_bytes) buff (pos + 2 * n);
     Some (h, table_id, flags, var_header_len, width, bitmaps, row) }"

definition WriteRowsEvent_deserialize :: "RowsEvent \<Rightarrow> byte list \<Rightarrow> RowsEvent option" where
  "WriteRowsEvent_deserialize e buff = do {
     (h, table_id, flags, var_header_len, width, bitmaps, row) \<leftarrow> rows_fields (ev_checksum_flag e) buff;
     Some (e\<lparr>ev_header := Some h, rw_table_id := table_id, rw_flags := flags,
             rw_var_header_len := var_header_len, rw_width := width, rw_after_image_cols := width,
             rw_columns_after_bitmaps := Some bitmaps,
             rw_after_row := MsgBuf_push_back (rw_after_row e) row\<rparr>) }"

definition DeleteRowsEvent_deserialize :: "RowsEvent \<Rightarrow> byte list \<Rightarrow> RowsEvent option" where
  "DeleteRowsEvent_deserialize e buff = do {
     (h, table_id, flags, var_header_len, width, bitmaps, row) \<leftarrow> rows_fields (ev_checksum_flag e) buff;
     Some (e\<lparr>ev_header := Some h, rw_table_id := table_id, rw_flags := flags,
             rw_var_header_len := var_header_len, rw_width := width, rw_before_image_cols := width,
             rw_columns_before_bitmaps := Some bitmaps,
             rw_before_row := MsgBuf_push_back (rw_before_row e) row\<rparr>) }"

definition UpdateRowsEvent_deserialize :: "RowsEvent \<Rightarrow> byte list \<Rightarrow> RowsEvent option" where
  "UpdateRowsEvent_deserialize e buff = do {
     (h, table_id, flags, var_header_len, width, bitmaps, row) \<leftarrow> rows_fields (ev_checksum_flag e) buff;
     Some (e\<lparr>ev_header := Some h, rw_table_id := table_id, rw_flags := flags,
             rw_var_header_len := var_header_len, rw_width := width, rw_after_image_cols := width,
             rw_columns_after_bitmaps := Some bitmaps,
             rw_before_row := MsgBuf_push_back (rw_before_row e) row\<rparr>) }"

definition rows_prefix :: "RowsEvent \<Rightarrow> byte list" where
  "rows_prefix e = header_bytes (event_hdr e) @ int6store (rw_table_id e) @ int2store (rw_flags e) @
     int2store (rw_var_header_len e) @ snd (write_lenenc_uint 9 (rw_width e))"

definition rows_ok :: "RowsEvent \<Rightarrow> bool" where
  "rows_ok e \<longleftrightarrow> unat (rw_table_id e) < 2 ^ 48 \<and> rw_width e < 0x10000 \<and>
     eh_type_code (event_hdr e) \<noteq> PARTIAL_UPDATE_ROWS_EVENT"

definition one_image :: "RowsEvent \<Rightarrow> u64 \<Rightarrow> byte list option \<Rightarrow> chunks \<Rightarrow> byte list" where
  "one_image e cols bm rows = rows_prefix e @ replicate (unat cols) 0xFF @ the bm @ concat rows"

definition image_ok :: "RowsEvent \<Rightarrow> u64 \<Rightarrow> byte list option \<Rightarrow> chunks \<Rightarrow> u64 \<Rightarrow> bool" where
  "image_ok e cols bm rows len \<longleftrightarrow> unat cols = bitmap_bytes (rw_width e) \<and>
     (case bm of None \<Rightarrow> False | Some b \<Rightarrow> length b = bitmap_bytes (rw_width e)) \<and> unat len = length (concat rows)"

lemma write_rows_emit: "unat len = length (concat rows) \<Longrightarrow> write_rows rows len c = emit (concat rows) c"
proof -
  assume len: "unat len = length (concat rows)"
  have "MsgBuf_bytes rows (replicate (MsgBuf_byte_size rows) 0) = Some (concat rows, length (concat rows))"
    by (simp add: MsgBuf_bytes_def MsgBuf_bytes_loop_emit MsgBuf_byte_size_concat emit_start del: length_concat)
  then show ?thesis using len by (simp add: write_rows_def del: length_concat)
qed

lemma write_image_emit:
  "image_ok e cols bm rows len \<Longrightarrow>
   write_image bm (rw_width e) rows len c = emit (the bm @ concat rows) c"
  by (cases bm) (auto simp: write_image_def image_ok_def write_rows_emit simp del: length_concat)

text \<open>Reading back an event with one row image.\<close>

lemma rows_fields_one_image:
  fixes e :: RowsEvent and h :: OblogEventHeader
  assumes h: "ev_header e = Some h" "proper_header h" and ok: "rows_ok e" and im: "image_ok e cols bm rows len"
    and l: "length (one_image e cols bm rows) + unat (get_checksum_len flag) = unat (eh_event_length h)"
  shows "rows_fields flag (one_image e cols bm rows @ ys) =
     Some (h, rw_table_id e, rw_flags e, rw_var_header_len e, rw_width e, the bm, concat rows)"
proof -
  obtain b where b: "bm = Some b" "length b = bitmap_bytes (rw_width e)" and c: "unat cols = bitmap_bytes (rw_width e)"
    using im by (auto simp: image_ok_def split: option.splits)
  let ?w = "snd (write_lenenc_uint 9 (rw_width e))" and ?n = "bitmap_bytes (rw_width e)"
  let ?pre = "header_bytes h @ int6store (rw_table_id e) @ int2store (rw_flags e) @ int2store (rw_var_header_len e)"
  let ?post = "replicate ?n 0xFF @ b @ concat rows @ ys"
  have img: "one_image e cols bm rows @ ys = ?pre @ ?w @ ?post"
    using h b c by (simp add: one_image_def rows_prefix_def)
  have lw: "get_lenenc_uint (?pre @ ?w @ ?post) 29 = Some (rw_width e, 29 + length ?w)"
    using lenenc_width(1)[of "rw_width e" 9 ?pre ?post] ok by (simp add: rows_ok_def)
  have len: "unat (eh_event_length h) = (29 + length ?w + 2 * ?n) + length (concat rows) + unat (get_checksum_len flag)"
    using l h b c by (simp add: one_image_def rows_prefix_def)
  have "(ucast (eh_event_length h) :: u64) = of_nat (unat (eh_event_length h))" by simp
  also have "\<dots> = of_nat (29 + length ?w + 2 * ?n) + of_nat (length (concat rows)) + ucast (get_checksum_len flag)"
    unfolding len by (simp del: length_concat)
  finally have rb: "ucast (eh_event_length h) - of_nat (29 + length ?w + 2 * ?n) - ucast (get_checksum_len flag) =
      (of_nat (length (concat rows)) :: u64)" by (simp del: length_concat)
  have "length (concat rows) < 2 ^ 32" using len unat_bound[of "eh_event_length h"] by (simp del: length_concat)
  then have u: "unat (of_nat (length (concat rows)) :: u64) = length (concat rows)" by (simp del: length_concat)
  have p1: "peek ?n (?pre @ ?w @ ?post) (29 + length ?w + ?n) = Some b"
    using b by simp
  have p2: "peek (length (concat rows)) (?pre @ ?w @ ?post) (29 + length ?w + 2 * ?n) = Some (concat rows)"
    using b by (simp del: length_concat)
  show ?thesis
    unfolding img rows_fields_def Let_def
    using h ok b header_deserialize[OF h(2)] lw rb u p1 p2
    by (simp add: rows_ok_def del: length_concat)
qed


definition write_rows_image :: "RowsEvent \<Rightarrow> byte list" where
  "write_rows_image e = one_image e (rw_after_image_cols e) (rw_columns_after_bitmaps e) (rw_after_row e)"

definition write_rows_wf :: "RowsEvent \<Rightarrow> bool" where
  "write_rows_wf e \<longleftrightarrow> event_ok (write_rows_image e) e \<and> rows_ok e \<and> rw_rows_event_type e = INSERT \<and>
     image_ok e (rw_after_image_cols e) (rw_columns_after_bitmaps e) (rw_after_row e) (rw_after_pos e)"

definition write_rows_absorb :: "RowsEvent \<Rightarrow> RowsEvent \<Rightarrow> RowsEvent" where
  "write_rows_absorb e0 e = e0\<lparr>ev_header := ev_header e, rw_table_id := rw_table_id e, rw_flags := rw_flags e,
     rw_var_header_len := rw_var_header_len e, rw_width := rw_width e, rw_after_image_cols := rw_width e,
     rw_columns_after_bitmaps := rw_columns_after_bitmaps e,
     rw_after_row := rw_after_row e0 @ [concat (rw_after_row e)]\<rparr>"

definition delete_rows_image :: "RowsEvent \<Rightarrow> byte list" where
  "delete_rows_image e = one_image e (rw_before_image_cols e) (rw_columns_before_bitmaps e) (rw_before_row e)"

definition delete_rows_wf :: "RowsEvent \<Rightarrow> bool" where
  "delete_rows_wf e \<longleftrightarrow> event_ok (delete_rows_image e) e \<and> rows_ok e \<and> rw_rows_event_type e = DELETE \<and>
     image_ok e (rw_before_image_cols e) (rw_columns_before_bitmaps e) (rw_before_row e) (rw_before_pos e)"

definition delete_rows_absorb :: "RowsEvent \<Rightarrow> RowsEvent \<Rightarrow> RowsEvent" where
  "delete_rows_absorb e0 e = e0\<lparr>ev_header := ev_header e, rw_table_id := rw_table_id e, rw_flags := rw_flags e,
     rw_var_header_len := rw_var_header_len e, rw_width := rw_width e, rw_before_image_cols := rw_width e,
     rw_columns_before_bitmaps := rw_columns_before_bitmaps e,
     rw_before_row := rw_before_row e0 @ [concat (rw_before_row e)]\<rparr>"

lemma one_image_wf:
  assumes "event_ok (one_image e cols bm rows) e" "rows_ok e" "image_ok e cols bm rows len"
    "ev_checksum_flag e0 = ev_checksum_flag e"
  shows "rows_fields (ev_checksum_flag e0) (one_image e cols bm rows @ ys) =
     Some (event_hdr e, rw_table_id e, rw_flags e, rw_var_header_len e, rw_width e, the bm, concat rows)"
proof -
  obtain h where h: "ev_header e = Some h" "proper_header h"
    "length (one_image e cols bm rows) + unat (get_checksum_len (ev_checksum_flag e)) = unat (eh_event_length h)"
    using assms(1) by (auto simp: event_ok_def)
  then show ?thesis using rows_fields_one_image[OF h(1,2) assms(2,3)] assms(4) by simp
qed

lemma one_image_header: "\<exists>body. one_image e cols bm rows = header_bytes (event_hdr e) @ body"
  by (simp add: one_image_def rows_prefix_def)

interpretation we: event_codec write_rows_wf event_hdr ev_checksum_flag write_rows_image write_rows_image
  RowsEvent_flush WriteRowsEvent_deserialize same_flag write_rows_absorb
proof (unfold_locales, goal_cases)
  case (1 e crc buf)
  then obtain h where h: "ev_header e = Some h" by (auto simp: write_rows_wf_def event_ok_def)
  have "write_image (rw_columns_after_bitmaps e) (rw_width e) (rw_after_row e) (rw_after_pos e) c =
      emit (the (rw_columns_after_bitmaps e) @ concat (rw_after_row e)) c" for c
    using 1 unfolding write_rows_wf_def by (blast intro: write_image_emit)
  then show ?case
    using 1 h emit_checksum[of "write_rows_image e" buf crc "ev_checksum_flag e"]
    by (simp add: write_rows_wf_def RowsEvent_flush_def header_flush write_rows_image_def one_image_def
        rows_prefix_def rows_ok_def fill_bit_map_eq)
next
  case (5 e e0 cs ys)
  then show ?case
    using one_image_wf[of e _ _ _ _ e0 "cs @ ys"]
    by (cases "rw_columns_after_bitmaps e"; cases "ev_header e")
       (auto simp: write_rows_wf_def WriteRowsEvent_deserialize_def write_rows_image_def write_rows_absorb_def
        MsgBuf_push_back_def image_ok_def event_ok_def)
qed (auto simp: write_rows_wf_def event_ok_def write_rows_image_def one_image_header)

interpretation de: event_codec delete_rows_wf event_hdr ev_checksum_flag delete_rows_image delete_rows_image
  RowsEvent_flush DeleteRowsEvent_deserialize same_flag delete_rows_absorb
proof (unfold_locales, goal_cases)
  case (1 e crc buf)
  then obtain h where h: "ev_header e = Some h" by (auto simp: delete_rows_wf_def event_ok_def)
  have "write_image (rw_columns_before_bitmaps e) (rw_width e) (rw_before_row e) (rw_before_pos e) c =
      emit (the (rw_columns_before_bitmaps e) @ concat (rw_before_row e)) c" for c
    using 1 unfolding delete_rows_wf_def by (blast intro: write_image_emit)
  then show ?case
    using 1 h emit_checksum[of "delete_rows_image e" buf crc "ev_checksum_flag e"]
    by (simp add: delete_rows_wf_def RowsEvent_flush_def header_flush delete_rows_image_def one_image_def
        rows_prefix_def rows_ok_def fill_bit_map_eq)
next
  case (5 e e0 cs ys)
  then show ?case
    using one_image_wf[of e _ _ _ _ e0 "cs @ ys"]
    by (cases "rw_columns_before_bitmaps e"; cases "ev_header e")
       (auto simp: delete_rows_wf_def DeleteRowsEvent_deserialize_def delete_rows_image_def delete_rows_absorb_def
        MsgBuf_push_back_def image_ok_def event_ok_def)
qed (auto simp: delete_rows_wf_def event_ok_def delete_rows_image_def one_image_header)


text \<open>An update event has both images; its reader does not follow this layout, so only the writer is
  interpreted.\<close>

definition update_rows_image :: "RowsEvent \<Rightarrow> byte list" where
  "update_rows_image e = rows_prefix e @ replicate (unat (rw_before_image_cols e)) 0xFF @
     replicate (unat (rw_after_image_cols e)) 0xFF @ the (rw_columns_before_bitmaps e) @ concat (rw_before_row e) @
     the (rw_columns_after_bitmaps e) @ concat (rw_after_row e)"

definition update_rows_wf :: "RowsEvent \<Rightarrow> bool" where
  "update_rows_wf e \<longleftrightarrow> event_ok (update_rows_image e) e \<and> rows_ok e \<and> rw_rows_event_type e = UPDATE \<and>
     image_ok e (rw_before_image_cols e) (rw_columns_before_bitmaps e) (rw_before_row e) (rw_before_pos e) \<and>
     image_ok e (rw_after_image_cols e) (rw_columns_after_bitmaps e) (rw_after_row e) (rw_after_pos e)"

interpretation ue: event_writer update_rows_wf event_hdr ev_checksum_flag update_rows_image update_rows_image RowsEvent_flush
proof (unfold_locales, goal_cases)
  case (1 e crc buf)
  then obtain h where h: "ev_header e = Some h" by (auto simp: update_rows_wf_def event_ok_def)
  have "write_image (rw_columns_before_bitmaps e) (rw_width e) (rw_before_row e) (rw_before_pos e) c =
      emit (the (rw_columns_before_bitmaps e) @ concat (rw_before_row e)) c"
    "write_image (rw_columns_after_bitmaps e) (rw_width e) (rw_after_row e) (rw_after_pos e) c =
      emit (the (rw_columns_after_bitmaps e) @ concat (rw_after_row e)) c" for c
    using 1 unfolding update_rows_wf_def by (blast intro: write_image_emit)+
  then show ?case
    using 1 h emit_checksum[of "update_rows_image e" buf crc "ev_checksum_flag e"]
    by (simp add: update_rows_wf_def RowsEvent_flush_def header_flush update_rows_image_def
        rows_prefix_def rows_ok_def fill_bit_map_eq)
qed (auto simp: update_rows_wf_def event_ok_def update_rows_image_def rows_prefix_def)


section \<open>\<^verbatim>\<open>TableMapEvent\<close>\<close>

record TableMapEvent = ObLogEvent +
  tm_table_id :: u64
  tm_flags :: u16
  tm_db_name :: "byte list"
  tm_db_len :: u64
  tm_tb_name :: "byte list"
  tm_tb_len :: u64
  tm_column_count :: u64
  tm_column_type :: "byte list"
  tm_metadata_len :: u64
  tm_metadata :: "byte list"
  tm_null_bits :: "byte list"

text \<open>\<^verbatim>\<open>write_null_terminate_string\<close> into the event, whose result is ignored: the cursor moves by the
  announced length and one.\<close>

definition emit_name :: "u64 \<Rightarrow> byte list \<Rightarrow> cursor \<Rightarrow> cursor option" where
  "emit_name len s c = do {
     c' \<leftarrow> emit (snd (write_null_terminate_string (unat (len + 1)) s)) c;
     Some (fst c', snd c + unat (len + 1)) }"

definition INT32_MAX :: nat where "INT32_MAX = 2147483647"

definition TableMapEvent_flush :: "crc32 \<Rightarrow> TableMapEvent \<Rightarrow> byte list \<Rightarrow> cursor option" where
  "TableMapEvent_flush crc e buff = do {
     h \<leftarrow> ev_header e;
     c \<leftarrow> OblogEventHeader_flush h (buff, 0);
     c \<leftarrow> emit (int6store (tm_table_id e)) c;
     c \<leftarrow> emit (int2store (tm_flags e)) c;
     c \<leftarrow> emit (int1store (ucast (tm_db_len e))) c;
     c \<leftarrow> emit_name (tm_db_len e) (tm_db_name e) c;
     c \<leftarrow> emit (int1store (ucast (tm_tb_len e))) c;
     c \<leftarrow> emit_name (tm_tb_len e) (tm_tb_name e) c;
     c \<leftarrow> emit (snd (write_lenenc_uint INT32_MAX (tm_column_count e))) c;
     types \<leftarrow> peek (unat (tm_column_count e)) (tm_column_type e) 0;
     c \<leftarrow> emit types c;
     c \<leftarrow> emit (snd (write_lenenc_uint INT32_MAX (tm_metadata_len e))) c;
     metadata \<leftarrow> peek (unat (tm_metadata_len e)) (tm_metadata e) 0;
     c \<leftarrow> emit metadata c;
     nulls \<leftarrow> peek (bitmap_bytes (tm_column_count e)) (tm_null_bits e) 0;
     c \<leftarrow> emit nulls c;
     write_checksum crc (ev_checksum_flag e) c }"

text \<open>The three blocks \<^verbatim>\<open>deserialize\<close> allocates are never filled, and the one for the metadata replaces
  the column types: \<^verbatim>\<open>mem n\<close> is what \<^verbatim>\<open>malloc(n)\<close> returns.\<close>

definition TableMapEvent_deserialize :: "heap \<Rightarrow> TableMapEvent \<Rightarrow> byte list \<Rightarrow> TableMapEvent option" where
  "TableMapEvent_deserialize mem e buff = do {
     h \<leftarrow> OblogEventHeader_deserialize buff;
     table_id \<leftarrow> int6load buff 19;
     flags \<leftarrow> int2load buff 25;
     db_len \<leftarrow> int1load buff 27;
     db_name \<leftarrow> peek (unat db_len) buff 28;
     tb_len \<leftarrow> int1load buff (29 + unat db_len);
     tb_name \<leftarrow> peek (unat tb_len) buff (30 + unat db_len);
     (column_count, pos) \<leftarrow> get_lenenc_uint buff (31 + unat db_len + unat tb_len);
     (metadata_len, pos) \<leftarrow> get_lenenc_uint buff (pos + unat column_count);
     Some (e\<lparr>ev_header := Some h, tm_table_id := table_id, tm_flags := flags, tm_db_name := db_name,
             tm_db_len := ucast db_len, tm_tb_name := tb_name, tm_tb_len := ucast tb_len,
             tm_column_count := column_count, tm_column_type := mem (unat metadata_len),
             tm_metadata_len := metadata_len, tm_null_bits := mem (bitmap_bytes column_count)\<rparr>) }"

definition table_map_image :: "TableMapEvent \<Rightarrow> byte list" where
  "table_map_image e = header_bytes (event_hdr e) @ int6store (tm_table_id e) @ int2store (tm_flags e) @
     int1store (ucast (tm_db_len e)) @ (tm_db_name e @ [0]) @ int1store (ucast (tm_tb_len e)) @
     (tm_tb_name e @ [0]) @ snd (write_lenenc_uint INT32_MAX (tm_column_count e)) @ tm_column_type e @
     snd (write_lenenc_uint INT32_MAX (tm_metadata_len e)) @ tm_metadata e @ tm_null_bits e"

definition table_map_wf :: "TableMapEvent \<Rightarrow> bool" where
  "table_map_wf e \<longleftrightarrow> event_ok (table_map_image e) e \<and> unat (tm_table_id e) < 2 ^ 48 \<and>
     unat (tm_db_len e) = length (tm_db_name e) \<and> length (tm_db_name e) < 256 \<and>
     unat (tm_tb_len e) = length (tm_tb_name e) \<and> length (tm_tb_name e) < 256 \<and>
     tm_column_count e < 0x10000 \<and> unat (tm_column_count e) = length (tm_column_type e) \<and>
     tm_metadata_len e < 0x10000 \<and> unat (tm_metadata_len e) = length (tm_metadata e) \<and>
     length (tm_null_bits e) = bitmap_bytes (tm_column_count e)"

definition table_map_absorb :: "heap \<Rightarrow> TableMapEvent \<Rightarrow> TableMapEvent \<Rightarrow> TableMapEvent" where
  "table_map_absorb mem e0 e = e0\<lparr>ev_header := ev_header e, tm_table_id := tm_table_id e, tm_flags := tm_flags e,
     tm_db_name := tm_db_name e, tm_db_len := tm_db_len e, tm_tb_name := tm_tb_name e, tm_tb_len := tm_tb_len e,
     tm_column_count := tm_column_count e, tm_column_type := mem (unat (tm_metadata_len e)),
     tm_metadata_len := tm_metadata_len e, tm_null_bits := mem (bitmap_bytes (tm_column_count e))\<rparr>"

lemma emit_name_fits:
  assumes "unat len = length s" "length s < 256"
  shows "emit_name len s c = emit (s @ [0]) c"
proof -
  have "unat (len + 1) = length s + 1" using assms by (simp add: unat_add_small)
  then show ?thesis
    by (cases "emit (s @ [0]) c") (auto simp: emit_name_def write_null_terminate_string_def emit_def split: prod.splits)
qed

lemma peek_tail: "peek n (x # xs) (Suc p) = peek n xs p"
  using peek_append_skip[of "[x]" "Suc p" n xs] by simp

lemma int1load_tail: "int1load (x # xs) (Suc p) = int1load xs p"
  by (simp add: int1load_def peek_tail)

lemma INT32_MAX_large [simp]: "9 \<le> INT32_MAX"
  by (simp add: INT32_MAX_def)

interpretation te: event_codec table_map_wf event_hdr ev_checksum_flag table_map_image table_map_image
  TableMapEvent_flush "TableMapEvent_deserialize mem" "\<lambda>_ _. True" "table_map_absorb mem"
  for mem :: heap
proof (unfold_locales, goal_cases)
  case (1 e crc buf)
  then obtain h where h: "ev_header e = Some h" by (auto simp: table_map_wf_def event_ok_def)
  then show ?case
    using 1 emit_checksum[of "table_map_image e" buf crc "ev_checksum_flag e"]
    by (simp add: table_map_wf_def TableMapEvent_flush_def header_flush table_map_image_def emit_name_fits)
next
  case (5 e e0 cs ys)
  then obtain h where h: "ev_header e = Some h" "proper_header h" by (auto simp: table_map_wf_def event_ok_def)
  let ?d = "tm_db_name e" and ?t = "tm_tb_name e" and ?cc = "snd (write_lenenc_uint INT32_MAX (tm_column_count e))"
    and ?mm = "snd (write_lenenc_uint INT32_MAX (tm_metadata_len e))"
  have db: "unat (tm_db_len e) = length ?d" "length ?d < 256" "unat (tm_tb_len e) = length ?t" "length ?t < 256"
    and cols: "tm_column_count e < 0x10000" "unat (tm_column_count e) = length (tm_column_type e)"
      "tm_metadata_len e < 0x10000" and id: "unat (tm_table_id e) < 2 ^ 48"
    using 5 by (auto simp: table_map_wf_def)
  have u: "(ucast (ucast (tm_db_len e) :: u8) :: u64) = tm_db_len e" "unat (ucast (tm_db_len e) :: u8) = length ?d"
    "(ucast (ucast (tm_tb_len e) :: u8) :: u64) = tm_tb_len e" "unat (ucast (tm_tb_len e) :: u8) = length ?t"
    using db by (simp_all add: ucast_ucast_small unat_ucast_small)
  let ?pre = "header_bytes h @ int6store (tm_table_id e) @ int2store (tm_flags e) @
     int1store (ucast (tm_db_len e)) @ (?d @ [0]) @ int1store (ucast (tm_tb_len e)) @ (?t @ [0])"
  let ?post = "tm_metadata e @ tm_null_bits e @ cs @ ys"
  have img: "table_map_image e @ cs @ ys = ?pre @ ?cc @ tm_column_type e @ ?mm @ ?post"
    using h by (simp add: table_map_image_def)
  have c1: "get_lenenc_uint (?pre @ ?cc @ tm_column_type e @ ?mm @ ?post) (31 + length ?d + length ?t) =
      Some (tm_column_count e, 31 + length ?d + length ?t + length ?cc)"
    using lenenc_width(1)[of "tm_column_count e" INT32_MAX ?pre "tm_column_type e @ ?mm @ ?post"] cols
    by (simp add: ac_simps)
  have c2: "get_lenenc_uint (?pre @ ?cc @ tm_column_type e @ ?mm @ ?post)
      (31 + length ?d + length ?t + length ?cc + length (tm_column_type e)) =
      Some (tm_metadata_len e, 31 + length ?d + length ?t + length ?cc + length (tm_column_type e) + length ?mm)"
    using lenenc_width(1)[of "tm_metadata_len e" INT32_MAX "?pre @ ?cc @ tm_column_type e" ?post] cols
    by (simp add: ac_simps)
  have rest: "int6load (?pre @ ys') 19 = Some (tm_table_id e)" "int2load (?pre @ ys') 25 = Some (tm_flags e)"
    "int1load (?pre @ ys') 27 = Some (ucast (tm_db_len e))" "peek (length ?d) (?pre @ ys') 28 = Some ?d"
    "int1load (?pre @ ys') (29 + length ?d) = Some (ucast (tm_tb_len e))"
    "peek (length ?t) (?pre @ ys') (30 + length ?d) = Some ?t" for ys'
    using id by (simp_all add: peek_tail int1load_tail numeral_2_eq_2)
  show ?case
    unfolding img TableMapEvent_deserialize_def
    using h header_deserialize[OF h(2)] rest c1 c2 cols u
    by (simp add: table_map_absorb_def)
qed (auto simp: table_map_wf_def event_ok_def table_map_image_def)

end
