(* ===== verification/EventScan.thy ===== *)
theory EventScan
  imports FileEvents DataEvents
begin

unbundle bit_operations_syntax

text \<open>
  Reading a binlog file back: \<^verbatim>\<open>verify_event_checksum\<close>, \<^verbatim>\<open>seek_and_verify_complete_trx\<close> and
  \<^verbatim>\<open>seek_gtid_event\<close> of \<^verbatim>\<open>binlog/ob_log_event.cpp\<close>.  A file is its list of bytes, \<^verbatim>\<open>None\<close> a file that
  cannot be opened; \<^verbatim>\<open>FsUtil::read_file\<close> is \<^const>\<open>peek\<close>, which fails when fewer bytes are left.  The loops
  follow \<^verbatim>\<open>next_position\<close>, which a file chooses freely, so they carry fuel: \<^const>\<open>Running\<close> is a loop that has
  not ended yet and \<^const>\<open>Fault\<close> a reader that left its block or failed an assertion.  \<^verbatim>\<open>stack\<close> is the
  content of the local buffer of four bytes before the magic number is read into it, \<^verbatim>\<open>tail\<close> and \<^verbatim>\<open>tail_name\<close>
  are as in \<^verbatim>\<open>QueryEvent::deserialize\<close>, and the objects a reader fills are arguments: default-constructed
  ones, with the checksum setting of the process.
\<close>

section \<open>Definitions\<close>

definition binlog_magic :: "byte list" where
  "binlog_magic = [254, 98, 105, 110]"

definition read_magic :: "byte list \<Rightarrow> byte list \<Rightarrow> nat \<Rightarrow> byte list" where
  "read_magic stack file pos = (let bs = take 4 (drop pos file) in bs @ take (4 - length bs) (drop (length bs) stack))"

definition int4load_at :: "byte list \<Rightarrow> u32 \<Rightarrow> u32 option" where
  "int4load_at buffer pos = int4load buffer (unat pos)"

text \<open>\<^verbatim>\<open>crc32(0, Z_NULL, 0)\<close> is the initial value \<^verbatim>\<open>crc\<close> starts from; \<^verbatim>\<open>Some True\<close> is \<^verbatim>\<open>OMS_OK\<close>.\<close>

definition verify_event_checksum :: "crc32 \<Rightarrow> nat \<Rightarrow> byte list \<Rightarrow> bool \<Rightarrow> bool option" where
  "verify_event_checksum crc start_pos file require_event_existed =
     (case peek COMMON_HEADER_LENGTH file start_pos of
        None \<Rightarrow> Some (\<not> require_event_existed)
      | Some header_buff \<Rightarrow> do {
          header \<leftarrow> OblogEventHeader_deserialize header_buff;
          (case peek (unat (eh_event_length header)) file start_pos of
             None \<Rightarrow> Some False
           | Some buffer \<Rightarrow> do {
               let check_sum_pos = eh_event_length header - 4;
               check_sum_read \<leftarrow> int4load_at buffer check_sum_pos;
               summed \<leftarrow> peek (unat check_sum_pos) buffer 0;
               Some (check_sum_read = ucast (crc summed)) }) })"

record BinlogTrxOverview =
  has_previous_gtids_event :: bool
  last_complete_trx_end_pos :: u64
  last_complete_trx_gtid :: u64
  trx_need_truncated_gtid :: u64
  trx_specify_truncated_gtid :: u64
  trx_specify_truncated_end_pos :: u64

definition BinlogTrxOverview_init :: BinlogTrxOverview where
  "BinlogTrxOverview_init = \<lparr>has_previous_gtids_event = False, last_complete_trx_end_pos = 0,
     last_complete_trx_gtid = 0, trx_need_truncated_gtid = 0, trx_specify_truncated_gtid = 0,
     trx_specify_truncated_end_pos = 0\<rparr>"

text \<open>The state of the loop: the overview and \<^verbatim>\<open>last_event_start_pos_in_complete_trx\<close>.\<close>

type_synonym scan_state = "BinlogTrxOverview \<times> nat"

definition trx_end :: "OblogEventHeader \<Rightarrow> nat \<Rightarrow> scan_state \<Rightarrow> scan_state" where
  "trx_end header cur_pos st =
     (let trx = fst st; gtid = trx_need_truncated_gtid trx; end_pos = ucast (eh_next_position header);
          trx = trx\<lparr>last_complete_trx_gtid := gtid, trx_need_truncated_gtid := 0, last_complete_trx_end_pos := end_pos\<rparr>
      in (if gtid = trx_specify_truncated_gtid trx then trx\<lparr>trx_specify_truncated_end_pos := end_pos\<rparr> else trx, cur_pos))"

record reader =
  rd_gtid :: GtidLogEvent
  rd_query :: QueryEvent
  rd_tail :: "byte list"
  rd_tail_name :: "byte list"

definition BEGIN_VAR :: "byte list" where
  "BEGIN_VAR = ascii ''BEGIN''"

definition trx_event ::
  "reader \<Rightarrow> byte list \<Rightarrow> OblogEventHeader \<Rightarrow> nat \<Rightarrow> scan_state \<Rightarrow> scan_state option" where
  "trx_event rd file header cur_pos st =
     (case eh_type_code header of
        PREVIOUS_GTIDS_LOG_EVENT \<Rightarrow>
          Some ((fst st)\<lparr>has_previous_gtids_event := True,
                         last_complete_trx_end_pos := ucast (eh_next_position header)\<rparr>, cur_pos)
      | GTID_LOG_EVENT \<Rightarrow>
          (case peek (unat (eh_event_length header)) file cur_pos of
             None \<Rightarrow> Some st
           | Some buffer \<Rightarrow> do {
               e \<leftarrow> GtidLogEvent_deserialize (rd_gtid rd) buffer;
               Some ((fst st)\<lparr>trx_need_truncated_gtid := gt_gtid_txn_id e\<rparr>, snd st) })
      | XID_EVENT \<Rightarrow> Some (trx_end header cur_pos st)
      | QUERY_EVENT \<Rightarrow>
          (case peek (unat (eh_event_length header)) file cur_pos of
             None \<Rightarrow> Some st
           | Some buffer \<Rightarrow> do {
               e \<leftarrow> QueryEvent_deserialize (rd_tail rd) (rd_tail_name rd) (rd_query rd) buffer;
               Some (if takeWhile (\<lambda>b. b \<noteq> 0) (qu_sql_statment e) = BEGIN_VAR then st
                     else trx_end header cur_pos st) })
      | _ \<Rightarrow> Some st)"

primrec trx_loop :: "nat \<Rightarrow> reader \<Rightarrow> byte list \<Rightarrow> nat \<Rightarrow> scan_state \<Rightarrow> scan_state loop_result" where
  "trx_loop 0 rd file cur_pos st = (if cur_pos < length file then Running else Finished st)"
| "trx_loop (Suc fuel) rd file cur_pos st =
     (if cur_pos < length file then
        (case peek COMMON_HEADER_LENGTH file cur_pos of
           None \<Rightarrow> Finished st
         | Some header_buff \<Rightarrow>
             then_loop (do { header \<leftarrow> OblogEventHeader_deserialize header_buff;
                             st' \<leftarrow> trx_event rd file header cur_pos st;
                             Some (unat (eh_next_position header), st') })
               (\<lambda>(next_pos, st'). trx_loop fuel rd file next_pos st'))
      else Finished st)"

definition seek_and_verify_complete_trx ::
  "nat \<Rightarrow> crc32 \<Rightarrow> reader \<Rightarrow> byte list \<Rightarrow> byte list option \<Rightarrow> BinlogTrxOverview \<Rightarrow>
   (bool \<times> BinlogTrxOverview) loop_result" where
  "seek_and_verify_complete_trx fuel crc rd stack binlog_file binlog_trx =
     (case binlog_file of
        None \<Rightarrow> Finished (False, binlog_trx)
      | Some file \<Rightarrow>
          if read_magic stack file 0 \<noteq> binlog_magic then Finished (True, binlog_trx)
          else (case trx_loop fuel rd file 4 (binlog_trx, 0) of
                  Finished (trx, last_start) \<Rightarrow>
                    if has_previous_gtids_event trx
                    then then_loop (verify_event_checksum crc last_start file True) (\<lambda>ok. Finished (ok, trx))
                    else Finished (True, trx)
                | Running \<Rightarrow> Running
                | Fault \<Rightarrow> Fault))"

text \<open>\<^verbatim>\<open>seek_gtid_event\<close>: what it collects besides the position.\<close>

record gtid_scan =
  gs_gtid_log_events :: "GtidLogEvent list"
  gs_rotate_existed :: bool
  gs_checksum_flag :: u8
  gs_last_xid :: u64
  gs_previous_gtid_messages :: "GtidMessage list"

record gtid_reader =
  gr_xid :: XidEvent
  gr_gtid :: GtidLogEvent
  gr_format :: FormatDescriptionEvent
  gr_previous :: PreviousGtidsLogEvent

definition with_event ::
  "byte list \<Rightarrow> OblogEventHeader \<Rightarrow> nat \<Rightarrow> (byte list \<Rightarrow> 'a option) \<Rightarrow> ('a \<Rightarrow> 's \<Rightarrow> 's) \<Rightarrow> 's \<Rightarrow> 's option" where
  "with_event file header pos deser use st =
     (case peek (unat (eh_event_length header)) file pos of
        None \<Rightarrow> Some st
      | Some buffer \<Rightarrow> map_option (\<lambda>e. use e st) (deser buffer))"

definition gtid_event ::
  "gtid_reader \<Rightarrow> byte list \<Rightarrow> OblogEventHeader \<Rightarrow> nat \<Rightarrow> gtid_scan \<Rightarrow> gtid_scan option" where
  "gtid_event rd file header pos st =
     (case eh_type_code header of
        XID_EVENT \<Rightarrow>
          with_event file header pos (XidEvent_deserialize (gr_xid rd)) (\<lambda>e. gs_last_xid_update (\<lambda>_. xid_xid e)) st
      | GTID_LOG_EVENT \<Rightarrow>
          with_event file header pos (GtidLogEvent_deserialize (gr_gtid rd))
            (\<lambda>e. gs_gtid_log_events_update (\<lambda>es. es @ [e])) st
      | ROTATE_EVENT \<Rightarrow> Some (st\<lparr>gs_rotate_existed := True\<rparr>)
      | FORMAT_DESCRIPTION_EVENT \<Rightarrow>
          with_event file header pos (FormatDescriptionEvent_deserialize (gr_format rd))
            (\<lambda>e. gs_checksum_flag_update (\<lambda>_. ev_checksum_flag e)) st
      | PREVIOUS_GTIDS_LOG_EVENT \<Rightarrow>
          with_event file header pos (PreviousGtidsLogEvent_deserialize (gr_previous rd))
            (\<lambda>e. gs_previous_gtid_messages_update (\<lambda>ms. ms @ map snd (pg_gtid_messages e))) st
      | _ \<Rightarrow> Some st)"

primrec gtid_loop :: "nat \<Rightarrow> gtid_reader \<Rightarrow> byte list \<Rightarrow> nat \<Rightarrow> gtid_scan \<Rightarrow> (gtid_scan \<times> nat) loop_result" where
  "gtid_loop 0 rd file pos st = (if pos < length file then Running else Finished (st, pos))"
| "gtid_loop (Suc fuel) rd file pos st =
     (if pos < length file then
        (case peek COMMON_HEADER_LENGTH file pos of
           None \<Rightarrow> Finished (st, pos)
         | Some header_buff \<Rightarrow>
             then_loop (do { header \<leftarrow> OblogEventHeader_deserialize header_buff;
                             st' \<leftarrow> gtid_event rd file header pos st;
                             Some (unat (eh_next_position header), st') })
               (\<lambda>(next_pos, st'). gtid_loop fuel rd file next_pos st'))
      else Finished (st, pos))"

definition seek_gtid_event ::
  "nat \<Rightarrow> gtid_reader \<Rightarrow> byte list \<Rightarrow> byte list option \<Rightarrow> gtid_scan \<Rightarrow> nat \<Rightarrow>
   (bool \<times> gtid_scan \<times> nat) loop_result" where
  "seek_gtid_event fuel rd stack binlog_file st pos =
     (case binlog_file of
        None \<Rightarrow> Finished (True, st, pos)
      | Some file \<Rightarrow>
          if read_magic stack file pos \<noteq> binlog_magic then Finished (False, st, pos)
          else (case gtid_loop fuel rd file (pos + 4) st of
                  Finished (st', pos) \<Rightarrow> Finished (True, st', pos)
                | Running \<Rightarrow> Running
                | Fault \<Rightarrow> Fault))"


section \<open>Files as sequences of events\<close>

text \<open>
  An event of a file: a GTID, query or XID event as an object, any other one as its header and body.
\<close>

datatype item =
    GtidItem GtidLogEvent
  | QueryItem QueryEvent
  | XidItem XidEvent
  | OtherItem OblogEventHeader "byte list"

fun item_hdr :: "item \<Rightarrow> OblogEventHeader" where
  "item_hdr (GtidItem e) = event_hdr e"
| "item_hdr (QueryItem e) = event_hdr e"
| "item_hdr (XidItem e) = event_hdr e"
| "item_hdr (OtherItem h body) = h"

fun item_bytes :: "crc32 \<Rightarrow> item \<Rightarrow> byte list" where
  "item_bytes crc (GtidItem e) = ge.file_bytes crc e"
| "item_bytes crc (QueryItem e) = qe.file_bytes crc e"
| "item_bytes crc (XidItem e) = xe.file_bytes crc e"
| "item_bytes crc (OtherItem h body) = header_bytes h @ body"

abbreviation item_len :: "item \<Rightarrow> nat" where
  "item_len i \<equiv> unat (eh_event_length (item_hdr i))"

abbreviation passive_type :: "EventType \<Rightarrow> bool" where
  "passive_type t \<equiv> t \<noteq> GTID_LOG_EVENT \<and> t \<noteq> QUERY_EVENT \<and> t \<noteq> XID_EVENT"

text \<open>\<^verbatim>\<open>item_ok\<close> ties the type code to the object and asks the query reader to find the end of the status
  variables.\<close>

fun item_ok :: "reader \<Rightarrow> item \<Rightarrow> bool" where
  "item_ok rd (GtidItem e) = (gtid_wf e \<and> eh_type_code (event_hdr e) = GTID_LOG_EVENT)"
| "item_ok rd (QueryItem e) = (query_wf e \<and> eh_type_code (event_hdr e) = QUERY_EVENT \<and>
     ev_checksum_flag (rd_query rd) = ev_checksum_flag e \<and> 0 \<in> set (qu_status_vars e @ rd_tail rd))"
| "item_ok rd (XidItem e) = (xid_wf e \<and> eh_type_code (event_hdr e) = XID_EVENT)"
| "item_ok rd (OtherItem h body) = (proper_header h \<and> passive_type (eh_type_code h) \<and>
     19 + length body = unat (eh_event_length h))"

fun placed :: "nat \<Rightarrow> item list \<Rightarrow> bool" where
  "placed pos [] = True"
| "placed pos (i # is) =
     (unat (eh_next_position (item_hdr i)) = pos + item_len i \<and> placed (pos + item_len i) is)"

text \<open>What an event means for the transactions of the file.\<close>

fun item_effect :: "nat \<Rightarrow> item \<Rightarrow> scan_state \<Rightarrow> scan_state" where
  "item_effect pos (GtidItem e) st = ((fst st)\<lparr>trx_need_truncated_gtid := gt_gtid_txn_id e\<rparr>, snd st)"
| "item_effect pos (QueryItem e) st =
     (if takeWhile (\<lambda>b. b \<noteq> 0) (qu_sql_statment e) = BEGIN_VAR then st else trx_end (event_hdr e) pos st)"
| "item_effect pos (XidItem e) st = trx_end (event_hdr e) pos st"
| "item_effect pos (OtherItem h body) st =
     (if eh_type_code h = PREVIOUS_GTIDS_LOG_EVENT
      then ((fst st)\<lparr>has_previous_gtids_event := True, last_complete_trx_end_pos := ucast (eh_next_position h)\<rparr>, pos)
      else st)"

fun items_effect :: "nat \<Rightarrow> item list \<Rightarrow> scan_state \<Rightarrow> scan_state" where
  "items_effect pos [] st = st"
| "items_effect pos (i # is) st = items_effect (pos + item_len i) is (item_effect pos i st)"

abbreviation items_bytes :: "crc32 \<Rightarrow> item list \<Rightarrow> byte list" where
  "items_bytes crc is \<equiv> concat (map (item_bytes crc) is)"

lemma item_bytes_length: "item_ok rd i \<Longrightarrow> length (item_bytes crc i) = item_len i"
  by (cases i) (simp_all add: ge.file_bytes_length qe.file_bytes_length xe.file_bytes_length)

lemma item_header: "item_ok rd i \<Longrightarrow> OblogEventHeader_deserialize (item_bytes crc i @ ys) = Some (item_hdr i)"
proof (cases i)
  case (GtidItem e)
  assume "item_ok rd i"
  then show ?thesis using GtidItem ge.file_bytes_header[of e crc ys] by (simp add: gtid_wf_def event_ok_def)
next
  case (QueryItem e)
  assume "item_ok rd i"
  then show ?thesis using QueryItem qe.file_bytes_header[of e crc ys] by (simp add: query_wf_def event_ok_def)
next
  case (XidItem e)
  assume "item_ok rd i"
  then show ?thesis using XidItem xe.file_bytes_header[of e crc ys] by (simp add: xid_wf_def event_ok_def)
qed (simp add: header_deserialize)

lemma item_long: "item_ok rd i \<Longrightarrow> 19 \<le> item_len i"
proof -
  assume ok: "item_ok rd i"
  have "\<exists>body. item_bytes crc_zero i = header_bytes (item_hdr i) @ body"
    using ok ge.image_header qe.image_header xe.image_header
    by (cases i) (fastforce simp: ge.file_bytes_def qe.file_bytes_def xe.file_bytes_def)+
  then show ?thesis using item_bytes_length[OF ok, of crc_zero] by auto
qed

text \<open>A header is read from the first nineteen bytes alone.\<close>

lemma header_local: "19 \<le> length bs \<Longrightarrow> OblogEventHeader_deserialize (take 19 bs) = OblogEventHeader_deserialize bs"
proof -
  assume "19 \<le> length bs"
  then have "peek n (take 19 bs) p = peek n bs p" if "p + n \<le> 19" for n p
    using that by (simp add: peek_def drop_take min_def)
  then show ?thesis by (simp add: OblogEventHeader_deserialize_def store_load_defs)
qed

lemma peek_prefix: "length xs = p \<Longrightarrow> n \<le> length ys \<Longrightarrow> peek n (xs @ ys) p = Some (take n ys)"
  by (simp add: peek_def)

text \<open>The header at the place of an event, even when only a part of its body was written.\<close>

lemma header_at:
  assumes "item_ok rd i" "19 \<le> k"
  shows "\<exists>hb. peek 19 (pre @ take k (item_bytes crc i) @ rest) (length pre) = Some hb \<and>
           OblogEventHeader_deserialize hb = Some (item_hdr i)"
proof -
  let ?b = "item_bytes crc i"
  have l: "19 \<le> length ?b" using item_long[OF assms(1)] item_bytes_length[OF assms(1)] by simp
  then have "19 \<le> length (take k ?b @ rest)" "take 19 (take k ?b @ rest) = take 19 ?b"
    using assms(2) by simp_all
  then have "peek 19 (pre @ take k ?b @ rest) (length pre) = Some (take 19 ?b)"
    using peek_prefix[OF refl, of 19 "take k ?b @ rest" pre] by metis
  moreover have "OblogEventHeader_deserialize (take 19 ?b) = Some (item_hdr i)"
    using header_local[OF l] item_header[OF assms(1), of crc "[]"] by simp
  ultimately show ?thesis by blast
qed

lemma event_at:
  assumes "item_ok rd i"
  shows "peek (item_len i) (pre @ item_bytes crc i @ rest) (length pre) = Some (item_bytes crc i)"
  using item_bytes_length[OF assms, of crc] by (simp add: peek_prefix)

text \<open>One turn of the loop on a whole event.\<close>

lemma trx_event_item:
  assumes "item_ok rd i"
  shows "trx_event rd (pre @ item_bytes crc i @ rest) (item_hdr i) (length pre) st =
         Some (item_effect (length pre) i st)"
proof (cases i)
  case (GtidItem e)
  then show ?thesis
    using assms event_at[OF assms, of pre crc rest] ge.deser_file_bytes[of e "rd_gtid rd" crc "[]"]
    by (simp add: trx_event_def gtid_absorb_def)
next
  case (QueryItem e)
  then show ?thesis
    using assms event_at[OF assms, of pre crc rest]
      qe.deser_file_bytes[of e "rd_query rd" "rd_tail rd" "rd_tail_name rd" crc "[]"]
    by (simp add: trx_event_def query_absorb_def)
next
  case (XidItem e)
  then show ?thesis using assms by (simp add: trx_event_def)
next
  case (OtherItem h body)
  then show ?thesis using assms by (cases "eh_type_code h") (simp_all add: trx_event_def)
qed

lemma trx_loop_items:
  assumes "list_all (item_ok rd) is" "placed (length pre) is"
  shows "trx_loop (length is + fuel) rd (pre @ items_bytes crc is @ rest) (length pre) st =
         trx_loop fuel rd (pre @ items_bytes crc is @ rest) (length pre + length (items_bytes crc is))
           (items_effect (length pre) is st)"
  using assms
proof (induction "is" arbitrary: pre st)
  case (Cons i "is")
  let ?file = "pre @ items_bytes crc (i # is) @ rest"
  have ok: "item_ok rd i" and len: "length (item_bytes crc i) = item_len i" "19 \<le> item_len i"
    using Cons.prems item_bytes_length[of rd i crc] item_long[of rd i] by auto
  obtain hb where hb: "peek COMMON_HEADER_LENGTH ?file (length pre) = Some hb"
    "OblogEventHeader_deserialize hb = Some (item_hdr i)"
    using header_at[OF ok, of "item_len i" pre crc "items_bytes crc is @ rest"] len
    by (auto simp: COMMON_HEADER_LENGTH_def)
  have step: "trx_event rd ?file (item_hdr i) (length pre) st = Some (item_effect (length pre) i st)"
    using trx_event_item[OF ok, of pre crc "items_bytes crc is @ rest"] by simp
  have "length pre < length ?file" using len by simp
  then have "trx_loop (length (i # is) + fuel) rd ?file (length pre) st =
      trx_loop (length is + fuel) rd ?file (length pre + item_len i) (item_effect (length pre) i st)"
    using hb step Cons.prems(2) by simp
  then show ?case
    using Cons.IH[of "pre @ item_bytes crc i" "item_effect (length pre) i st"] Cons.prems len
    by (simp add: add.assoc)
qed simp


section \<open>The end of a file\<close>

fun is_open :: "item \<Rightarrow> bool" where
  "is_open (QueryItem e) = (takeWhile (\<lambda>b. b \<noteq> 0) (qu_sql_statment e) = BEGIN_VAR)"
| "is_open (OtherItem h body) = (eh_type_code h \<noteq> PREVIOUS_GTIDS_LOG_EVENT)"
| "is_open _ = False"

fun is_end :: "item \<Rightarrow> bool" where
  "is_end (QueryItem e) = (takeWhile (\<lambda>b. b \<noteq> 0) (qu_sql_statment e) \<noteq> BEGIN_VAR)"
| "is_end (XidItem e) = True"
| "is_end _ = False"

fun is_xid :: "item \<Rightarrow> bool" where
  "is_xid (XidItem e) = True"
| "is_xid _ = False"

lemma trx_loop_outside: "length file \<le> pos \<Longrightarrow> trx_loop fuel rd file pos st = Finished st"
  by (cases fuel) simp_all

lemma peek_beyond: "length xs < n \<Longrightarrow> peek n xs 0 = None"
  by (simp add: peek_def)

text \<open>A part of an event at the end of the file: too short for its header, or a header whose body is cut.\<close>

lemma trx_event_torn:
  assumes "item_ok rd i" "k < item_len i" "is_open i \<or> (\<exists>e. i = GtidItem e) \<or> (\<exists>e. i = QueryItem e)"
  shows "trx_event rd (pre @ take k (item_bytes crc i)) (item_hdr i) (length pre) st = Some st"
proof -
  have short: "peek (item_len i) (pre @ take k (item_bytes crc i)) (length pre) = None"
    using item_bytes_length[OF assms(1), of crc] assms(2) by (simp add: peek_beyond)
  show ?thesis
  proof (cases i)
    case (OtherItem h body)
    then show ?thesis using assms(1,3) by (cases "eh_type_code h") (simp_all add: trx_event_def)
  qed (use assms short in \<open>auto simp: trx_event_def\<close>)
qed

lemma torn_header:
  assumes "item_ok rd i" "k < item_len i" "19 \<le> k"
    "unat (eh_next_position (item_hdr i)) = length pre + item_len i"
    "trx_event rd (pre @ take k (item_bytes crc i)) (item_hdr i) (length pre) st = Some st'"
  shows "trx_loop (Suc fuel) rd (pre @ take k (item_bytes crc i)) (length pre) st = Finished st'"
proof -
  let ?file = "pre @ take k (item_bytes crc i)"
  obtain hb where hb: "peek COMMON_HEADER_LENGTH ?file (length pre) = Some hb"
    "OblogEventHeader_deserialize hb = Some (item_hdr i)"
    using header_at[OF assms(1,3), of pre crc "[]"] by (auto simp: COMMON_HEADER_LENGTH_def)
  have l: "length ?file = length pre + k" using item_bytes_length[OF assms(1), of crc] assms(2) by simp
  show ?thesis
    using hb assms l trx_loop_outside[of ?file "length pre + item_len i" fuel rd st'] by simp
qed

lemma trx_loop_torn:
  assumes "item_ok rd i" "k < item_len i" "19 \<le> k \<Longrightarrow> \<not> is_xid i" "\<not> is_end i \<Longrightarrow> is_open i \<or> (\<exists>e. i = GtidItem e)"
    "unat (eh_next_position (item_hdr i)) = length pre + item_len i"
  shows "trx_loop (Suc fuel) rd (pre @ take k (item_bytes crc i)) (length pre) st = Finished st"
proof (cases "19 \<le> k")
  case True
  then have "is_open i \<or> (\<exists>e. i = GtidItem e) \<or> (\<exists>e. i = QueryItem e)" using assms(3,4) by (cases i) auto
  then show ?thesis using torn_header[OF assms(1,2) True assms(5)] trx_event_torn[OF assms(1,2)] by blast
next
  case False
  then show ?thesis by (simp add: peek_beyond COMMON_HEADER_LENGTH_def)
qed

section \<open>Transactions\<close>

text \<open>A complete transaction: a GTID event, events that leave it open, and the event that ends it.\<close>

fun gtid_of :: "item list \<Rightarrow> u64" where
  "gtid_of (GtidItem e # is) = gt_gtid_txn_id e"
| "gtid_of _ = 0"

fun complete_trx :: "item list \<Rightarrow> bool" where
  "complete_trx (GtidItem e # is) = (is \<noteq> [] \<and> list_all is_open (butlast is) \<and> is_end (last is))"
| "complete_trx _ = False"

abbreviation items_len :: "item list \<Rightarrow> nat" where
  "items_len is \<equiv> sum_list (map item_len is)"

text \<open>What the scan notes of a complete transaction: its number, its end, and where its last event starts.\<close>

fun trx_log :: "nat \<Rightarrow> item list list \<Rightarrow> (u64 \<times> u64 \<times> nat) list" where
  "trx_log pos [] = []"
| "trx_log pos (t # ts) =
     (gtid_of t, of_nat (pos + items_len t), pos + items_len (butlast t)) # trx_log (pos + items_len t) ts"

definition note_trx :: "u64 \<times> u64 \<times> nat \<Rightarrow> scan_state \<Rightarrow> scan_state" where
  "note_trx note st = (case note of (gtid, end_pos, start) \<Rightarrow>
     ((fst st)\<lparr>last_complete_trx_gtid := gtid, trx_need_truncated_gtid := 0, last_complete_trx_end_pos := end_pos,
        trx_specify_truncated_end_pos := (if gtid = trx_specify_truncated_gtid (fst st) then end_pos
                                          else trx_specify_truncated_end_pos (fst st))\<rparr>, start))"

lemma items_len_bytes: "list_all (item_ok rd) is \<Longrightarrow> length (items_bytes crc is) = items_len is"
  by (induction "is") (auto simp: item_bytes_length)

lemma items_effect_append:
  "items_effect pos (xs @ ys) st = items_effect (pos + items_len xs) ys (items_effect pos xs st)"
  by (induction xs arbitrary: pos st) (simp_all add: add.assoc)

lemma placed_append: "placed pos (xs @ ys) \<longleftrightarrow> placed pos xs \<and> placed (pos + items_len xs) ys"
  by (induction xs arbitrary: pos) (auto simp: add.assoc)

lemma open_effect: "list_all is_open is \<Longrightarrow> items_effect pos is st = st"
proof (induction "is" arbitrary: pos)
  case (Cons i "is")
  then show ?case by (cases i) auto
qed simp

lemma ucast_of_unat: "unat (w :: u32) = n \<Longrightarrow> (ucast w :: u64) = of_nat n"
  by (metis of_nat_unat)

lemma end_effect:
  assumes "is_end i" "unat (eh_next_position (item_hdr i)) = n"
  shows "item_effect pos i st = note_trx (trx_need_truncated_gtid (fst st), of_nat n, pos) st"
proof -
  have "(ucast (eh_next_position (item_hdr i)) :: u64) = of_nat n" using assms(2) by (rule ucast_of_unat)
  then show ?thesis using assms(1) by (cases i) (auto simp: trx_end_def note_trx_def Let_def)
qed

lemma trx_effect:
  assumes "complete_trx t" "placed pos t"
  shows "items_effect pos t st = note_trx (gtid_of t, of_nat (pos + items_len t), pos + items_len (butlast t)) st"
proof -
  obtain e mid i where t: "t = GtidItem e # mid @ [i]" and mid: "list_all is_open mid" "is_end i"
    using assms(1) by (cases t rule: complete_trx.cases) (auto, metis append_butlast_last_id)
  let ?st = "((fst st)\<lparr>trx_need_truncated_gtid := gt_gtid_txn_id e\<rparr>, snd st)"
  have "items_effect pos t st = item_effect (pos + items_len (GtidItem e # mid)) i ?st"
    using mid(1) by (simp add: t items_effect_append open_effect add.assoc)
  also have "\<dots> = note_trx (gt_gtid_txn_id e, of_nat (pos + items_len t), pos + items_len (GtidItem e # mid)) ?st"
    using end_effect[OF mid(2)] assms(2) by (simp add: t placed_append add.assoc)
  finally show ?thesis by (simp add: t note_trx_def add.assoc)
qed

lemma trxs_effect:
  "list_all complete_trx ts \<Longrightarrow> placed pos (concat ts) \<Longrightarrow>
   items_effect pos (concat ts) st = fold note_trx (trx_log pos ts) st"
  by (induction ts arbitrary: pos st) (auto simp: items_effect_append placed_append trx_effect)

lemma trx_log_snoc:
  "trx_log pos (ts @ [t]) = trx_log pos ts @
     [(gtid_of t, of_nat (pos + items_len (concat ts) + items_len t), pos + items_len (concat ts) + items_len (butlast t))]"
  by (induction ts arbitrary: pos) (simp_all add: add.assoc)

lemma note_trx_fold:
  "has_previous_gtids_event (fst (fold note_trx log st)) = has_previous_gtids_event (fst st)"
  "trx_specify_truncated_gtid (fst (fold note_trx log st)) = trx_specify_truncated_gtid (fst st)"
  "trx_specify_truncated_end_pos (fst (fold note_trx log st)) =
     last (trx_specify_truncated_end_pos (fst st) #
       map (fst \<circ> snd) (filter (\<lambda>note. fst note = trx_specify_truncated_gtid (fst st)) log))"
  by (induction log arbitrary: st) (auto simp: note_trx_def split: prod.splits)


section \<open>Checksums\<close>

lemma verify_sealed:
  assumes head: "OblogEventHeader_deserialize (img @ int4store c) = Some h" "19 \<le> length img"
    and len: "unat (eh_event_length h) = length img + 4"
  shows "verify_event_checksum crc (length pre) (pre @ (img @ int4store c) @ rest) req = Some (c = ucast (crc img))"
proof -
  let ?b = "img @ int4store c"
  have "peek COMMON_HEADER_LENGTH (pre @ ?b @ rest) (length pre) = Some (take 19 ?b)"
    using head(2) peek_prefix[OF refl, of 19 "?b @ rest" pre] by (simp add: COMMON_HEADER_LENGTH_def)
  moreover have "OblogEventHeader_deserialize (take 19 ?b) = Some h"
    using header_local[of ?b] head by simp
  moreover have "peek (unat (eh_event_length h)) (pre @ ?b @ rest) (length pre) = Some ?b"
    using len peek_prefix[OF refl, of "length ?b" "?b @ rest" pre] by simp
  moreover have "unat (eh_event_length h - 4) = length img"
    using len by (simp add: unat_sub word_le_nat_alt)
  ultimately show ?thesis by (simp add: verify_event_checksum_def int4load_at_def)
qed

context event_writer
begin

text \<open>An event whose checksum covers what is in the file verifies.\<close>

lemma verify_file_bytes:
  assumes "wf e" "proper_header (hdr e)" "flag e = CRC32"
  shows "verify_event_checksum crc (length pre) (pre @ file_bytes crc e @ rest) req =
         Some (ucast (crc (summed e)) = (ucast (crc (image e)) :: u32))"
proof -
  have fb: "file_bytes crc e = image e @ int4store (ucast (crc (summed e)))"
    using assms(3) by (simp add: file_bytes_def checksum_bytes_def)
  have "OblogEventHeader_deserialize (image e @ int4store (ucast (crc (summed e)))) = Some (hdr e)"
    using file_bytes_header[OF assms(1,2), of crc "[]"] by (simp add: fb)
  moreover have "19 \<le> length (image e)" using image_header[OF assms(1)] by auto
  moreover have "unat (eh_event_length (hdr e)) = length (image e) + 4"
    using file_bytes_length[OF assms(1), of crc] by (simp add: fb)
  ultimately show ?thesis unfolding fb by (rule verify_sealed)
qed

end

fun item_flag :: "item \<Rightarrow> u8" where
  "item_flag (QueryItem e) = ev_checksum_flag e"
| "item_flag (XidItem e) = ev_checksum_flag e"
| "item_flag _ = OFF"

lemma verify_end_item:
  assumes "item_ok rd i" "is_end i" "item_flag i = CRC32"
  shows "verify_event_checksum crc (length pre) (pre @ item_bytes crc i @ rest) req = Some True"
proof (cases i)
  case (QueryItem e)
  then show ?thesis using assms qe.verify_file_bytes[of e crc pre rest req] by (simp add: query_wf_def event_ok_def)
next
  case (XidItem e)
  then show ?thesis using assms xe.verify_file_bytes[of e crc pre rest req] by (simp add: xid_wf_def event_ok_def)
qed (use assms in auto)

section \<open>Properties\<close>

text \<open>The two events a file starts with.\<close>

definition file_head :: "item list \<Rightarrow> bool" where
  "file_head hs \<longleftrightarrow> (\<exists>h1 b1 h2 b2. hs = [OtherItem h1 b1, OtherItem h2 b2] \<and>
     eh_type_code h1 = FORMAT_DESCRIPTION_EVENT \<and> eh_type_code h2 = PREVIOUS_GTIDS_LOG_EVENT)"

lemma head_effect:
  assumes "file_head hs" "placed pos hs"
  shows "items_effect pos hs st =
    ((fst st)\<lparr>has_previous_gtids_event := True, last_complete_trx_end_pos := of_nat (pos + items_len hs)\<rparr>,
     pos + items_len (butlast hs))"
proof -
  obtain h1 b1 h2 b2 where hs: "hs = [OtherItem h1 b1, OtherItem h2 b2]"
    "eh_type_code h1 = FORMAT_DESCRIPTION_EVENT" "eh_type_code h2 = PREVIOUS_GTIDS_LOG_EVENT"
    using assms(1) by (auto simp: file_head_def)
  have "unat (eh_next_position h2) = pos + items_len hs" using assms(2) by (simp add: hs add.assoc)
  then have "(ucast (eh_next_position h2) :: u64) = of_nat (pos + items_len hs)" by (rule ucast_of_unat)
  then show ?thesis by (simp add: hs)
qed

lemma partial_effect:
  assumes "complete_trx (opened @ i # missing)"
  shows "items_effect pos opened st =
     ((fst st)\<lparr>trx_need_truncated_gtid := if opened = [] then trx_need_truncated_gtid (fst st) else gtid_of opened\<rparr>, snd st)"
    and "\<not> is_end i \<Longrightarrow> is_open i \<or> (\<exists>e. i = GtidItem e)"
proof -
  have o: "list_all is_open mid" if "opened = GtidItem e # mid" for e mid
    using assms that by (auto simp: butlast_append list_all_iff split: if_splits)
  show "items_effect pos opened st =
     ((fst st)\<lparr>trx_need_truncated_gtid := if opened = [] then trx_need_truncated_gtid (fst st) else gtid_of opened\<rparr>, snd st)"
  proof (cases opened)
    case (Cons g mid)
    then obtain e where "g = GtidItem e" using assms by (cases g) auto
    then show ?thesis using o[of e mid] Cons by (simp add: open_effect)
  qed simp
  show "is_open i \<or> (\<exists>e. i = GtidItem e)" if "\<not> is_end i"
  proof (cases opened)
    case Nil
    then show ?thesis using assms by (cases i) auto
  next
    case (Cons g mid)
    then obtain e where "g = GtidItem e" using assms by (cases g) auto
    then show ?thesis using assms Cons that
      by (cases "missing = []") (auto simp: butlast_append list_all_iff)
  qed
qed


text \<open>
  A file as a crash leaves it: the magic number, the head, the complete transactions, the events of a
  transaction that was being written, and \<^verbatim>\<open>k\<close> bytes of the next event of that transaction.
\<close>

definition crash_file :: "crc32 \<Rightarrow> item list \<Rightarrow> item list list \<Rightarrow> item list \<Rightarrow> item \<Rightarrow> nat \<Rightarrow> byte list" where
  "crash_file crc hs ts opened i k =
     binlog_magic @ items_bytes crc (hs @ concat ts @ opened) @ take k (item_bytes crc i)"

definition well_written :: "reader \<Rightarrow> item list \<Rightarrow> item list list \<Rightarrow> item list \<Rightarrow> item \<Rightarrow> item list \<Rightarrow> bool" where
  "well_written rd hs ts opened i missing \<longleftrightarrow> file_head hs \<and> list_all complete_trx ts \<and>
     complete_trx (opened @ i # missing) \<and> list_all (item_ok rd) (hs @ concat ts @ opened @ [i]) \<and>
     placed 4 (hs @ concat ts @ opened @ [i])"

abbreviation specify :: "u64 \<Rightarrow> BinlogTrxOverview" where
  "specify gtid \<equiv> BinlogTrxOverview_init\<lparr>trx_specify_truncated_gtid := gtid\<rparr>"

text \<open>The state the loop reaches on such a file.\<close>

definition scanned :: "u64 \<Rightarrow> item list \<Rightarrow> item list list \<Rightarrow> item list \<Rightarrow> scan_state" where
  "scanned gtid hs ts opened =
     (let st = fold note_trx (trx_log (4 + items_len hs) ts)
                 ((specify gtid)\<lparr>has_previous_gtids_event := True,
                                 last_complete_trx_end_pos := of_nat (4 + items_len hs)\<rparr>, 4 + items_len (butlast hs))
      in ((fst st)\<lparr>trx_need_truncated_gtid := if opened = [] then trx_need_truncated_gtid (fst st) else gtid_of opened\<rparr>,
          snd st))"

lemma written_effect:
  assumes "well_written rd hs ts opened i missing"
  shows "items_effect 4 (hs @ concat ts @ opened) (specify gtid, 0) = scanned gtid hs ts opened"
  using assms head_effect[of hs 4 "(specify gtid, 0)"] trxs_effect[of ts "4 + items_len hs"] partial_effect(1)[of opened i missing]
  unfolding well_written_def scanned_def Let_def by (simp add: items_effect_append placed_append)

lemma written_parts:
  assumes "well_written rd hs ts opened i missing"
  shows "list_all (item_ok rd) (hs @ concat ts @ opened)" "item_ok rd i" "placed 4 (hs @ concat ts @ opened)"
    "unat (eh_next_position (item_hdr i)) = 4 + items_len (hs @ concat ts @ opened) + item_len i"
    "length (binlog_magic @ items_bytes crc (hs @ concat ts @ opened)) = 4 + items_len (hs @ concat ts @ opened)"
proof -
  show ok: "list_all (item_ok rd) (hs @ concat ts @ opened)" "item_ok rd i" "placed 4 (hs @ concat ts @ opened)"
    "unat (eh_next_position (item_hdr i)) = 4 + items_len (hs @ concat ts @ opened) + item_len i"
    using assms by (auto simp: well_written_def placed_append add.assoc)
  show "length (binlog_magic @ items_bytes crc (hs @ concat ts @ opened)) = 4 + items_len (hs @ concat ts @ opened)"
    using items_len_bytes[OF ok(1), of crc] by (simp only: length_append) (simp add: binlog_magic_def)
qed

text \<open>The loop up to the event that was cut.\<close>

lemma crash_prefix:
  assumes w: "well_written rd hs ts opened i missing" and fuel: "length (hs @ concat ts @ opened) < fuel"
  obtains f where "trx_loop fuel rd (crash_file crc hs ts opened i k) 4 (specify gtid, 0) =
      trx_loop (Suc f) rd ((binlog_magic @ items_bytes crc (hs @ concat ts @ opened)) @ take k (item_bytes crc i))
        (length (binlog_magic @ items_bytes crc (hs @ concat ts @ opened))) (scanned gtid hs ts opened)"
proof -
  let ?is = "hs @ concat ts @ opened"
  obtain f where f: "fuel = length ?is + Suc f" using fuel by (metis add_Suc_right less_iff_Suc_add)
  have l: "length binlog_magic = 4" by (simp add: binlog_magic_def)
  show thesis
    using trx_loop_items[OF written_parts(1)[OF w], of binlog_magic "Suc f" crc "take k (item_bytes crc i)"]
      written_parts(3)[OF w] written_effect[OF w]
    by (intro that[of f]) (simp only: crash_file_def f l append_assoc length_append)
qed

lemma crash_scan:
  assumes w: "well_written rd hs ts opened i missing"
    and k: "k < item_len i" "is_xid i \<longrightarrow> k < 19"
    and fuel: "length (hs @ concat ts @ opened) < fuel"
  shows "trx_loop fuel rd (crash_file crc hs ts opened i k) 4 (specify gtid, 0) = Finished (scanned gtid hs ts opened)"
proof (rule crash_prefix[OF w fuel, of crc k gtid])
  fix f
  let ?pre = "binlog_magic @ items_bytes crc (hs @ concat ts @ opened)"
  assume "trx_loop fuel rd (crash_file crc hs ts opened i k) 4 (specify gtid, 0) =
    trx_loop (Suc f) rd (?pre @ take k (item_bytes crc i)) (length ?pre) (scanned gtid hs ts opened)"
  also have "\<dots> = Finished (scanned gtid hs ts opened)"
    using k w written_parts(1-4)[OF w] written_parts(5)[OF w, of crc] partial_effect(2)[of opened i missing]
    by (intro trx_loop_torn) (auto simp: well_written_def simp del: length_concat)
  finally show ?thesis .
qed

lemma scanned_fields:
  fixes gtid hs ts t opened
  defines "trx \<equiv> fst (scanned gtid hs (ts @ [t]) opened)"
  shows "has_previous_gtids_event trx" "last_complete_trx_gtid trx = gtid_of t"
    "last_complete_trx_end_pos trx = of_nat (4 + items_len (hs @ concat (ts @ [t])))"
    "trx_need_truncated_gtid trx = (if opened = [] then 0 else gtid_of opened)"
    "trx_specify_truncated_end_pos trx =
       last (0 # map (fst \<circ> snd) (filter (\<lambda>x. fst x = gtid) (trx_log (4 + items_len hs) (ts @ [t]))))"
    "snd (scanned gtid hs (ts @ [t]) opened) = 4 + items_len (hs @ concat ts @ butlast t)"
  unfolding trx_def scanned_def Let_def
  by (auto simp: trx_log_snoc note_trx_def note_trx_fold add.assoc BinlogTrxOverview_init_def)


lemma magic_read: "read_magic stack (binlog_magic @ rest) 0 = binlog_magic"
  by (simp add: read_magic_def binlog_magic_def Let_def)

lemma written_items:
  assumes "well_written rd hs (ts @ [t]) opened i missing"
  shows "item_ok rd (last t)" "is_end (last t)" "t = butlast t @ [last t]"
    "length (items_bytes crc (hs @ concat ts @ butlast t)) = items_len (hs @ concat ts @ butlast t)"
proof -
  have "complete_trx t" and ok: "list_all (item_ok rd) (hs @ concat ts @ t)" using assms by (auto simp: well_written_def)
  then obtain e mid j where t: "t = GtidItem e # mid @ [j]" and j: "is_end j"
    by (cases t rule: complete_trx.cases) (auto, metis append_butlast_last_id)
  show "item_ok rd (last t)" "is_end (last t)" "t = butlast t @ [last t]" using ok j by (auto simp: t)
  show "length (items_bytes crc (hs @ concat ts @ butlast t)) = items_len (hs @ concat ts @ butlast t)"
    using ok by (intro items_len_bytes) (auto simp: t)
qed

text \<open>The scan of a file a crash left: loop and checksum together.\<close>

lemma crash_file_scan:
  assumes "well_written rd hs (ts @ [t]) opened i missing"
    and "k < item_len i" "is_xid i \<longrightarrow> k < 19" "item_flag (last t) = CRC32"
    and "length (hs @ concat (ts @ [t]) @ opened) < fuel"
  shows "\<exists>trx. seek_and_verify_complete_trx fuel crc rd stack (Some (crash_file crc hs (ts @ [t]) opened i k)) (specify gtid) =
             Finished (True, trx) \<and>
           has_previous_gtids_event trx \<and>
           last_complete_trx_gtid trx = gtid_of t \<and>
           last_complete_trx_end_pos trx = of_nat (length (crash_file crc hs (ts @ [t]) [] i 0)) \<and>
           trx_need_truncated_gtid trx = (if opened = [] then 0 else gtid_of opened) \<and>
           trx_specify_truncated_end_pos trx =
             last (0 # map (fst \<circ> snd) (filter (\<lambda>x. fst x = gtid) (trx_log (4 + items_len hs) (ts @ [t]))))"
proof -
  let ?trx = "fst (scanned gtid hs (ts @ [t]) opened)" and ?start = "snd (scanned gtid hs (ts @ [t]) opened)"
  let ?file = "crash_file crc hs (ts @ [t]) opened i k"
  let ?pre = "binlog_magic @ items_bytes crc (hs @ concat ts @ butlast t)"
  note w = written_items[OF assms(1)]
  have len: "length (items_bytes crc (hs @ concat (ts @ [t]))) = items_len (hs @ concat (ts @ [t]))"
    using assms(1) by (intro items_len_bytes) (auto simp: well_written_def)
  have tb: "items_bytes crc t = items_bytes crc (butlast t) @ item_bytes crc (last t)"
    using arg_cong[OF w(3), of "items_bytes crc"] by simp
  have "?file = ?pre @ item_bytes crc (last t) @ items_bytes crc opened @ take k (item_bytes crc i)"
    by (simp add: crash_file_def tb)
  moreover have "length ?pre = ?start"
    using w(4)[of crc] unfolding scanned_fields(6) by (simp only: length_append) (simp add: binlog_magic_def)
  ultimately have v: "verify_event_checksum crc ?start ?file True = Some True"
    using verify_end_item[OF w(1,2) assms(4), of crc ?pre] by simp
  have "trx_loop fuel rd ?file 4 (specify gtid, 0) = Finished (?trx, ?start)"
    using crash_scan[OF assms(1-3,5), of crc gtid] by simp
  moreover have "read_magic stack ?file 0 = binlog_magic" by (simp add: crash_file_def magic_read)
  ultimately have run: "seek_and_verify_complete_trx fuel crc rd stack (Some ?file) (specify gtid) = Finished (True, ?trx)"
    using v scanned_fields(1)[of gtid hs ts t opened] by (simp add: seek_and_verify_complete_trx_def case_prod_beta)
  have size: "length (crash_file crc hs (ts @ [t]) [] i 0) = 4 + items_len (hs @ concat (ts @ [t]))"
    using len by (simp only: crash_file_def length_append) (simp add: binlog_magic_def)
  show ?thesis
    unfolding size using run scanned_fields(1-5)[of gtid hs ts t opened] by (intro exI[of _ ?trx] conjI)
qed

text \<open>C4. Restart after a crash.  Whatever part of the next transaction reached the file - none, some of
  its events, and any number of bytes of the next event, of a final XID event fewer than its header has - and when
  the last event of the transaction before it carries a checksum, the scan ends, finds the checksum of the last complete transaction intact, and reports the
  number of that transaction and the exact position where its bytes end, the number of the unfinished one,
  and the end of the last transaction that has the number it was asked for.\<close>

theorem crash_recovery_scan:
  assumes "well_written rd hs (ts @ [t]) opened i missing"
    and "k < item_len i" "is_xid i \<longrightarrow> k < 19" "item_flag (last t) = CRC32"
    and "length (hs @ concat (ts @ [t]) @ opened) < fuel"
  shows "\<exists>trx. seek_and_verify_complete_trx fuel crc rd stack (Some (crash_file crc hs (ts @ [t]) opened i k)) (specify gtid) =
             Finished (True, trx) \<and>
           has_previous_gtids_event trx \<and>
           last_complete_trx_gtid trx = gtid_of t \<and>
           last_complete_trx_end_pos trx = of_nat (length (crash_file crc hs (ts @ [t]) [] i 0)) \<and>
           trx_need_truncated_gtid trx = (if opened = [] then 0 else gtid_of opened) \<and>
           trx_specify_truncated_end_pos trx =
             last (0 # map (fst \<circ> snd) (filter (\<lambda>x. fst x = gtid) (trx_log (4 + items_len hs) (ts @ [t]))))"
  using assms by (rule crash_file_scan)

text \<open>A small file: the two events of the head, one transaction, and the next one begun.\<close>

definition small_header :: "EventType \<Rightarrow> u32 \<Rightarrow> u32 \<Rightarrow> OblogEventHeader" where
  "small_header t len next_pos = \<lparr>eh_timestamp = 7, eh_type_code = t, eh_server_id = 1, eh_event_length = len,
     eh_next_position = next_pos, eh_flags = 0\<rparr>"

definition small_base :: "OblogEventHeader \<Rightarrow> ObLogEvent" where
  "small_base h = \<lparr>ev_header = Some h, ev_ob_txn = [], ev_checkpoint = 0, ev_checksum_flag = CRC32, ev_filter = True\<rparr>"

definition small_gtid :: "u64 \<Rightarrow> u32 \<Rightarrow> GtidLogEvent" where
  "small_gtid n next_pos = ObLogEvent.extend (small_base (small_header GTID_LOG_EVENT 65 next_pos))
     (GtidLogEvent.fields 1 (replicate 16 17) n 2 0 0)"

definition small_xid :: "u32 \<Rightarrow> XidEvent" where
  "small_xid next_pos = ObLogEvent.extend (small_base (small_header XID_EVENT 31 next_pos)) (XidEvent.fields 5 0)"

definition small_head :: "item list" where
  "small_head = [OtherItem (small_header FORMAT_DESCRIPTION_EVENT 19 23) [],
                 OtherItem (small_header PREVIOUS_GTIDS_LOG_EVENT 19 42) []]"

definition small_reader :: reader where
  "small_reader = \<lparr>rd_gtid = small_gtid 0 0, rd_query = ObLogEvent.extend (small_base (small_header QUERY_EVENT 0 0))
     (QueryEvent.fields 0 0 0 0 0 0 [] [] [] False), rd_tail = [], rd_tail_name = []\<rparr>"

lemmas small_defs = small_header_def small_base_def small_gtid_def small_xid_def ObLogEvent.defs GtidLogEvent.defs XidEvent.defs

lemma small_types:
  "proper_type FORMAT_DESCRIPTION_EVENT" "proper_type PREVIOUS_GTIDS_LOG_EVENT" "proper_type GTID_LOG_EVENT"
  "proper_type XID_EVENT"
  by (rule named_proper, simp add: named_events_def)+

lemma small_gtid_ok: "item_ok rd (GtidItem (small_gtid n p))" "item_len (GtidItem (small_gtid n p)) = 65"
  "unat (eh_next_position (item_hdr (GtidItem (small_gtid n p)))) = unat p" "gtid_of (GtidItem (small_gtid n p) # is) = n"
  by (simp_all add: gtid_wf_def event_ok_def gtid_image_def small_defs proper_header_def small_types proper_flag_def
      get_checksum_len_def CRC32_def OFF_def COMMON_CHECKSUM_LENGTH_def)

lemma small_xid_ok: "item_ok rd (XidItem (small_xid p))" "item_len (XidItem (small_xid p)) = 31"
  "unat (eh_next_position (item_hdr (XidItem (small_xid p)))) = unat p" "item_flag (XidItem (small_xid p)) = CRC32"
  by (simp_all add: xid_wf_def event_ok_def xid_image_def small_defs proper_header_def small_types proper_flag_def
      get_checksum_len_def CRC32_def OFF_def COMMON_CHECKSUM_LENGTH_def)

lemma small_head_ok: "file_head small_head" "list_all (item_ok rd) small_head" "items_len small_head = 38" "placed 4 small_head"
  "length small_head = 2"
  by (simp_all add: file_head_def small_head_def small_header_def proper_header_def small_types)

lemma small_written:
  "well_written rd small_head [[GtidItem (small_gtid 9 107), XidItem (small_xid 138)]] [GtidItem (small_gtid 10 203)]
     (XidItem (small_xid 234)) []"
  using small_gtid_ok small_xid_ok small_head_ok
  by (simp add: well_written_def placed_append del: item_ok.simps item_hdr.simps)

theorem crash_recovery_scan_witness:
  "\<exists>trx. seek_and_verify_complete_trx 6 crc_zero small_reader [0, 0, 0, 0]
       (Some (crash_file crc_zero small_head [[GtidItem (small_gtid 9 107), XidItem (small_xid 138)]]
                [GtidItem (small_gtid 10 203)] (XidItem (small_xid 234)) 18)) (specify 9) = Finished (True, trx) \<and>
     last_complete_trx_gtid trx = 9 \<and> trx_need_truncated_gtid trx = 10 \<and> trx_specify_truncated_end_pos trx = 138"
  using crash_recovery_scan [of small_reader small_head "[]" "[GtidItem (small_gtid 9 107), XidItem (small_xid 138)]"
      "[GtidItem (small_gtid 10 203)]" "XidItem (small_xid 234)" "[]" 18 6 crc_zero "[0, 0, 0, 0]" 9]
    small_written[of small_reader] small_xid_ok small_gtid_ok small_head_ok(3,5)
  by (auto simp del: item_hdr.simps item_flag.simps gtid_of.simps)

text \<open>C39. A crash in the middle of the final XID event is not recovered: once the header of that event is in
  the file its transaction counts as complete, the reported end lies behind the end of the file, and the
  checksum of the missing bytes cannot be verified, so the scan fails.\<close>

theorem torn_xid_fails:
  assumes "well_written rd hs ts opened (XidItem e) missing"
    and "k < item_len (XidItem e)" "19 \<le> k" "length (hs @ concat ts @ opened) < fuel"
  shows "\<exists>trx. seek_and_verify_complete_trx fuel crc rd stack (Some (crash_file crc hs ts opened (XidItem e) k)) (specify gtid) =
             Finished (False, trx) \<and>
           length (crash_file crc hs ts opened (XidItem e) k) < unat (last_complete_trx_end_pos trx)"
proof -
  let ?i = "XidItem e"
  let ?file = "crash_file crc hs ts opened ?i k" and ?pre = "binlog_magic @ items_bytes crc (hs @ concat ts @ opened)"
  let ?st = "trx_end (event_hdr e) (length ?pre) (scanned gtid hs ts opened)"
  note ok = written_parts(2)[OF assms(1)] and pl = written_parts(4)[OF assms(1)]
    and pre = written_parts(5)[OF assms(1), of crc]
  have fl: "?file = ?pre @ take k (item_bytes crc ?i)" by (simp add: crash_file_def)
  obtain f where "trx_loop fuel rd ?file 4 (specify gtid, 0) =
      trx_loop (Suc f) rd (?pre @ take k (item_bytes crc ?i)) (length ?pre) (scanned gtid hs ts opened)"
    using crash_prefix[OF assms(1,4)] by blast
  also have "\<dots> = Finished ?st"
    using pl pre ok by (intro torn_header[OF ok assms(2,3)]) (simp_all add: trx_event_def)
  finally have loop: "trx_loop fuel rd ?file 4 (specify gtid, 0) = Finished ?st" .
  have bl: "length (item_bytes crc ?i) = item_len ?i" by (rule item_bytes_length[OF ok])
  obtain hb where hb: "peek COMMON_HEADER_LENGTH ?file (length ?pre) = Some hb"
    "OblogEventHeader_deserialize hb = Some (event_hdr e)"
    using header_at[OF ok assms(3), of ?pre crc "[]"] fl by (auto simp: COMMON_HEADER_LENGTH_def)
  have "peek (item_len ?i) ?file (length ?pre) = None"
    unfolding fl using bl assms(2) by (simp add: peek_beyond)
  then have v: "verify_event_checksum crc (length ?pre) ?file True = Some False"
    using hb by (simp add: verify_event_checksum_def)
  have "has_previous_gtids_event (fst ?st)" "snd ?st = length ?pre"
    "last_complete_trx_end_pos (fst ?st) = ucast (eh_next_position (event_hdr e))"
    by (auto simp: trx_end_def scanned_def Let_def note_trx_fold)
  moreover have "length ?file < unat (eh_next_position (event_hdr e))"
    unfolding fl using pl pre bl assms(2) by simp
  moreover have "read_magic stack ?file 0 = binlog_magic" by (simp add: crash_file_def magic_read)
  ultimately show ?thesis
    using loop v by (cases ?st) (simp add: seek_and_verify_complete_trx_def)
qed


theorem torn_xid_fails_witness:
  "\<exists>trx. seek_and_verify_complete_trx 6 crc_zero small_reader [0, 0, 0, 0]
       (Some (crash_file crc_zero small_head [[GtidItem (small_gtid 9 107), XidItem (small_xid 138)]]
                [GtidItem (small_gtid 10 203)] (XidItem (small_xid 234)) 19)) (specify 9) = Finished (False, trx)"
  using torn_xid_fails [of small_reader small_head "[[GtidItem (small_gtid 9 107), XidItem (small_xid 138)]]"
      "[GtidItem (small_gtid 10 203)]" "small_xid 234" "[]" 19 6 crc_zero "[0, 0, 0, 0]" 9]
    small_written[of small_reader] small_xid_ok small_head_ok(5)
  by (auto simp del: item_hdr.simps)


section \<open>Termination of the scan\<close>

















end
