(* ===== verification/LineFile.thy ===== *)
theory LineFile
  imports StrUtil "HOL-Library.Word"
begin

text \<open>
  Text files of one record per line, as \<^verbatim>\<open>mysql-bin.index\<close> and the GTID mapping file are: the two ways the
  code reads lines (\<^verbatim>\<open>std::getline\<close> drops the line feed, POSIX \<^verbatim>\<open>getline\<close> keeps it), the backward search of
  \<^verbatim>\<open>FsUtil::seekg_last_line\<close>, and the contract of a record that is written as a line.
\<close>

definition LF :: char where
  "LF = CHR 0x0A"

abbreviation line_end :: "string \<Rightarrow> nat" where
  "line_end s \<equiv> length (takeWhile (\<lambda>c. c \<noteq> LF) s)"

fun std_lines :: "string \<Rightarrow> string list" where
  "std_lines s = (if s = [] then [] else take (line_end s) s # std_lines (drop (Suc (line_end s)) s))"

fun posix_lines :: "string \<Rightarrow> string list" where
  "posix_lines s = (if s = [] then [] else take (Suc (line_end s)) s # posix_lines (drop (Suc (line_end s)) s))"

declare std_lines.simps [simp del] posix_lines.simps [simp del]

text \<open>
  \<^verbatim>\<open>seekg_last_line\<close> starts at the end of the file: each turn goes back two bytes and reads one.  It stops
  behind a line feed or at the start of the file; on a file of one byte the seek fails, the read meets the end
  of the file, and the loop does not end (\<^verbatim>\<open>None\<close>).
\<close>

fun seek_back :: "string \<Rightarrow> nat \<Rightarrow> nat option" where
  "seek_back s 0 = Some 0"
| "seek_back s (Suc 0) = None"
| "seek_back s (Suc (Suc p)) =
     (if p = 0 then Some 0 else if s ! p = LF then Some (Suc p) else seek_back s (Suc p))"

definition seekg_last_line :: "string \<Rightarrow> nat option" where
  "seekg_last_line s = seek_back s (length s)"

text \<open>\<^verbatim>\<open>std::to_string\<close> of a signed integer.\<close>

definition to_string_int :: "int \<Rightarrow> string" where
  "to_string_int v = (if v < 0 then CHR ''-'' # to_string (nat (- v)) else to_string (nat v))"

lemma takeWhile_line: "LF \<notin> set l \<Longrightarrow> takeWhile (\<lambda>c. c \<noteq> LF) (l @ LF # rest) = l"
  by (induction l) auto

lemma std_lines_Cons: "LF \<notin> set l \<Longrightarrow> std_lines (l @ LF # rest) = l # std_lines rest"
  by (subst std_lines.simps) (simp add: takeWhile_line)

lemma posix_lines_Cons: "LF \<notin> set l \<Longrightarrow> posix_lines (l @ LF # rest) = (l @ [LF]) # posix_lines rest"
  by (subst posix_lines.simps) (simp add: takeWhile_line)

lemma seek_back_line:
  "LF \<notin> set l \<Longrightarrow> m \<le> length l \<Longrightarrow> 2 \<le> length pre \<Longrightarrow> last pre = LF \<Longrightarrow>
   seek_back (pre @ l @ rest) (Suc (length pre + m)) = Some (length pre)"
proof (induction m)
  case 0
  then obtain q where q: "length pre = Suc (Suc q)" by (metis One_nat_def Suc_le_D numeral_2_eq_2 Suc_le_mono)
  have "pre ! Suc q = LF" using 0(4) last_conv_nth[of pre] q by (cases "pre = []") auto
  then have "(pre @ l @ rest) ! Suc q = LF" using q by (simp add: nth_append)
  then show ?case using q by simp
next
  case (Suc m)
  have "(pre @ l @ rest) ! (length pre + m) = l ! m" using Suc.prems(2) by (simp add: nth_append)
  moreover have "l ! m \<noteq> LF" using Suc.prems(1,2) by (metis Suc_le_lessD nth_mem)
  ultimately show ?case using Suc by simp
qed

lemma seek_back_first: "LF \<notin> set l \<Longrightarrow> m \<le> length l \<Longrightarrow> 1 \<le> m \<Longrightarrow> seek_back (l @ rest) (Suc m) = Some 0"
proof (induction m)
  case (Suc m)
  show ?case
  proof (cases "m = 0")
    case False
    have "(l @ rest) ! m = l ! m" using Suc.prems(2) by (simp add: nth_append)
    moreover have "l ! m \<noteq> LF" using Suc.prems(1,2) by (metis Suc_le_lessD nth_mem)
    ultimately show ?thesis using Suc False by simp
  qed simp
qed simp

lemma scan_value_negative:
  "rest = [] \<or> \<not> isdigit (hd rest) \<Longrightarrow> scan_number (CHR ''-'' # to_string n @ rest) = (True, to_string n)"
proof -
  assume r: "rest = [] \<or> \<not> isdigit (hd rest)"
  have "takeWhile isdigit (to_string n @ rest) = to_string n @ takeWhile isdigit rest"
    using to_string_digits[of n] by (intro takeWhile_append2) (auto simp: list_all_iff)
  moreover have "takeWhile isdigit rest = []" using r by (cases rest) auto
  ultimately show ?thesis by (simp add: scan_number_def isspace_def)
qed

lemma stol_to_string_int:
  assumes "rest = [] \<or> \<not> isdigit (hd rest)" "- (2 ^ 63) \<le> v" "v < 2 ^ 63"
  shows "stol (to_string_int v @ rest) = Some v"
  using assms scan_value_negative[OF assms(1), of "nat (- v)"] scan_number_to_string[OF assms(1), of "nat v"]
  by (auto simp: stol_def to_string_int_def scan_value_def)

lemma to_string_int_chars: "c \<in> set (to_string_int v) \<Longrightarrow> isdigit c \<or> c = CHR ''-''"
  using to_string_digits by (auto simp: to_string_int_def list_all_iff split: if_splits)

text \<open>
  A record that is written as a line: \<^verbatim>\<open>ser\<close> is the line without its end, \<^verbatim>\<open>parse\<close> fills an object from a line
  and may throw.  The laws are those the two files rely on.
\<close>

locale line_record =
  fixes ser :: "'r \<Rightarrow> string"
    and parse :: "'r \<Rightarrow> string \<Rightarrow> 'r option"
    and ok :: "'r \<Rightarrow> bool"
  assumes ser_one_line: "ok r \<Longrightarrow> LF \<notin> set (ser r)"
    and ser_long: "ok r \<Longrightarrow> 2 \<le> length (ser r)"
    and parse_ser: "ok r \<Longrightarrow> parse r0 (ser r) = Some r"
    and parse_ser_LF: "ok r \<Longrightarrow> parse r0 (ser r @ [LF]) = Some r"
begin

definition file_of :: "'r list \<Rightarrow> string" where
  "file_of rs = concat (map (\<lambda>r. ser r @ [LF]) rs)"

lemma file_of_append [simp]: "file_of (rs @ qs) = file_of rs @ file_of qs"
  and file_of_Nil [simp]: "file_of [] = []"
  and file_of_Cons: "file_of (r # rs) = ser r @ LF # file_of rs"
  by (simp_all add: file_of_def)

lemma std_lines_file: "list_all ok rs \<Longrightarrow> std_lines (file_of rs) = map ser rs"
  by (induction rs) (simp_all add: std_lines_Cons ser_one_line file_of_Cons, simp add: std_lines.simps)

lemma posix_lines_file: "list_all ok rs \<Longrightarrow> posix_lines (file_of rs) = map (\<lambda>r. ser r @ [LF]) rs"
  by (induction rs) (simp_all add: posix_lines_Cons ser_one_line file_of_Cons, simp add: posix_lines.simps)

lemma file_of_last: "rs \<noteq> [] \<Longrightarrow> last (file_of rs) = LF \<and> file_of rs \<noteq> []"
  by (cases rs rule: rev_cases) (simp_all add: file_of_def)

lemma file_of_length: "list_all ok rs \<Longrightarrow> rs \<noteq> [] \<Longrightarrow> 2 \<le> length (file_of rs)"
  by (cases rs) (auto simp: file_of_Cons dest: ser_long)

text \<open>The search for the last line finds the last record.\<close>

lemma seek_last:
  assumes "list_all ok (rs @ [r])"
  shows "seekg_last_line (file_of (rs @ [r])) = Some (length (file_of rs))"
proof (cases "rs = []")
  case True
  then show ?thesis
    using assms seek_back_first[of "ser r" "length (ser r)" "[LF]"] ser_one_line[of r] ser_long[of r]
    by (simp add: seekg_last_line_def file_of_Cons)
next
  case False
  then show ?thesis
    using assms seek_back_line[of "ser r" "length (ser r)" "file_of rs" "[LF]"] ser_one_line[of r]
      file_of_last[OF False] file_of_length[of rs]
    by (simp add: seekg_last_line_def file_of_Cons)
qed

lemma last_line: "list_all ok (rs @ [r]) \<Longrightarrow> posix_lines (drop (length (file_of rs)) (file_of (rs @ [r]))) = [ser r @ [LF]]"
  using posix_lines_file[of "[r]"] by simp

lemma take_butlast: "take (length (file_of rs)) (file_of (rs @ [r])) = file_of rs"
  by simp

end

end
