(* ===== verification/BinlogIndex.thy ===== *)
theory BinlogIndex
  imports LineFile GtidSet
begin

text \<open>
  The binlog index of \<^verbatim>\<open>binlog/binlog_index.cpp\<close>: a text file with one record per binlog file, the copy of the
  latest record in memory, and the binlog files themselves.  An operation returns \<^verbatim>\<open>None\<close> when it does not
  return: \<^verbatim>\<open>std::stol\<close> throws, or the search for the last line never ends.  Otherwise \<^verbatim>\<open>True\<close> is \<^verbatim>\<open>OMS_OK\<close>.
  Writing, copying and renaming a file that exists succeed; a missing index file is the error case.  The
  object lock makes every operation one step.
\<close>

section \<open>Records\<close>

type_synonym mapping_pair = "string \<times> u64"

record BinlogIndexRecord =
  ir_file_name :: string
  ir_index :: u64
  ir_before_mapping :: mapping_pair
  ir_current_mapping :: mapping_pair
  ir_checkpoint :: u64
  ir_position :: u64

definition BinlogIndexRecord_init :: BinlogIndexRecord where
  "BinlogIndexRecord_init = \<lparr>ir_file_name = [], ir_index = 0, ir_before_mapping = ([], 0),
     ir_current_mapping = ([], 0), ir_checkpoint = 0, ir_position = 0\<rparr>"

definition TAB :: char where
  "TAB = CHR 0x09"

definition get_mapping_str :: "mapping_pair \<Rightarrow> string" where
  "get_mapping_str mapping = fst mapping @ ''='' @ to_string_int (sint (snd mapping))"

definition record_line :: "BinlogIndexRecord \<Rightarrow> string" where
  "record_line r = join [TAB] [ir_file_name r, to_string (unat (ir_index r)), get_mapping_str (ir_current_mapping r),
     get_mapping_str (ir_before_mapping r), to_string (unat (ir_checkpoint r)), to_string (unat (ir_position r))]"

definition BinlogIndexRecord_to_string :: "BinlogIndexRecord \<Rightarrow> string" where
  "BinlogIndexRecord_to_string r = record_line r @ [LF]"

definition parse_mapping_str :: "string \<Rightarrow> mapping_pair option" where
  "parse_mapping_str mapping_str =
     (if mapping_str = [] then Some ([], 0)
      else let name = takeWhile (\<lambda>c. c \<noteq> CHR ''='') mapping_str;
               number = (if CHR ''='' \<in> set mapping_str then drop (Suc (length name)) mapping_str else mapping_str)
           in map_option (\<lambda>v. (name, word_of_int v)) (stol number))"

definition BinlogIndexRecord_parse :: "BinlogIndexRecord \<Rightarrow> string \<Rightarrow> BinlogIndexRecord option" where
  "BinlogIndexRecord_parse r content =
     (let set = split content TAB in
      if length set = 6 then do {
        index \<leftarrow> stol (set ! 1);
        current \<leftarrow> parse_mapping_str (set ! 2);
        before \<leftarrow> parse_mapping_str (set ! 3);
        checkpoint \<leftarrow> stol (set ! 4);
        position \<leftarrow> stol (set ! 5);
        Some \<lparr>ir_file_name = set ! 0, ir_index = word_of_int index, ir_before_mapping = before,
              ir_current_mapping = current, ir_checkpoint = word_of_int checkpoint,
              ir_position = word_of_int position\<rparr> }
      else Some r)"

text \<open>\<^verbatim>\<open>strcmp\<close> of two strings: they are compared up to a zero character.\<close>

definition c_str :: "string \<Rightarrow> string" where
  "c_str s = takeWhile (\<lambda>c. c \<noteq> NUL) s"

definition equal_to :: "BinlogIndexRecord \<Rightarrow> BinlogIndexRecord \<Rightarrow> bool" where
  "equal_to r index_record \<longleftrightarrow>
     c_str (ir_file_name r) = c_str (ir_file_name index_record) \<and> ir_index r = ir_index index_record"

section \<open>File names\<close>

definition fill_binlog_file_name :: "string \<Rightarrow> nat \<Rightarrow> u64 \<Rightarrow> string" where
  "fill_binlog_file_name prefix width index =
     (let digits = to_string (unat index)
      in prefix @ ''.'' @ replicate (width - length digits) CHR ''0'' @ digits)"

definition get_binlog_index :: "nat \<Rightarrow> string \<Rightarrow> u64 option" where
  "get_binlog_index width binlog_file =
     (if width \<le> length binlog_file
      then Some (word_of_int (atoll (drop (length binlog_file - width) binlog_file))) else None)"

section \<open>The manager\<close>

record BinlogIndexManager =
  im_index_file :: "string option"
  im_memory_index_record :: BinlogIndexRecord
  im_binlog_files :: "string \<rightharpoonup> byte list"

fun fetch_records :: "string list \<Rightarrow> BinlogIndexRecord list option" where
  "fetch_records [] = Some []"
| "fetch_records (line # ls) = do {
     r \<leftarrow> BinlogIndexRecord_parse BinlogIndexRecord_init line;
     rs \<leftarrow> fetch_records ls;
     Some (if ir_index r > 0 then r # rs else rs) }"

definition fetch_index_vector :: "BinlogIndexManager \<Rightarrow> (bool \<times> BinlogIndexRecord list) option" where
  "fetch_index_vector im = (case im_index_file im of
     None \<Rightarrow> Some (False, [])
   | Some content \<Rightarrow> map_option (Pair True) (fetch_records (posix_lines content)))"

fun find_index :: "string \<Rightarrow> nat \<Rightarrow> string \<Rightarrow> string list \<Rightarrow> BinlogIndexRecord option option" where
  "find_index prefix width binlog_file [] = Some None"
| "find_index prefix width binlog_file (line # ls) = do {
     r \<leftarrow> BinlogIndexRecord_parse BinlogIndexRecord_init line;
     if ir_index r > 0 \<and> c_str binlog_file = c_str (fill_binlog_file_name prefix width (ir_index r))
     then Some (Some r) else find_index prefix width binlog_file ls }"

definition get_index ::
  "string \<Rightarrow> nat \<Rightarrow> string \<Rightarrow> BinlogIndexManager \<Rightarrow> BinlogIndexRecord \<Rightarrow> (bool \<times> BinlogIndexRecord) option" where
  "get_index prefix width binlog_file im r = (case im_index_file im of
     None \<Rightarrow> Some (False, r)
   | Some content \<Rightarrow> do {
       found \<leftarrow> find_index prefix width binlog_file (std_lines content);
       Some (case found of None \<Rightarrow> (False, r) | Some r' \<Rightarrow> (True, r')) })"

definition get_first_index :: "BinlogIndexManager \<Rightarrow> BinlogIndexRecord \<Rightarrow> (bool \<times> BinlogIndexRecord) option" where
  "get_first_index im r = (case im_index_file im of
     None \<Rightarrow> Some (False, r)
   | Some content \<Rightarrow>
       map_option (Pair True) (BinlogIndexRecord_parse r (case std_lines content of [] \<Rightarrow> [] | line # _ \<Rightarrow> line)))"

text \<open>At the end of the file \<^verbatim>\<open>getline\<close> allocates a buffer and leaves it as it is: \<^verbatim>\<open>fresh\<close> is the string there.\<close>

definition get_latest_index ::
  "string \<Rightarrow> BinlogIndexManager \<Rightarrow> BinlogIndexRecord \<Rightarrow> (bool \<times> BinlogIndexRecord) option" where
  "get_latest_index fresh im r = (case im_index_file im of
     None \<Rightarrow> Some (False, r)
   | Some content \<Rightarrow> do {
       pos \<leftarrow> seekg_last_line content;
       r' \<leftarrow> BinlogIndexRecord_parse r (case posix_lines (drop pos content) of [] \<Rightarrow> fresh | line # _ \<Rightarrow> line);
       Some (True, r') })"

definition add_index :: "BinlogIndexRecord \<Rightarrow> BinlogIndexManager \<Rightarrow> bool \<times> BinlogIndexManager" where
  "add_index r im =
     (True, im\<lparr>im_index_file := Some ((case im_index_file im of None \<Rightarrow> [] | Some content \<Rightarrow> content) @
                                      BinlogIndexRecord_to_string r)\<rparr>)"

definition is_active :: "string \<Rightarrow> BinlogIndexManager \<Rightarrow> bool" where
  "is_active file_name im \<longleftrightarrow> ir_file_name (im_memory_index_record im) = [] \<or>
     ir_file_name (im_memory_index_record im) = file_name"

definition get_memory_index :: "string \<Rightarrow> BinlogIndexManager \<Rightarrow> (BinlogIndexRecord \<times> BinlogIndexManager) option" where
  "get_memory_index fresh im =
     (if ir_file_name (im_memory_index_record im) = [] then do {
        (_, r) \<leftarrow> get_latest_index fresh im (im_memory_index_record im);
        Some (r, im\<lparr>im_memory_index_record := r\<rparr>) }
      else Some (im_memory_index_record im, im))"

definition is_behind_current_pos :: "nat \<Rightarrow> string \<Rightarrow> u64 \<Rightarrow> BinlogIndexManager \<Rightarrow> bool option" where
  "is_behind_current_pos width file_name pos im = do {
     file_index \<leftarrow> get_binlog_index width file_name;
     Some (ir_index (im_memory_index_record im) > file_index \<or>
           ir_index (im_memory_index_record im) = file_index \<and> ir_position (im_memory_index_record im) > pos) }"

definition update_index :: "BinlogIndexRecord \<Rightarrow> BinlogIndexManager \<Rightarrow> (bool \<times> BinlogIndexManager) option" where
  "update_index r im = (case im_index_file im of
     None \<Rightarrow> Some (False, im)
   | Some content \<Rightarrow> do {
       pos \<leftarrow> seekg_last_line content;
       Some (True, im\<lparr>im_index_file := Some (take pos content @ BinlogIndexRecord_to_string r),
                      im_memory_index_record := r\<rparr>) })"

definition rewrite_index_file :: "BinlogIndexRecord list \<Rightarrow> BinlogIndexManager \<Rightarrow> BinlogIndexManager" where
  "rewrite_index_file rs im = im\<lparr>im_index_file := Some (concat (map BinlogIndexRecord_to_string rs))\<rparr>"

fun parse_all :: "string list \<Rightarrow> BinlogIndexRecord list option" where
  "parse_all [] = Some []"
| "parse_all (line # ls) = do {
     r \<leftarrow> BinlogIndexRecord_parse BinlogIndexRecord_init line;
     rs \<leftarrow> parse_all ls;
     Some (r # rs) }"

definition remove_binlog :: "BinlogIndexRecord \<Rightarrow> BinlogIndexManager \<Rightarrow> (bool \<times> BinlogIndexManager) option" where
  "remove_binlog index_record im = (case im_index_file im of
     None \<Rightarrow> Some (False, im)
   | Some content \<Rightarrow> do {
       rs \<leftarrow> parse_all (std_lines content);
       if list_ex (\<lambda>r. equal_to r index_record) rs then
         let im' = rewrite_index_file (filter (\<lambda>r. \<not> equal_to r index_record) rs) im
         in Some (True, im'\<lparr>im_binlog_files := (im_binlog_files im')(ir_file_name index_record := None)\<rparr>)
       else Some (True, im) })"

section \<open>Purging\<close>

text \<open>The two loops return the records that stay, the names that are purged, and the number of the last
  transaction purged; \<^verbatim>\<open>active\<close> is \<^verbatim>\<open>is_active\<close>.\<close>

fun purge_before_loop ::
  "(string \<Rightarrow> bool) \<Rightarrow> u64 \<Rightarrow> BinlogIndexRecord list \<Rightarrow> u64 \<Rightarrow> BinlogIndexRecord list \<times> string list \<times> u64" where
  "purge_before_loop active purge_ts [] seq = ([], [], seq)"
| "purge_before_loop active purge_ts (r # rs) seq =
     (if ir_checkpoint r < purge_ts \<and> \<not> active (ir_file_name r)
      then let (kept, purged, seq') = purge_before_loop active purge_ts rs (snd (ir_current_mapping r))
           in (kept, ir_file_name r # purged, seq')
      else let (kept, purged, seq') = purge_before_loop active purge_ts rs seq in (r # kept, purged, seq'))"

definition purge_binlog_before_ts ::
  "(string \<Rightarrow> u64) \<Rightarrow> (string \<Rightarrow> bool) \<Rightarrow> string \<Rightarrow> BinlogIndexRecord list \<Rightarrow>
   bool \<times> BinlogIndexRecord list \<times> string list \<times> u64" where
  "purge_binlog_before_ts convert_ts active before_purge_ts rs =
     (if before_purge_ts = [] then (False, rs, [], 0)
      else (True, purge_before_loop active (convert_ts before_purge_ts) rs 0))"

text \<open>The records come last first; so do those that stay.\<close>

fun purge_to_loop ::
  "(string \<Rightarrow> bool) \<Rightarrow> string \<Rightarrow> bool \<Rightarrow> BinlogIndexRecord list \<Rightarrow> u64 \<Rightarrow>
   bool \<times> BinlogIndexRecord list \<times> string list \<times> u64" where
  "purge_to_loop active to_binlog_index found [] seq = (found, [], [], seq)"
| "purge_to_loop active to_binlog_index found (r # rs) seq =
     (let found = (found \<or> c_str (ir_file_name r) = c_str to_binlog_index) in
      if found \<and> \<not> active (ir_file_name r)
      then let (f, kept, purged, seq') = purge_to_loop active to_binlog_index found rs
                  (if seq = 0 then snd (ir_current_mapping r) else seq)
           in (f, kept, ir_file_name r # purged, seq')
      else let (f, kept, purged, seq') = purge_to_loop active to_binlog_index found rs seq in (f, r # kept, purged, seq'))"

definition purge_binlog_to_file ::
  "(string \<Rightarrow> bool) \<Rightarrow> string \<Rightarrow> BinlogIndexRecord list \<Rightarrow> bool \<times> BinlogIndexRecord list \<times> string list \<times> u64" where
  "purge_binlog_to_file active to_binlog_index rs =
     (let (found, kept, purged, seq) = purge_to_loop active to_binlog_index False (rev rs) 0
      in (found, rev kept, purged, seq))"

text \<open>
  The part of \<^verbatim>\<open>purge_binlog_index\<close> that concerns the index: the last component of the result is the number the
  GTID manager is told to purge before, unless it is zero.
\<close>

definition purge_index_records ::
  "(string \<Rightarrow> u64) \<Rightarrow> string \<Rightarrow> string \<Rightarrow> string \<Rightarrow> BinlogIndexManager \<Rightarrow>
   (bool \<times> string list \<times> BinlogIndexManager \<times> u64) option" where
  "purge_index_records convert_ts base_name binlog_file before_purge_ts im = do {
     (opened, rs) \<leftarrow> fetch_index_vector im;
     if \<not> opened then Some (False, [], im, 0)
     else let active = (\<lambda>name. is_active name im);
              (ok, kept, purged, seq) =
                (if binlog_file = [] then purge_binlog_before_ts convert_ts active before_purge_ts rs
                 else purge_binlog_to_file active (base_name @ binlog_file) rs)
          in Some (ok, purged, if ok \<and> purged \<noteq> [] \<and> kept \<noteq> [] then rewrite_index_file kept im else im, seq) }"


section \<open>Records are lines\<close>

definition name_ok :: "string \<Rightarrow> bool" where
  "name_ok s \<longleftrightarrow> TAB \<notin> set s \<and> LF \<notin> set s \<and> NUL \<notin> set s"

definition record_ok :: "BinlogIndexRecord \<Rightarrow> bool" where
  "record_ok r \<longleftrightarrow> name_ok (ir_file_name r) \<and>
     name_ok (fst (ir_before_mapping r)) \<and> CHR ''='' \<notin> set (fst (ir_before_mapping r)) \<and>
     name_ok (fst (ir_current_mapping r)) \<and> CHR ''='' \<notin> set (fst (ir_current_mapping r)) \<and>
     unat (ir_index r) < 2 ^ 63 \<and> unat (ir_checkpoint r) < 2 ^ 63 \<and> unat (ir_position r) < 2 ^ 63"

lemma parse_mapping:
  assumes "CHR ''='' \<notin> set (fst m)"
  shows "parse_mapping_str (get_mapping_str m) = Some m"
proof -
  have tw: "takeWhile (\<lambda>c. c \<noteq> CHR ''='') (fst m @ CHR ''='' # t) = fst m" for t
    using assms by (simp add: takeWhile_tail) (metis takeWhile_eq_all_conv)
  have "stol (to_string_int (sint (snd m))) = Some (sint (snd m))"
    using stol_to_string_int[of "[]" "sint (snd m)"] sint_range_size[of "snd m"] by (simp add: word_size)
  then show ?thesis by (simp add: parse_mapping_str_def get_mapping_str_def tw Let_def)
qed

lemma stol_number: "n < 2 ^ 63 \<Longrightarrow> rest = [] \<or> rest = [LF] \<Longrightarrow> stol (to_string n @ rest) = Some (int n)"
  using scan_value_to_string[of rest n] scan_number_to_string[of rest n]
  by (auto simp: stol_def isdigit_def LF_def)

lemma mapping_chars: "name_ok (fst m) \<Longrightarrow> name_ok (get_mapping_str m)"
  using to_string_int_chars[of TAB "sint (snd m)"] to_string_int_chars[of LF "sint (snd m)"]
    to_string_int_chars[of NUL "sint (snd m)"]
  by (auto simp: name_ok_def get_mapping_str_def TAB_def LF_def NUL_def isdigit_def)

lemma number_chars: "name_ok (to_string n)"
  using to_string_no_char[of TAB n] to_string_no_char[of LF n] to_string_no_char[of NUL n]
  by (simp add: name_ok_def TAB_def LF_def NUL_def isdigit_def)

lemma record_fields:
  assumes "record_ok r"
  shows "list_all name_ok [ir_file_name r, to_string (unat (ir_index r)), get_mapping_str (ir_current_mapping r),
    get_mapping_str (ir_before_mapping r), to_string (unat (ir_checkpoint r)), to_string (unat (ir_position r))]"
  using assms by (simp add: record_ok_def mapping_chars number_chars)

lemma split_record:
  assumes "record_ok r" "rest = [] \<or> rest = [LF]"
  shows "split (record_line r @ rest) TAB =
    [ir_file_name r, to_string (unat (ir_index r)), get_mapping_str (ir_current_mapping r),
     get_mapping_str (ir_before_mapping r), to_string (unat (ir_checkpoint r)), to_string (unat (ir_position r)) @ rest]"
proof -
  let ?fs = "[ir_file_name r, to_string (unat (ir_index r)), get_mapping_str (ir_current_mapping r),
     get_mapping_str (ir_before_mapping r), to_string (unat (ir_checkpoint r)), to_string (unat (ir_position r)) @ rest]"
  have "record_line r @ rest = join [TAB] ?fs" by (simp add: record_line_def)
  moreover have "list_all (piece TAB) ?fs"
    using record_fields[OF assms(1)] assms(2)
    by (auto simp: name_ok_def piece_def TAB_def LF_def NUL_def)
  ultimately show ?thesis using split_join[of TAB ?fs] by (simp add: TAB_def NUL_def)
qed

lemma parse_record:
  assumes "record_ok r" "rest = [] \<or> rest = [LF]"
  shows "BinlogIndexRecord_parse r0 (record_line r @ rest) = Some r"
  using assms(1) stol_number[OF _ assms(2), of "unat (ir_position r)"] stol_number[of _ "[]"]
  by (simp add: BinlogIndexRecord_parse_def split_record[OF assms] record_ok_def parse_mapping Let_def)

interpretation ir: line_record record_line BinlogIndexRecord_parse record_ok
proof (unfold_locales, goal_cases)
  case (1 r)
  then show ?case using record_fields[OF 1] by (auto simp: record_line_def name_ok_def TAB_def LF_def)
next
  case (2 r)
  show ?case by (simp add: record_line_def)
next
  case (3 r r0)
  then show ?case using parse_record[of r "[]" r0] by simp
next
  case (4 r r0)
  then show ?case by (simp add: parse_record)
qed

definition represents :: "BinlogIndexManager \<Rightarrow> BinlogIndexRecord list \<Rightarrow> bool" where
  "represents im rs \<longleftrightarrow>
     im_index_file im = Some (concat (map BinlogIndexRecord_to_string rs)) \<and> list_all record_ok rs"

lemma file_of_eq: "ir.file_of rs = concat (map BinlogIndexRecord_to_string rs)"
  by (simp add: ir.file_of_def BinlogIndexRecord_to_string_def[abs_def])

lemma parse_all_records: "list_all record_ok rs \<Longrightarrow> parse_all (map record_line rs) = Some rs"
  by (induction rs) (simp_all add: ir.parse_ser)

lemma fetch_all_records:
  "list_all record_ok rs \<Longrightarrow> fetch_records (map (\<lambda>r. record_line r @ [LF]) rs) = Some (filter (\<lambda>r. ir_index r > 0) rs)"
  by (induction rs) (simp_all add: ir.parse_ser_LF)

lemma fetch_represented:
  "represents im rs \<Longrightarrow> fetch_index_vector im = Some (True, filter (\<lambda>r. ir_index r > 0) rs)"
  using ir.posix_lines_file[of rs] fetch_all_records[of rs]
  by (simp add: represents_def fetch_index_vector_def file_of_eq)

lemma latest_represented: "represents im (rs @ [r]) \<Longrightarrow> get_latest_index fresh im r0 = Some (True, r)"
  using ir.seek_last[of rs r] ir.last_line[of rs r] ir.parse_ser_LF[of r]
  by (simp add: represents_def get_latest_index_def file_of_eq)

lemma update_represented:
  "represents im (rs @ [r']) \<Longrightarrow> record_ok r \<Longrightarrow>
   \<exists>im'. update_index r im = Some (True, im') \<and> represents im' (rs @ [r]) \<and> im_memory_index_record im' = r \<and>
     im_binlog_files im' = im_binlog_files im"
  using ir.seek_last[of rs r'] ir.take_butlast[of rs r']
  by (auto simp: represents_def update_index_def file_of_eq)

lemma remove_represented:
  assumes "represents im rs"
  shows "\<exists>im'. remove_binlog r im = Some (True, im') \<and> represents im' (filter (\<lambda>q. \<not> equal_to q r) rs) \<and>
    im_memory_index_record im' = im_memory_index_record im"
proof -
  have "std_lines (concat (map BinlogIndexRecord_to_string rs)) = map record_line rs"
    using ir.std_lines_file[of rs] assms by (simp add: represents_def file_of_eq)
  then have p: "parse_all (std_lines (concat (map BinlogIndexRecord_to_string rs))) = Some rs"
    using assms by (simp add: represents_def parse_all_records)
  have f: "\<not> list_ex (\<lambda>q. equal_to q r) rs \<Longrightarrow> filter (\<lambda>q. \<not> equal_to q r) rs = rs"
    by (simp add: list_ex_iff)
  show ?thesis using assms p f
    by (auto simp: remove_binlog_def represents_def rewrite_index_file_def Let_def list_all_iff)
qed

section \<open>Properties\<close>

text \<open>C8. The index file implements a list of records.  Reading the first, the last or all records,
  appending one, replacing the last one, and removing a binlog file do on the text of the file what they
  should do on the list, and the copy in memory follows every update.\<close>

theorem index_file_refines:
  assumes "represents im rs" "record_ok r"
  shows "represents (snd (add_index r im)) (rs @ [r]) \<and>
         fetch_index_vector im = Some (True, filter (\<lambda>r. ir_index r > 0) rs) \<and>
         (rs \<noteq> [] \<longrightarrow> get_latest_index fresh im r0 = Some (True, last rs) \<and> get_first_index im r0 = Some (True, hd rs) \<and>
            (\<exists>im'. update_index r im = Some (True, im') \<and> represents im' (butlast rs @ [r]) \<and>
                   im_memory_index_record im' = r)) \<and>
         (\<exists>im'. remove_binlog r im = Some (True, im') \<and> represents im' (filter (\<lambda>q. \<not> equal_to q r) rs))"
proof -
  have "get_first_index im r0 = Some (True, hd rs)" if "rs \<noteq> []"
    using that assms(1) ir.std_lines_file[of rs] ir.parse_ser[of "hd rs" r0]
    by (cases rs) (simp_all add: represents_def get_first_index_def file_of_eq)
  moreover have "represents (snd (add_index r im)) (rs @ [r])"
    using assms by (simp add: represents_def add_index_def)
  moreover have "get_latest_index fresh im r0 = Some (True, last rs) \<and>
      (\<exists>im'. update_index r im = Some (True, im') \<and> represents im' (butlast rs @ [r]) \<and> im_memory_index_record im' = r)"
    if "rs \<noteq> []"
    using that assms latest_represented[of im "butlast rs" "last rs"] update_represented[of im "butlast rs" "last rs" r]
    by auto
  ultimately show ?thesis using fetch_represented[OF assms(1)] remove_represented[OF assms(1)] by blast
qed

definition first_record :: BinlogIndexRecord where
  "first_record = BinlogIndexRecord_init\<lparr>ir_file_name := ''b1'', ir_index := 1, ir_current_mapping := (''x'', 7)\<rparr>"

definition two_records :: BinlogIndexManager where
  "two_records = \<lparr>im_index_file = Some (concat (map BinlogIndexRecord_to_string
       [first_record, first_record\<lparr>ir_file_name := ''b2'', ir_index := 2\<rparr>])),
     im_memory_index_record = first_record\<lparr>ir_file_name := ''b2'', ir_index := 2\<rparr>, im_binlog_files = Map.empty\<rparr>"

lemma first_record_ok:
  "record_ok first_record" "record_ok (first_record\<lparr>ir_file_name := ''b2'', ir_index := 2\<rparr>)"
  "record_ok (first_record\<lparr>ir_file_name := ''b2'', ir_index := 2, ir_position := 200\<rparr>)"
  by (simp_all add: record_ok_def first_record_def BinlogIndexRecord_init_def name_ok_def TAB_def LF_def NUL_def)

lemma two_records_represented: "represents two_records [first_record, first_record\<lparr>ir_file_name := ''b2'', ir_index := 2\<rparr>]"
  using first_record_ok by (simp add: represents_def two_records_def)

theorem index_file_refines_witness:
  "get_latest_index [] two_records BinlogIndexRecord_init =
     Some (True, first_record\<lparr>ir_file_name := ''b2'', ir_index := 2\<rparr>) \<and>
   (\<exists>im'. update_index (first_record\<lparr>ir_file_name := ''b2'', ir_index := 2, ir_position := 200\<rparr>) two_records = Some (True, im') \<and>
     represents im' [first_record, first_record\<lparr>ir_file_name := ''b2'', ir_index := 2, ir_position := 200\<rparr>])"
  using index_file_refines [OF two_records_represented first_record_ok(3), of "[]" BinlogIndexRecord_init]
  by auto


abbreviation up_to :: "string \<Rightarrow> BinlogIndexRecord list \<Rightarrow> BinlogIndexRecord list" where
  "up_to file_name rs \<equiv> rev (dropWhile (\<lambda>r. ir_file_name r \<noteq> file_name) (rev rs))"

abbreviation after :: "string \<Rightarrow> BinlogIndexRecord list \<Rightarrow> BinlogIndexRecord list" where
  "after file_name rs \<equiv> rev (takeWhile (\<lambda>r. ir_file_name r \<noteq> file_name) (rev rs))"

lemma purge_to_found:
  "fst (purge_to_loop active f True rs seq) = True \<and>
   fst (snd (purge_to_loop active f True rs seq)) = filter (\<lambda>r. active (ir_file_name r)) rs \<and>
   fst (snd (snd (purge_to_loop active f True rs seq))) = map ir_file_name (filter (\<lambda>r. \<not> active (ir_file_name r)) rs)"
  by (induction rs arbitrary: seq) (auto simp: Let_def case_prod_beta)

lemma purge_to_loop_eq:
  assumes "\<forall>r\<in>set rs. c_str (ir_file_name r) = ir_file_name r" "c_str f = f"
  shows "fst (purge_to_loop active f False rs seq) = (f \<in> ir_file_name ` set rs) \<and>
    fst (snd (purge_to_loop active f False rs seq)) =
      takeWhile (\<lambda>r. ir_file_name r \<noteq> f) rs @ filter (\<lambda>r. active (ir_file_name r)) (dropWhile (\<lambda>r. ir_file_name r \<noteq> f) rs) \<and>
    fst (snd (snd (purge_to_loop active f False rs seq))) =
      map ir_file_name (filter (\<lambda>r. \<not> active (ir_file_name r)) (dropWhile (\<lambda>r. ir_file_name r \<noteq> f) rs))"
  using assms
proof (induction rs arbitrary: seq)
  case (Cons r rs)
  have "fst (purge_to_loop active f False rs seq) = (f \<in> ir_file_name ` set rs) \<and>
    fst (snd (purge_to_loop active f False rs seq)) =
      takeWhile (\<lambda>r. ir_file_name r \<noteq> f) rs @ filter (\<lambda>r. active (ir_file_name r)) (dropWhile (\<lambda>r. ir_file_name r \<noteq> f) rs) \<and>
    fst (snd (snd (purge_to_loop active f False rs seq))) =
      map ir_file_name (filter (\<lambda>r. \<not> active (ir_file_name r)) (dropWhile (\<lambda>r. ir_file_name r \<noteq> f) rs))"
    using Cons by simp
  then show ?case
    using Cons.prems purge_to_found[of active f rs]
    by (cases "ir_file_name r = f"; cases "active (ir_file_name r)") (auto simp: Let_def case_prod_beta)
qed simp

lemma c_str_name: "name_ok s \<Longrightarrow> c_str s = s"
  by (auto simp: c_str_def name_ok_def)

lemma purge_to_file_eq:
  assumes "list_all record_ok rs" "NUL \<notin> set f"
  shows "\<exists>seq. purge_binlog_to_file active f rs =
    (f \<in> ir_file_name ` set rs,
     filter (\<lambda>r. active (ir_file_name r)) (up_to f rs) @ after f rs,
     map ir_file_name (rev (filter (\<lambda>r. \<not> active (ir_file_name r)) (up_to f rs))), seq)"
proof -
  have "\<forall>r\<in>set (rev rs). c_str (ir_file_name r) = ir_file_name r"
    using assms(1) by (auto simp: list_all_iff record_ok_def c_str_name)
  moreover have "c_str f = f" using assms(2) by (auto simp: c_str_def)
  ultimately show ?thesis
    using purge_to_loop_eq[of "rev rs" f active 0]
    by (auto simp: purge_binlog_to_file_def rev_filter Let_def split: prod.splits)
qed

lemma up_to_after: "up_to f rs @ after f rs = rs"
  by (simp flip: rev_append)

text \<open>C22. Purging up to a binlog file removes exactly the records up to that file and reports their names,
  latest first; it leaves the records behind it in their order, and a file that is still being written is
  never removed, whatever name is given.  It fails, and changes nothing, exactly when no record has that
  name.\<close>

theorem purge_to_file_exact:
  assumes "represents im rs" "\<forall>r\<in>set rs. ir_index r > 0" "binlog_file \<noteq> []" "NUL \<notin> set (base_name @ binlog_file)"
    and "a \<in> set rs" "ir_file_name a = ir_file_name (im_memory_index_record im)"
  shows "\<exists>im' seq kept. purge_index_records convert_ts base_name binlog_file ts im =
             Some (base_name @ binlog_file \<in> ir_file_name ` set rs,
                   map ir_file_name (rev (filter (\<lambda>r. \<not> is_active (ir_file_name r) im) (up_to (base_name @ binlog_file) rs))),
                   im', seq) \<and>
           kept = filter (\<lambda>r. is_active (ir_file_name r) im) (up_to (base_name @ binlog_file) rs) @ after (base_name @ binlog_file) rs \<and>
           represents im' kept \<and> a \<in> set kept"
proof -
  let ?f = "base_name @ binlog_file" and ?active = "\<lambda>name. is_active name im"
  let ?kept = "filter (\<lambda>r. ?active (ir_file_name r)) (up_to ?f rs) @ after ?f rs"
  have ok: "list_all record_ok rs" using assms(1) by (simp add: represents_def)
  obtain seq where p: "purge_binlog_to_file ?active ?f rs = (?f \<in> ir_file_name ` set rs, ?kept,
      map ir_file_name (rev (filter (\<lambda>r. \<not> ?active (ir_file_name r)) (up_to ?f rs))), seq)"
    using purge_to_file_eq[OF ok assms(4)] by blast
  have fetch: "fetch_index_vector im = Some (True, rs)"
    using fetch_represented[OF assms(1)] assms(2) by (simp add: filter_True)
  have split: "set rs = set (up_to ?f rs) \<union> set (after ?f rs)"
    using arg_cong[OF up_to_after[of ?f rs], of set] by (simp only: set_append)
  have a: "a \<in> set ?kept" using assms(5,6) split by (auto simp: is_active_def)
  have none: "?kept = rs" if "?f \<notin> ir_file_name ` set rs"
  proof -
    have d: "up_to ?f rs = []" using that by (auto simp: dropWhile_eq_Nil_conv image_iff)
    show ?thesis using up_to_after[of ?f rs] unfolding d by simp
  qed
  have all: "?kept = rs" if "filter (\<lambda>r. \<not> ?active (ir_file_name r)) (up_to ?f rs) = []"
    using that up_to_after[of ?f rs] by (simp add: filter_empty_conv filter_True)
  let ?purged = "map ir_file_name (rev (filter (\<lambda>r. \<not> ?active (ir_file_name r)) (up_to ?f rs)))"
  let ?im' = "if ?f \<in> ir_file_name ` set rs \<and> ?purged \<noteq> [] \<and> ?kept \<noteq> [] then rewrite_index_file ?kept im else im"
  have run: "purge_index_records convert_ts base_name binlog_file ts im = Some (?f \<in> ir_file_name ` set rs, ?purged, ?im', seq)"
    unfolding purge_index_records_def fetch
    by (simp only: bind.bind_lunit prod.case Let_def p if_False not_True_eq_False assms(3) simp_thms)
  have "?kept \<noteq> []" using length_pos_if_in_set[OF a] by (rule length_greater_0_conv[THEN iffD1])
  moreover have "represents (rewrite_index_file ?kept im) ?kept"
    using ok split by (auto simp: represents_def rewrite_index_file_def list_all_iff)
  moreover have "represents im ?kept" if "?f \<notin> ir_file_name ` set rs \<or> ?purged = []"
    using that none all assms(1) by (metis map_is_Nil_conv rev_is_Nil_conv)
  ultimately have "represents ?im' ?kept" by presburger
  then show ?thesis using run a by blast
qed

theorem purge_to_file_exact_witness:
  "\<exists>im' seq. purge_index_records (\<lambda>_. 0) ''b'' ''2'' [] two_records = Some (True, [''b1''], im', seq) \<and>
     represents im' [first_record\<lparr>ir_file_name := ''b2'', ir_index := 2\<rparr>]"
  using purge_to_file_exact [OF two_records_represented, of "''2''" "''b''" "first_record\<lparr>ir_file_name := ''b2'', ir_index := 2\<rparr>"
      "\<lambda>_. 0" "[]"]
  by (auto simp: is_active_def two_records_def first_record_def BinlogIndexRecord_init_def NUL_def)

end
