(* ===== verification/GtidManager.thy ===== *)
theory GtidManager
  imports BinlogIndex
begin

text \<open>
  The GTID manager of \<^verbatim>\<open>binlog/gtid_manager.cpp\<close>: the file that maps commit times and OceanBase transactions to
  GTIDs, the part of it cached in memory, the sets \<^verbatim>\<open>gtid_purged\<close> and \<^verbatim>\<open>gtid_executed\<close>, and the searches the
  manager process makes in the text a tenant reports.  The configuration is a record of its own; \<^verbatim>\<open>junk\<close> and \<^verbatim>\<open>mem\<close>
  are as in \<^verbatim>\<open>GtidMessage::set_gtid_uuid\<close>.  \<^verbatim>\<open>None\<close> is a null pointer that is followed, a division by
  zero, or an index outside a vector.  The global variables the manager sets are part of its state.
\<close>

section \<open>\<^verbatim>\<open>GtidSeq\<close>\<close>

record GtidSeq =
  sq_commit_version_start :: u64
  sq_xid_start :: string
  sq_gtid_start :: u64
  sq_trxs_num :: u64

definition GtidSeq_init :: GtidSeq where
  "GtidSeq_init = \<lparr>sq_commit_version_start = 0, sq_xid_start = [], sq_gtid_start = 0, sq_trxs_num = 0\<rparr>"

definition GtidSeq_serialize :: "GtidSeq \<Rightarrow> string" where
  "GtidSeq_serialize q = join ''#'' [to_string (unat (sq_commit_version_start q)), sq_xid_start q,
     to_string (unat (sq_gtid_start q)), to_string (unat (sq_trxs_num q))]"

definition GtidSeq_deserialize :: "GtidSeq \<Rightarrow> string \<Rightarrow> GtidSeq" where
  "GtidSeq_deserialize q line =
     (let set = split line CHR ''#'' in
      if length set = 4
      then \<lparr>sq_commit_version_start = word_of_int (atoll (set ! 0)), sq_xid_start = set ! 1,
            sq_gtid_start = word_of_int (atoll (set ! 2)), sq_trxs_num = word_of_int (atoll (set ! 3))\<rparr>
      else q)"

section \<open>The manager\<close>

record gtid_config =
  cf_gtid_marking_step_size :: u32
  cf_gtid_seq_compressed_interval_s :: u16
  cf_gtid_seq_compressed_trx_size :: u32
  cf_gtid_memory_cache_seconds :: u32
  cf_max_incr_gtid_seqs_num :: u16
  cf_binlog_expire_logs_seconds :: u64
  cf_master_server_uuid :: string
  cf_initial_ob_txn_gtid_seq :: u64

record GtidManager =
  mg_nof_trx :: u64
  mg_curr_hb_checkpoint :: u64
  mg_curr_trx_checkpoint :: u64
  mg_last_saved_commit_version_high :: u64
  mg_gtid_seq_file :: "string option"
  mg_first_entry_after_restarted :: bool
  mg_gtid_checkpoint_set :: "GtidSeq list"
  mg_last_gtid_purged :: u64
  mg_last_checkpoint_purged :: u64
  mg_gtid_seq_set :: "(u64 \<times> string) list"
  mg_gtid_purged_set :: "GtidMessage list"
  mg_gtid_executed_set :: "GtidMessage list"
  mg_global_var :: "string \<rightharpoonup> string"

definition init_start_timestamp :: "u64 \<Rightarrow> GtidManager \<Rightarrow> GtidManager" where
  "init_start_timestamp start_timestamp mg = mg\<lparr>mg_last_saved_commit_version_high := start_timestamp\<rparr>"

definition mark_event ::
  "gtid_config \<Rightarrow> bool \<Rightarrow> u64 \<Rightarrow> mapping_pair \<Rightarrow> GtidManager \<Rightarrow> GtidManager option" where
  "mark_event cf is_heartbeat checkpoint trx_mapping mg =
     (if is_heartbeat then Some (mg\<lparr>mg_curr_hb_checkpoint := checkpoint div 1000000\<rparr>)
      else let mg = mg\<lparr>mg_nof_trx := mg_nof_trx mg + 1, mg_curr_trx_checkpoint := checkpoint div 1000000\<rparr> in
        if cf_gtid_marking_step_size cf = 0 then None
        else if snd trx_mapping mod ucast (cf_gtid_marking_step_size cf) = 0
        then Some (mg\<lparr>mg_gtid_checkpoint_set := mg_gtid_checkpoint_set mg @
                       [\<lparr>sq_commit_version_start = mg_curr_trx_checkpoint mg, sq_xid_start = fst trx_mapping,
                         sq_gtid_start = snd trx_mapping, sq_trxs_num = 0\<rparr>]\<rparr>)
        else Some mg)"

text \<open>The loop that drops cached entries from the front stops at the first one that is young enough; the
  difference of two unsigned numbers wraps around.\<close>

definition drop_old :: "u64 \<Rightarrow> u32 \<Rightarrow> (u64 \<times> string) list \<Rightarrow> (u64 \<times> string) list" where
  "drop_old curr_checkpoint seconds qs = dropWhile (\<lambda>q. \<not> curr_checkpoint - fst q < ucast seconds) qs"

definition save_gtid_seq :: "gtid_config \<Rightarrow> GtidSeq \<Rightarrow> GtidManager \<Rightarrow> GtidManager" where
  "save_gtid_seq cf q mg =
     (if mg_first_entry_after_restarted mg \<and> mg_gtid_seq_set mg \<noteq> [] \<and>
         sq_commit_version_start q \<le>
           sq_commit_version_start (GtidSeq_deserialize GtidSeq_init (snd (last (mg_gtid_seq_set mg))))
      then mg
      else let str = GtidSeq_serialize q; curr_checkpoint = sq_commit_version_start q
           in mg\<lparr>mg_gtid_seq_set := drop_old curr_checkpoint (cf_gtid_memory_cache_seconds cf) (mg_gtid_seq_set mg) @
                   [(curr_checkpoint, str)],
                 mg_gtid_seq_file := Some ((case mg_gtid_seq_file mg of None \<Rightarrow> [] | Some content \<Rightarrow> content) @ str @ [LF]),
                 mg_first_entry_after_restarted := False\<rparr>)"

text \<open>\<^verbatim>\<open>rewrite_gtid_file\<close> keeps the lines whose mapping passes the test.\<close>

definition passing_lines :: "(GtidSeq \<Rightarrow> bool) \<Rightarrow> string \<Rightarrow> string list" where
  "passing_lines compare_func content =
     filter (\<lambda>line. compare_func (GtidSeq_deserialize GtidSeq_init line)) (std_lines content)"

definition first_checkpoint_of :: "string list \<Rightarrow> u64" where
  "first_checkpoint_of ls =
     foldl (\<lambda>c line. if c = 0 then sq_commit_version_start (GtidSeq_deserialize GtidSeq_init line) else c) 0 ls"

definition rewrite_gtid_file :: "(GtidSeq \<Rightarrow> bool) \<Rightarrow> bool \<Rightarrow> GtidManager \<Rightarrow> GtidManager" where
  "rewrite_gtid_file compare_func update_first_checkpoint mg = (case mg_gtid_seq_file mg of
     None \<Rightarrow> mg
   | Some content \<Rightarrow>
       let ls = passing_lines compare_func content
       in mg\<lparr>mg_gtid_seq_file := Some (concat (map (\<lambda>line. line @ [LF]) ls)),
             mg_last_checkpoint_purged :=
               (if update_first_checkpoint then first_checkpoint_of ls else mg_last_checkpoint_purged mg)\<rparr>)"

text \<open>\<^verbatim>\<open>(int)(1.2 * (double)n)\<close> is exact for the numbers of seconds it is used with; \<^verbatim>\<open>elapsed\<close> is a signed
  32-bit integer.\<close>

definition clear_outdated_heartbeat_gtid_seqs_periodically :: "gtid_config \<Rightarrow> u64 \<Rightarrow> GtidManager \<Rightarrow> GtidManager" where
  "clear_outdated_heartbeat_gtid_seqs_periodically cf current_checkpoint mg =
     (let elapsed = sint (ucast (current_checkpoint - mg_last_checkpoint_purged mg) :: 32 word)
      in if elapsed > int (12 * unat (cf_binlog_expire_logs_seconds cf) div 10)
         then let before = current_checkpoint - cf_binlog_expire_logs_seconds cf
              in rewrite_gtid_file (\<lambda>q. before \<le> sq_commit_version_start q \<or>
                    sq_commit_version_start q < before \<and> sq_xid_start q \<noteq> []) False
                    (mg\<lparr>mg_last_checkpoint_purged := before\<rparr>)
         else mg)"

definition compress_and_save_gtid_seq :: "gtid_config \<Rightarrow> mapping_pair \<Rightarrow> GtidManager \<Rightarrow> GtidManager" where
  "compress_and_save_gtid_seq cf trx_mapping mg =
     (let mg = (foldl (\<lambda>mg q. save_gtid_seq cf q mg) mg (mg_gtid_checkpoint_set mg))\<lparr>mg_gtid_checkpoint_set := []\<rparr>;
          top = max (mg_curr_hb_checkpoint mg) (mg_curr_trx_checkpoint mg);
          saved = mg_last_saved_commit_version_high mg
      in if top \<le> saved then mg
         else if top - saved \<ge> ucast (cf_gtid_seq_compressed_interval_s cf) \<or>
                 (saved < top \<and> mg_nof_trx mg \<ge> ucast (cf_gtid_seq_compressed_trx_size cf))
         then let q = \<lparr>sq_commit_version_start = (if mg_nof_trx mg > 0 then mg_curr_trx_checkpoint mg else mg_curr_hb_checkpoint mg),
                       sq_xid_start = (if mg_nof_trx mg > 0 then fst trx_mapping else []),
                       sq_gtid_start = snd trx_mapping, sq_trxs_num = mg_nof_trx mg\<rparr>
              in clear_outdated_heartbeat_gtid_seqs_periodically cf top
                   ((save_gtid_seq cf q mg)\<lparr>mg_last_saved_commit_version_high := top, mg_nof_trx := 0\<rparr>)
         else mg)"

section \<open>Executed and purged sets\<close>

definition strcasecmp_same :: "string \<Rightarrow> string \<Rightarrow> bool" where
  "strcasecmp_same a b \<longleftrightarrow> map tolower (c_str a) = map tolower (c_str b)"

definition extend_ranges :: "txn_range \<Rightarrow> txn_range list \<Rightarrow> txn_range list" where
  "extend_ranges gtid_range rs =
     (if rs = [] then [gtid_range]
      else if fst gtid_range > snd (last rs) + 1 then rs @ [gtid_range]
      else if snd gtid_range > snd (last rs) then butlast rs @ [(fst (last rs), snd gtid_range)]
      else rs)"

definition set_ranges :: "txn_range list \<Rightarrow> GtidMessage \<Rightarrow> GtidMessage" where
  "set_ranges rs m = m\<lparr>gm_txn_range := rs, gm_gtid_txn_id_intervals := of_nat (length rs)\<rparr>"

fun merge_existing :: "string \<Rightarrow> txn_range \<Rightarrow> GtidMessage list \<Rightarrow> (GtidMessage list \<times> bool) option" where
  "merge_existing server_uuid gtid_range [] = Some ([], False)"
| "merge_existing server_uuid gtid_range (m # ms) = do {
     uuid \<leftarrow> uuid_hex_bin_to_str_with_delim m;
     (ms', existed) \<leftarrow> merge_existing server_uuid gtid_range ms;
     Some (if strcasecmp_same uuid server_uuid
           then (set_ranges (extend_ranges gtid_range (gm_txn_range m)) m # ms', True)
           else (m # ms', existed)) }"

definition merge_gtid_before ::
  "byte \<Rightarrow> byte list \<Rightarrow> string \<Rightarrow> GtidMessage list \<Rightarrow> txn_range \<Rightarrow> GtidMessage list option" where
  "merge_gtid_before junk mem server_uuid gtid_message_set gtid_range = do {
     (ms, existed) \<leftarrow> merge_existing server_uuid gtid_range gtid_message_set;
     if \<not> existed \<and> fst gtid_range > 0 \<and> snd gtid_range > 0 then do {
       (_, m) \<leftarrow> set_gtid_uuid junk mem server_uuid GtidMessage_init;
       Some (ms @ [set_ranges [gtid_range] m]) }
     else Some ms }"

fun join_gtids :: "GtidMessage list \<Rightarrow> string \<Rightarrow> string option" where
  "join_gtids [] str = Some str"
| "join_gtids (m # ms) str = do {
     s \<leftarrow> format_string m;
     join_gtids ms (str @ (if str = [] then [] else '','') @ s) }"

definition update_gtid_purged :: "byte \<Rightarrow> byte list \<Rightarrow> gtid_config \<Rightarrow> u64 \<Rightarrow> GtidManager \<Rightarrow> GtidManager option" where
  "update_gtid_purged junk mem cf gtid mg = do {
     ms \<leftarrow> merge_gtid_before junk mem (cf_master_server_uuid cf) (mg_gtid_purged_set mg) (1, gtid);
     str \<leftarrow> join_gtids ms [];
     Some (mg\<lparr>mg_last_gtid_purged := gtid, mg_gtid_purged_set := ms,
              mg_global_var := (mg_global_var mg)(''gtid_purged'' \<mapsto> str)\<rparr>) }"

definition update_gtid_executed :: "byte \<Rightarrow> byte list \<Rightarrow> gtid_config \<Rightarrow> u64 \<Rightarrow> GtidManager \<Rightarrow> GtidManager option" where
  "update_gtid_executed junk mem cf gtid mg = do {
     ms \<leftarrow> merge_gtid_before junk mem (cf_master_server_uuid cf) (mg_gtid_executed_set mg) (1, gtid);
     str \<leftarrow> join_gtids ms [];
     Some (mg\<lparr>mg_gtid_executed_set := ms, mg_global_var := (mg_global_var mg)(''gtid_executed'' \<mapsto> str)\<rparr>) }"

definition purge_gtid_before :: "byte \<Rightarrow> byte list \<Rightarrow> gtid_config \<Rightarrow> u64 \<Rightarrow> GtidManager \<Rightarrow> GtidManager option" where
  "purge_gtid_before junk mem cf last_gtid_purged mg =
     update_gtid_purged junk mem cf last_gtid_purged
       (rewrite_gtid_file (\<lambda>q. sq_gtid_start q > last_gtid_purged) True mg)"

text \<open>\<^verbatim>\<open>BinlogIndexManager::purge_binlog_index\<close>, which calls both managers.\<close>

definition purge_binlog_index ::
  "byte \<Rightarrow> byte list \<Rightarrow> gtid_config \<Rightarrow> (string \<Rightarrow> u64) \<Rightarrow> string \<Rightarrow> string \<Rightarrow> string \<Rightarrow>
   BinlogIndexManager \<Rightarrow> GtidManager \<Rightarrow> (bool \<times> string list \<times> BinlogIndexManager \<times> GtidManager) option" where
  "purge_binlog_index junk mem cf convert_ts base_name binlog_file before_purge_ts im mg = do {
     (ok, purged, im', last_gtid_seq) \<leftarrow> purge_index_records convert_ts base_name binlog_file before_purge_ts im;
     mg' \<leftarrow> (if last_gtid_seq \<noteq> 0 then purge_gtid_before junk mem cf last_gtid_seq mg else Some mg);
     Some (ok, purged, im', mg') }"

section \<open>Reading the mapping\<close>

definition get_latest_gtid_seq :: "GtidManager \<Rightarrow> GtidSeq \<Rightarrow> bool \<times> GtidSeq" where
  "get_latest_gtid_seq mg q =
     (if mg_gtid_seq_set mg = [] then (False, q)
      else (True, GtidSeq_deserialize q (snd (last (mg_gtid_seq_set mg)))))"

fun first_le :: "u64 \<Rightarrow> (u64 \<times> string) list \<Rightarrow> GtidSeq option" where
  "first_le gtid [] = None"
| "first_le gtid (e # es) =
     (let q = GtidSeq_deserialize GtidSeq_init (snd e) in
      if sq_gtid_start q > gtid then first_le gtid es
      else if sq_gtid_start q < gtid \<or> sq_gtid_start q = gtid \<and> sq_xid_start q \<noteq> [] then Some q
      else first_le gtid es)"

definition get_first_le_gtid_seq :: "u64 \<Rightarrow> GtidManager \<Rightarrow> GtidSeq option" where
  "get_first_le_gtid_seq gtid mg = first_le gtid (rev (mg_gtid_seq_set mg))"

text \<open>The report of at most \<^verbatim>\<open>limit + 1\<close> entries younger than a time, separated by bars.\<close>

fun incr_report :: "nat \<Rightarrow> u64 \<Rightarrow> (u64 \<times> string) list \<Rightarrow> nat \<Rightarrow> string \<Rightarrow> string" where
  "incr_report limit timestamp [] count gtids = gtids"
| "incr_report limit timestamp (e # es) count gtids =
     (let young = fst e > timestamp;
          gtids = (if young then gtids @ snd e @ ''|'' else gtids);
          count = (if young then Suc count else count)
      in if count > limit then gtids else incr_report limit timestamp es count gtids)"

definition get_instance_incr_gtids_string :: "gtid_config \<Rightarrow> u64 \<Rightarrow> GtidManager \<Rightarrow> string" where
  "get_instance_incr_gtids_string cf timestamp mg =
     (if mg_gtid_seq_set mg = [] then []
      else let limit = unat (cf_max_incr_gtid_seqs_num cf)
           in if fst (hd (mg_gtid_seq_set mg)) \<le> timestamp
              then butlast (incr_report limit timestamp (mg_gtid_seq_set mg) 0 [])
              else (case mg_gtid_seq_file mg of
                      None \<Rightarrow> []
                    | Some content \<Rightarrow>
                        butlast (incr_report limit timestamp
                          (map (\<lambda>line. (sq_commit_version_start (GtidSeq_deserialize GtidSeq_init line), line))
                             (std_lines content)) 0 [])))"

text \<open>\<^verbatim>\<open>read_last_valid_gtid_seq\<close> walks back line by line until a line has a commit version.\<close>

fun line_break_before :: "string \<Rightarrow> nat \<Rightarrow> nat \<Rightarrow> nat" where
  "line_break_before content file_size 0 = 0"
| "line_break_before content file_size (Suc p) =
     (if content ! Suc p = LF \<and> Suc p \<noteq> file_size - 1 then Suc p else line_break_before content file_size p)"

lemma line_break_before_le: "line_break_before content n p \<le> p"
  by (induction p) auto

function last_valid :: "string \<Rightarrow> nat \<Rightarrow> GtidSeq \<Rightarrow> GtidSeq" where
  "last_valid content file_size q =
     (if file_size > 0 \<and> sq_commit_version_start q = 0
      then let position = line_break_before content file_size (file_size - 1);
               rest = drop (if position = 0 then 0 else Suc position) content
           in last_valid content position (GtidSeq_deserialize q (take (line_end rest) rest))
      else q)"
  by pat_completeness auto

termination
proof (relation "measure (\<lambda>(content, file_size, q). file_size)", goal_cases)
  case (2 content file_size q x xa)
  then show ?case using line_break_before_le[of content file_size "file_size - 1"] by (simp only: in_measure prod.case) linarith
qed simp

declare last_valid.simps [simp del]

definition read_last_valid_gtid_seq :: "GtidManager \<Rightarrow> GtidSeq \<Rightarrow> GtidSeq" where
  "read_last_valid_gtid_seq mg q = (case mg_gtid_seq_file mg of
     None \<Rightarrow> q | Some content \<Rightarrow> last_valid content (length content) q)"

fun load_lines :: "u64 \<Rightarrow> u32 \<Rightarrow> string list \<Rightarrow> GtidSeq \<Rightarrow> GtidManager \<Rightarrow> GtidManager" where
  "load_lines last_checkpoint seconds [] q mg = mg"
| "load_lines last_checkpoint seconds (line # ls) q mg =
     (let q = GtidSeq_deserialize q line; v = sq_commit_version_start q;
          mg = mg\<lparr>mg_last_checkpoint_purged := if mg_last_checkpoint_purged mg = 0 then v else mg_last_checkpoint_purged mg\<rparr>;
          mg = (if last_checkpoint - v < ucast seconds then mg\<lparr>mg_gtid_seq_set := mg_gtid_seq_set mg @ [(v, line)]\<rparr> else mg)
      in load_lines last_checkpoint seconds ls q mg)"

definition init_gtid_seq :: "gtid_config \<Rightarrow> u64 \<Rightarrow> GtidManager \<Rightarrow> GtidManager" where
  "init_gtid_seq cf now mg =
     (let v = sq_commit_version_start (read_last_valid_gtid_seq mg GtidSeq_init);
          last_checkpoint = (if v = 0 then now else v)
      in case mg_gtid_seq_file mg of
           None \<Rightarrow> mg
         | Some content \<Rightarrow>
             (load_lines last_checkpoint (cf_gtid_memory_cache_seconds cf) (std_lines content) GtidSeq_init mg)
               \<lparr>mg_first_entry_after_restarted := True\<rparr>)"

section \<open>Searching a report\<close>

text \<open>Each turn fills the same object; an index that would wrap below zero is out of bounds at the next turn.\<close>

function search_loop :: "u64 \<Rightarrow> string list \<Rightarrow> GtidSeq \<Rightarrow> nat \<Rightarrow> nat \<Rightarrow> nat option" where
  "search_loop timestamp seqs local idx_low idx_high =
     (if idx_low \<le> idx_high then
        let idx_mid = idx_low + (idx_high - idx_low) div 2 in
        if idx_mid < length seqs then
          let local = GtidSeq_deserialize local (seqs ! idx_mid) in
          if sq_commit_version_start local > timestamp
          then (if idx_mid = 0 then None else search_loop timestamp seqs local idx_low (idx_mid - 1))
          else search_loop timestamp seqs local (idx_mid + 1) idx_high
        else None
      else Some idx_high)"
  by pat_completeness auto

termination
  by (relation "measure (\<lambda>(timestamp, seqs, local, low, high). Suc high - low)") (auto simp: Let_def)

declare search_loop.simps [simp del]

definition binary_search_gtid_seq :: "u64 \<Rightarrow> string \<Rightarrow> GtidSeq \<Rightarrow> (bool \<times> GtidSeq) option" where
  "binary_search_gtid_seq timestamp tenant_gtids_str q =
     (if tenant_gtids_str = [] then Some (False, q)
      else let seqs = split tenant_gtids_str CHR ''|'';
               local = GtidSeq_deserialize GtidSeq_init (last seqs)
           in if timestamp = 0 \<or> timestamp > sq_commit_version_start local
              then Some (True, GtidSeq_deserialize q (last seqs))
              else let local = GtidSeq_deserialize local (hd seqs) in
                if timestamp < sq_commit_version_start local
                then Some (True, GtidSeq_deserialize q (hd seqs))
                else do {
                  idx_high \<leftarrow> search_loop timestamp seqs local 0 (length seqs - 1);
                  Some (True, GtidSeq_deserialize q (seqs ! idx_high)) })"

definition boundary_gtid_seq :: "string \<Rightarrow> GtidSeq \<times> GtidSeq \<Rightarrow> bool \<times> GtidSeq \<times> GtidSeq" where
  "boundary_gtid_seq tenant_gtids_str pair =
     (if tenant_gtids_str = [] then (False, pair)
      else let before = takeWhile (\<lambda>c. c \<noteq> CHR ''|'') tenant_gtids_str;
               behind_last = rev (takeWhile (\<lambda>c. c \<noteq> CHR ''|'') (rev tenant_gtids_str))
           in (True, GtidSeq_deserialize (fst pair) before, GtidSeq_deserialize (snd pair) behind_last))"


section \<open>Mappings are lines\<close>

definition seq_ok :: "GtidSeq \<Rightarrow> bool" where
  "seq_ok q \<longleftrightarrow> CHR ''#'' \<notin> set (sq_xid_start q) \<and> CHR ''|'' \<notin> set (sq_xid_start q) \<and> LF \<notin> set (sq_xid_start q) \<and>
     NUL \<notin> set (sq_xid_start q) \<and> unat (sq_commit_version_start q) < 2 ^ 63 \<and>
     unat (sq_gtid_start q) < 2 ^ 63 \<and> unat (sq_trxs_num q) < 2 ^ 63"

abbreviation version :: "GtidSeq \<Rightarrow> u64" where
  "version q \<equiv> sq_commit_version_start q"

lemma atoll_number:
  fixes w :: u64
  assumes "unat w < 2 ^ 63" "rest = [] \<or> rest = [LF]"
  shows "word_of_int (atoll (to_string (unat w) @ rest)) = w"
proof -
  have "scan_value (to_string (unat w) @ rest) = int (unat w)"
    using assms(2) by (intro scan_value_to_string) (auto simp: isdigit_def LF_def)
  moreover have "int (unat w) < 2 ^ 63" using assms(1) by (simp only: of_nat_less_iff[symmetric, where 'a = int]) simp
  ultimately have "atoll (to_string (unat w) @ rest) = int (unat w)" unfolding atoll_def by linarith
  then show ?thesis by simp
qed

lemma split_seq:
  assumes "seq_ok q" "rest = [] \<or> rest = [LF]"
  shows "split (GtidSeq_serialize q @ rest) CHR ''#'' =
    [to_string (unat (version q)), sq_xid_start q, to_string (unat (sq_gtid_start q)), to_string (unat (sq_trxs_num q)) @ rest]"
proof -
  let ?fs = "[to_string (unat (version q)), sq_xid_start q, to_string (unat (sq_gtid_start q)), to_string (unat (sq_trxs_num q)) @ rest]"
  have "GtidSeq_serialize q @ rest = join [CHR ''#''] ?fs" by (simp add: GtidSeq_serialize_def)
  moreover have "list_all (piece CHR ''#'') ?fs"
    using assms to_string_piece[of "CHR ''#''"] by (auto simp: seq_ok_def piece_def isdigit_def LF_def NUL_def)
  ultimately show ?thesis using split_join[of "CHR ''#''" ?fs] by (simp add: NUL_def)
qed

lemma deserialize_serialize:
  assumes "seq_ok q" "rest = [] \<or> rest = [LF]"
  shows "GtidSeq_deserialize q0 (GtidSeq_serialize q @ rest) = q"
  using assms(1) atoll_number[OF _ assms(2), of "sq_trxs_num q"] atoll_number[of _ "[]"]
  by (simp add: GtidSeq_deserialize_def split_seq[OF assms] seq_ok_def Let_def)

interpretation sq: line_record GtidSeq_serialize "\<lambda>q s. Some (GtidSeq_deserialize q s)" seq_ok
proof (unfold_locales, goal_cases)
  case (1 q)
  then show ?case using to_string_no_char[of LF] by (auto simp: GtidSeq_serialize_def seq_ok_def LF_def isdigit_def)
next
  case (2 q)
  show ?case by (simp add: GtidSeq_serialize_def)
next
  case (3 q q0)
  then show ?case using deserialize_serialize[of q "[]" q0] by simp
next
  case (4 q q0)
  then show ?case by (simp add: deserialize_serialize)
qed

lemma deserialize_seq [simp]: "seq_ok q \<Longrightarrow> GtidSeq_deserialize q0 (GtidSeq_serialize q) = q"
  using sq.parse_ser[of q q0] by simp

section \<open>The search\<close>

definition report :: "GtidSeq list \<Rightarrow> string" where
  "report qs = join ''|'' (map GtidSeq_serialize qs)"

lemma serialize_piece: "seq_ok q \<Longrightarrow> piece CHR ''|'' (GtidSeq_serialize q)"
  using to_string_piece[of "CHR ''|''"] by (auto simp: GtidSeq_serialize_def seq_ok_def piece_def isdigit_def NUL_def)

lemma serialize_not_Nil: "GtidSeq_serialize q \<noteq> []"
  by (simp add: GtidSeq_serialize_def)

lemma split_report:
  assumes "list_all seq_ok qs" "qs \<noteq> []"
  shows "split (report qs) CHR ''|'' = map GtidSeq_serialize qs" "report qs \<noteq> []"
proof -
  show "report qs \<noteq> []"
    using assms(2) serialize_not_Nil by (cases qs; cases "tl qs") (auto simp: report_def neq_Nil_conv)
  then show "split (report qs) CHR ''|'' = map GtidSeq_serialize qs"
    unfolding report_def using assms(1)
    by (intro split_join) (auto simp: list_all_iff serialize_piece NUL_def)
qed

text \<open>The loop keeps the target between its bounds: everything below \<^verbatim>\<open>low\<close> is old enough, everything above
  \<^verbatim>\<open>high\<close> is not.\<close>

lemma search_loop_finds:
  assumes ok: "list_all seq_ok qs" and srt: "sorted (map version qs)"
    and lo: "\<forall>i<low. version (qs ! i) \<le> ts" and hi: "\<forall>i. high < i \<and> i < length qs \<longrightarrow> ts < version (qs ! i)"
    and first: "version (qs ! 0) \<le> ts" and b: "high < length qs" "low \<le> high + 1"
  shows "\<exists>i. search_loop ts (map GtidSeq_serialize qs) local low high = Some i \<and> i < length qs \<and>
    (\<forall>j\<le>i. version (qs ! j) \<le> ts) \<and> (\<forall>j. i < j \<and> j < length qs \<longrightarrow> ts < version (qs ! j))"
  using lo hi b
proof (induction "Suc high - low" arbitrary: local low high rule: less_induct)
  case less
  let ?seqs = "map GtidSeq_serialize qs"
  show ?case
  proof (cases "low \<le> high")
    case False
    then have "search_loop ts ?seqs local low high = Some high" by (subst search_loop.simps) simp
    then show ?thesis using False less by (intro exI[of _ high]) auto
  next
    case True
    define mid where "mid = low + (high - low) div 2"
    have mid: "low \<le> mid" "mid \<le> high" "mid < length qs" using True less.prems(3) by (auto simp: mid_def)
    then have d: "GtidSeq_deserialize local (?seqs ! mid) = qs ! mid" using ok by (simp add: list_all_length)
    have mono: "version (qs ! i) \<le> version (qs ! j)" if "i \<le> j" "j < length qs" for i j
      using srt that sorted_nth_mono[of "map version qs" i j] by simp
    show ?thesis
    proof (cases "ts < version (qs ! mid)")
      case True
      then have "mid \<noteq> 0" using first by (metis leD)
      then have step: "search_loop ts ?seqs local low high = search_loop ts ?seqs (qs ! mid) low (mid - 1)"
        using \<open>low \<le> high\<close> mid True d by (subst search_loop.simps) (simp add: Let_def flip: mid_def)
      have "\<forall>i. mid - 1 < i \<and> i < length qs \<longrightarrow> ts < version (qs ! i)"
      proof (intro allI impI)
        fix i assume "mid - 1 < i \<and> i < length qs"
        then have "version (qs ! mid) \<le> version (qs ! i)" using \<open>mid \<noteq> 0\<close> by (intro mono) auto
        then show "ts < version (qs ! i)" using True by (rule order.strict_trans2[rotated])
      qed
      then show ?thesis
        unfolding step using less.prems mid \<open>mid \<noteq> 0\<close> by (intro less.hyps) auto
    next
      case False
      then have step: "search_loop ts ?seqs local low high = search_loop ts ?seqs (qs ! mid) (mid + 1) high"
        using \<open>low \<le> high\<close> mid d by (subst search_loop.simps) (simp add: Let_def flip: mid_def)
      have "\<forall>i<mid + 1. version (qs ! i) \<le> ts"
      proof (intro allI impI)
        fix i assume "i < mid + 1"
        then have "version (qs ! i) \<le> version (qs ! mid)" using mid by (intro mono) auto
        then show "version (qs ! i) \<le> ts" using False by order
      qed
      then show ?thesis
        unfolding step using less.prems mid by (intro less.hyps) auto
    qed
  qed
qed


lemma last_filter_prefix:
  assumes "i < length qs" "\<forall>j\<le>i. P (qs ! j)" "\<forall>j. i < j \<and> j < length qs \<longrightarrow> \<not> P (qs ! j)"
  shows "last (filter P qs) = qs ! i"
proof -
  have "filter P (take (Suc i) qs) = take (Suc i) qs"
    using assms by (auto simp: filter_id_conv in_set_conv_nth)
  moreover have "filter P (drop (Suc i) qs) = []"
    using assms by (auto simp: filter_empty_conv in_set_conv_nth)
  ultimately have "filter P qs = take (Suc i) qs"
    using filter_append[of P "take (Suc i) qs" "drop (Suc i) qs"] by simp
  then show ?thesis using assms(1) by (simp add: take_Suc_conv_app_nth)
qed

section \<open>Properties\<close>

text \<open>C17. Looking up the GTID for a point in time.  On a report of mappings in the order of their commit
  versions the binary search ends without leaving the vector and returns the last mapping that is not younger
  than the time, the first mapping when all are younger, and the last one when the time is zero or later than
  all of them.\<close>

theorem binary_search_exact:
  assumes "list_all seq_ok qs" "qs \<noteq> []" "sorted (map version qs)"
  shows "binary_search_gtid_seq timestamp (report qs) q0 =
    Some (True, if timestamp = 0 \<or> version (last qs) < timestamp then last qs
                else if timestamp < version (hd qs) then hd qs
                else last (filter (\<lambda>q. version q \<le> timestamp) qs))"
proof -
  let ?seqs = "map GtidSeq_serialize qs"
  have ends: "last ?seqs = GtidSeq_serialize (last qs)" "hd ?seqs = GtidSeq_serialize (hd qs)"
    "seq_ok (last qs)" "seq_ok (hd qs)"
    using assms by (auto simp: last_map hd_map list_all_iff)
  have mid: "\<exists>i. search_loop timestamp ?seqs local 0 (length ?seqs - 1) = Some i \<and> i < length qs \<and>
      last (filter (\<lambda>q. version q \<le> timestamp) qs) = qs ! i" if "\<not> timestamp < version (hd qs)" for local
  proof -
    have first: "version (qs ! 0) \<le> timestamp" using that assms(2) by (simp add: hd_conv_nth)
    have len: "length qs - 1 < length qs" using assms(2) by simp
    have above: "\<forall>i. length qs - 1 < i \<and> i < length qs \<longrightarrow> timestamp < version (qs ! i)" by auto
    obtain i where i: "search_loop timestamp ?seqs local 0 (length qs - 1) = Some i" "i < length qs"
      "\<forall>j\<le>i. version (qs ! j) \<le> timestamp" "\<forall>j. i < j \<and> j < length qs \<longrightarrow> timestamp < version (qs ! j)"
      using search_loop_finds[OF assms(1,3) _ above first len, of 0 local] by blast
    then have "last (filter (\<lambda>q. version q \<le> timestamp) qs) = qs ! i" by (intro last_filter_prefix) (auto simp: not_le)
    then show ?thesis using i by auto
  qed
  show ?thesis
  proof (cases "timestamp = 0 \<or> version (last qs) < timestamp \<or> timestamp < version (hd qs)")
    case True
    then show ?thesis
      using split_report[OF assms(1,2)] ends by (auto simp: binary_search_gtid_seq_def Let_def)
  next
    case False
    then obtain i where "search_loop timestamp ?seqs (hd qs) 0 (length ?seqs - 1) = Some i" "i < length qs"
      "last (filter (\<lambda>q. version q \<le> timestamp) qs) = qs ! i"
      using mid[of "hd qs"] by blast
    moreover have "seq_ok (qs ! i)" using assms(1) calculation(2) by (simp add: list_all_length)
    ultimately show ?thesis
      using False split_report[OF assms(1,2)] ends by (simp add: binary_search_gtid_seq_def Let_def)
  qed
qed

definition seq_at :: "u64 \<Rightarrow> u64 \<Rightarrow> GtidSeq" where
  "seq_at v g = \<lparr>sq_commit_version_start = v, sq_xid_start = ''x'', sq_gtid_start = g, sq_trxs_num = 1\<rparr>"

lemma seq_at_ok: "unat v < 2 ^ 63 \<Longrightarrow> unat g < 2 ^ 63 \<Longrightarrow> seq_ok (seq_at v g)" "version (seq_at v g) = v"
  by (simp_all add: seq_ok_def seq_at_def LF_def NUL_def)

theorem binary_search_exact_witness:
  "binary_search_gtid_seq 25 (report [seq_at 10 1, seq_at 20 5, seq_at 30 9]) GtidSeq_init = Some (True, seq_at 20 5) \<and>
   binary_search_gtid_seq 0 (report [seq_at 10 1, seq_at 20 5, seq_at 30 9]) GtidSeq_init = Some (True, seq_at 30 9)"
  using binary_search_exact [of "[seq_at 10 1, seq_at 20 5, seq_at 30 9]" 25 GtidSeq_init]
    binary_search_exact [of "[seq_at 10 1, seq_at 20 5, seq_at 30 9]" 0 GtidSeq_init]
  by (simp add: seq_at_ok)

text \<open>The uuid of the server as the configuration has it: the text of sixteen bytes.\<close>

definition server_text :: "gtid_config \<Rightarrow> byte list \<Rightarrow> bool" where
  "server_text cf uuid \<longleftrightarrow> length uuid = 16 \<and> cf_master_server_uuid cf = with_delim (dumphex uuid)"

lemma strcasecmp_refl: "strcasecmp_same s s"
  by (simp add: strcasecmp_same_def)

lemma merge_empty:
  assumes "server_text cf uuid" "length mem = 16" "g > 0"
  shows "merge_gtid_before junk mem (cf_master_server_uuid cf) [] (1, g) = Some [message uuid 1 [(1, g)]]"
  using assms uuid_str_roundtrip[of uuid mem junk None]
  by (simp add: merge_gtid_before_def server_text_def set_gtid_uuid_def GtidMessage_init_def set_ranges_def message_def)

lemma merge_one:
  assumes "server_text cf uuid" "h \<noteq> - 1"
  shows "merge_gtid_before junk mem (cf_master_server_uuid cf) [message uuid 1 [(1, h)]] (1, g) =
    Some [message uuid 1 [(1, max h g)]]"
proof -
  have "h + 1 \<noteq> 0" using assms(2) by (simp add: eq_neg_iff_add_eq_0)
  then have "\<not> h + 1 < 1" by (simp add: word_less_nat_alt unat_eq_0)
  then have "extend_ranges (1, g) [(1, h)] = [(1, max h g)]"
    by (auto simp: extend_ranges_def max_def)
  then show ?thesis
    using assms(1)
    by (simp add: merge_gtid_before_def server_text_def uuid_hex_bin_to_str_with_delim_def strcasecmp_refl set_ranges_def)
       (simp add: message_def)
qed


text \<open>The operations of the manager while it runs, as a labelled step relation, and their sequences.\<close>

datatype manager_op =
    Mark bool u64 mapping_pair
  | Save mapping_pair
  | Execute u64
  | Purge u64

inductive manager_step ::
  "byte \<Rightarrow> byte list \<Rightarrow> gtid_config \<Rightarrow> GtidManager \<Rightarrow> manager_op \<Rightarrow> GtidManager \<Rightarrow> bool"
  for junk :: byte and mem :: "byte list" and cf :: gtid_config where
  mark: "mark_event cf hb cp m mg = Some mg' \<Longrightarrow> manager_step junk mem cf mg (Mark hb cp m) mg'"
| save: "manager_step junk mem cf mg (Save m) (compress_and_save_gtid_seq cf m mg)"
| execute: "update_gtid_executed junk mem cf g mg = Some mg' \<Longrightarrow> manager_step junk mem cf mg (Execute g) mg'"
| purge: "purge_gtid_before junk mem cf g mg = Some mg' \<Longrightarrow> manager_step junk mem cf mg (Purge g) mg'"

inductive manager_run ::
  "byte \<Rightarrow> byte list \<Rightarrow> gtid_config \<Rightarrow> GtidManager \<Rightarrow> manager_op list \<Rightarrow> GtidManager \<Rightarrow> bool"
  for junk :: byte and mem :: "byte list" and cf :: gtid_config where
  none: "manager_run junk mem cf mg [] mg"
| more: "manager_run junk mem cf mg ops mg' \<Longrightarrow> manager_step junk mem cf mg' op mg'' \<Longrightarrow>
         manager_run junk mem cf mg (ops @ [op]) mg''"

inductive_cases manager_stepE: "manager_step junk mem cf mg op mg'"

fun executed_by :: "manager_op list \<Rightarrow> u64 list" where
  "executed_by [] = []"
| "executed_by (Execute g # ops) = g # executed_by ops"
| "executed_by (_ # ops) = executed_by ops"

lemma executed_by_append [simp]: "executed_by (ops @ ops') = executed_by ops @ executed_by ops'"
  by (induction ops rule: executed_by.induct) auto

text \<open>The part of the state the executed transactions live in.\<close>

abbreviation executed_view :: "GtidManager \<Rightarrow> GtidMessage list \<times> string option" where
  "executed_view mg \<equiv> (mg_gtid_executed_set mg, mg_global_var mg ''gtid_executed'')"

lemma save_executed [simp]:
  "mg_gtid_executed_set (save_gtid_seq cf q mg) = mg_gtid_executed_set mg"
  "mg_global_var (save_gtid_seq cf q mg) = mg_global_var mg"
  by (simp_all add: save_gtid_seq_def Let_def)

lemma fold_save_executed [simp]:
  "mg_gtid_executed_set (foldl (\<lambda>mg q. save_gtid_seq cf q mg) mg qs) = mg_gtid_executed_set mg"
  "mg_global_var (foldl (\<lambda>mg q. save_gtid_seq cf q mg) mg qs) = mg_global_var mg"
  by (induction qs arbitrary: mg) simp_all

lemma rewrite_executed [simp]:
  "mg_gtid_executed_set (rewrite_gtid_file P b mg) = mg_gtid_executed_set mg"
  "mg_global_var (rewrite_gtid_file P b mg) = mg_global_var mg"
  by (simp_all add: rewrite_gtid_file_def Let_def split: option.splits)

lemma clear_executed [simp]:
  "mg_gtid_executed_set (clear_outdated_heartbeat_gtid_seqs_periodically cf v mg) = mg_gtid_executed_set mg"
  "mg_global_var (clear_outdated_heartbeat_gtid_seqs_periodically cf v mg) = mg_global_var mg"
  by (simp_all add: clear_outdated_heartbeat_gtid_seqs_periodically_def Let_def)

lemma step_executed:
  assumes "manager_step junk mem cf mg op mg'" "\<forall>g. op \<noteq> Execute g"
  shows "executed_view mg' = executed_view mg"
  using assms
  by (cases rule: manager_step.cases)
     (auto simp: mark_event_def compress_and_save_gtid_seq_def purge_gtid_before_def update_gtid_purged_def
      bind_eq_Some_conv Let_def split: if_splits)

lemma join_one: "length uuid = 16 \<Longrightarrow> join_gtids [message uuid n rs] [] = Some (gtid_text uuid rs)"
  by (simp add: format_string_message)

text \<open>C7. \<^verbatim>\<open>gtid_executed\<close> is a prefix of the transaction numbers.  From a manager that has executed nothing,
  after any sequence of marking, saving, executing and purging, the executed set is the single range from 1 to
  the largest number executed so far, and the global variable shows exactly that range.\<close>

theorem executed_is_prefix:
  assumes "manager_run junk mem cf mg0 ops mg" "server_text cf uuid" "length mem = 16"
    and "mg_gtid_executed_set mg0 = []" "\<forall>g \<in> set (executed_by ops). 0 < g \<and> g \<noteq> - 1"
  shows "executed_view mg =
    (if executed_by ops = [] then ([], mg_global_var mg0 ''gtid_executed'')
     else ([message uuid 1 [(1, Max (set (executed_by ops)))]],
           Some (gtid_text uuid [(1, Max (set (executed_by ops)))])))"
  using assms(1,4,5)
proof (induction rule: manager_run.induct)
  case (none mg)
  then show ?case by simp
next
  case (more mg ops mg' op mg'')
  let ?gs = "executed_by ops"
  show ?case
  proof (cases "\<exists>g. op = Execute g")
    case False
    then have "executed_by [op] = []" by (cases op) auto
    then show ?thesis using more step_executed[OF more.hyps(2)] False by simp
  next
    case True
    then obtain g where op: "op = Execute g" by blast
    then have g: "0 < g" "g \<noteq> - 1" using more.prems by auto
    have step: "update_gtid_executed junk mem cf g mg' = Some mg''"
      using more.hyps(2) by (cases rule: manager_stepE) (auto simp: op)
    have l: "length uuid = 16" using assms(2) by (simp add: server_text_def)
    show ?thesis
    proof (cases "?gs = []")
      case True
      then have "mg_gtid_executed_set mg' = []" using more by simp
      then show ?thesis
        using step merge_empty[OF assms(2,3) g(1), of junk] True l
        by (auto simp: update_gtid_executed_def op format_string_message)
    next
      case False
      let ?h = "Max (set ?gs)"
      have "?h \<in> set ?gs" using False by (intro Max_in) auto
      then have "?h \<noteq> - 1" using more.prems by auto
      moreover have "mg_gtid_executed_set mg' = [message uuid 1 [(1, ?h)]]" using more False by simp
      moreover have "max ?h g = Max (set (?gs @ [g]))" using False by (simp add: max.commute)
      ultimately show ?thesis
        using step merge_one[OF assms(2), of ?h junk mem g] False l
        by (auto simp: update_gtid_executed_def op format_string_message)
    qed
  qed
qed


definition new_manager :: GtidManager where
  "new_manager = \<lparr>mg_nof_trx = 0, mg_curr_hb_checkpoint = 0, mg_curr_trx_checkpoint = 0,
     mg_last_saved_commit_version_high = 0, mg_gtid_seq_file = None, mg_first_entry_after_restarted = False,
     mg_gtid_checkpoint_set = [], mg_last_gtid_purged = 0, mg_last_checkpoint_purged = 0, mg_gtid_seq_set = [],
     mg_gtid_purged_set = [], mg_gtid_executed_set = [], mg_global_var = Map.empty\<rparr>"

definition some_config :: gtid_config where
  "some_config = \<lparr>cf_gtid_marking_step_size = 10, cf_gtid_seq_compressed_interval_s = 10,
     cf_gtid_seq_compressed_trx_size = 100, cf_gtid_memory_cache_seconds = 7200, cf_max_incr_gtid_seqs_num = 200,
     cf_binlog_expire_logs_seconds = 64800, cf_master_server_uuid = with_delim (dumphex (replicate 16 17)),
     cf_initial_ob_txn_gtid_seq = 0\<rparr>"

lemma some_server: "server_text some_config (replicate 16 17)"
  by (simp add: server_text_def some_config_def)

theorem executed_is_prefix_witness:
  "\<exists>mg. manager_run 0 (replicate 16 0) some_config new_manager [Execute 7, Execute 3] mg \<and>
     mg_global_var mg ''gtid_executed'' = Some (gtid_text (replicate 16 17) [(1, 7)])"
proof -
  let ?u = "replicate 16 17 :: byte list" and ?m = "replicate 16 0 :: byte list"
  obtain mg1 where mg1: "update_gtid_executed 0 ?m some_config 7 new_manager = Some mg1"
    "mg_gtid_executed_set mg1 = [message ?u 1 [(1, 7)]]"
    using merge_empty[OF some_server, of ?m 7 0]
    by (auto simp: update_gtid_executed_def new_manager_def format_string_message)
  obtain mg2 where mg2: "update_gtid_executed 0 ?m some_config 3 mg1 = Some mg2"
    using merge_one[OF some_server, of 7 0 ?m 3] mg1(2)
    by (auto simp: update_gtid_executed_def format_string_message)
  have "manager_run 0 ?m some_config new_manager ([] @ [Execute 7]) mg1"
    using mg1(1) by (intro manager_run.more[OF manager_run.none] manager_step.execute)
  then have run: "manager_run 0 ?m some_config new_manager ([Execute 7] @ [Execute 3]) mg2"
    using mg2 by (intro manager_run.more manager_step.execute) simp
  show ?thesis
    using run executed_is_prefix [OF run some_server] by (auto simp: new_manager_def max_def)
qed

section \<open>Restarting\<close>

lemma line_break_first:
  "LF \<notin> set l \<Longrightarrow> p \<le> length l \<Longrightarrow> line_break_before (l @ [LF]) (Suc (length l)) p = 0"
proof (induction p)
  case (Suc p)
  have "(l @ [LF]) ! Suc p \<noteq> LF" if "Suc p \<noteq> length l"
    using Suc.prems that by (auto simp: nth_append dest!: nth_mem) (metis Suc_lessI Suc_le_lessD nth_mem)
  then show ?case using Suc by auto
qed simp

lemma line_break_later:
  "LF \<notin> set l \<Longrightarrow> m \<le> Suc (length l) \<Longrightarrow> 2 \<le> length pre \<Longrightarrow> last pre = LF \<Longrightarrow>
   line_break_before (pre @ l @ [LF]) (length pre + Suc (length l)) (length pre - 1 + m) = length pre - 1"
proof (induction m)
  case 0
  then obtain q where q: "length pre = Suc (Suc q)" by (metis One_nat_def Suc_le_D numeral_2_eq_2 Suc_le_mono)
  have "pre ! Suc q = LF" using 0(4) last_conv_nth[of pre] q by (cases "pre = []") auto
  then show ?case using q by (simp add: nth_append)
next
  case (Suc m)
  have n: "length pre - 1 + Suc m = Suc (length pre - 1 + m)" "Suc (length pre - 1 + m) = length pre + m"
    using Suc.prems(3) by auto
  have "(pre @ l @ [LF]) ! (length pre + m) \<noteq> LF" if "m < length l"
  proof -
    have "(pre @ l @ [LF]) ! (length pre + m) = l ! m" using that by (simp add: nth_append)
    moreover have "l ! m \<in> set l" using that by simp
    ultimately show ?thesis using Suc.prems(1) by metis
  qed
  then have "\<not> ((pre @ l @ [LF]) ! (length pre + m) = LF \<and> length pre + m \<noteq> length pre + Suc (length l) - 1)"
    using Suc.prems(2) by (cases "m < length l") auto
  then have "line_break_before (pre @ l @ [LF]) (length pre + Suc (length l)) (Suc (length pre - 1 + m)) =
      line_break_before (pre @ l @ [LF]) (length pre + Suc (length l)) (length pre - 1 + m)"
    by (subst line_break_before.simps(2)) (simp only: n(2) if_False)
  then show ?case using Suc.IH Suc.prems unfolding n(1) by auto
qed

lemma last_valid_step:
  assumes "0 < n" "pos = line_break_before content n (n - 1)"
    "drop (if pos = 0 then 0 else Suc pos) content = l @ [LF]" "LF \<notin> set l"
    "GtidSeq_deserialize GtidSeq_init l = r" "version r \<noteq> 0"
  shows "last_valid content n GtidSeq_init = r"
proof -
  have "take (line_end (l @ [LF])) (l @ [LF]) = l" using takeWhile_line[OF assms(4), of "[]"] by simp
  then show ?thesis
    using assms
    by (subst last_valid.simps) (simp only: Let_def, simp add: last_valid.simps[of _ _ r] GtidSeq_init_def)
qed

lemma last_valid_file:
  assumes "list_all seq_ok (rs @ [r])" "version r \<noteq> 0"
  shows "last_valid (sq.file_of (rs @ [r])) (length (sq.file_of (rs @ [r]))) GtidSeq_init = r"
proof -
  let ?f = "sq.file_of (rs @ [r])" and ?l = "GtidSeq_serialize r"
  have ok: "seq_ok r" "LF \<notin> set ?l" using assms(1) sq.ser_one_line[of r] by auto
  define pos where "pos = line_break_before ?f (length ?f) (length ?f - 1)"
  have "drop (if pos = 0 then 0 else Suc pos) ?f = ?l @ [LF]"
  proof (cases "rs = []")
    case True
    then show ?thesis
      using line_break_first[OF ok(2), of "length ?l"] by (simp add: pos_def sq.file_of_Cons)
  next
    case False
    let ?pre = "sq.file_of rs"
    have pre: "2 \<le> length ?pre" "last ?pre = LF"
      using sq.file_of_length[OF _ False] sq.file_of_last[OF False] assms(1) by auto
    have f: "?f = ?pre @ ?l @ [LF]" by (simp add: sq.file_of_Cons)
    have e: "length ?pre + Suc (length ?l) - 1 = length ?pre - 1 + Suc (length ?l)" using pre(1) by auto
    have n: "length (?pre @ ?l @ [LF]) = length ?pre + Suc (length ?l)" by simp
    have "pos = length ?pre - 1"
      using line_break_later[OF ok(2) order.refl pre] unfolding pos_def f n e .
    then show ?thesis unfolding f using pre(1) by auto
  qed
  then show ?thesis
    using ok assms(2) by (intro last_valid_step[OF _ pos_def, where l = ?l]) (simp_all add: sq.file_of_Cons)
qed

lemma load_lines_file:
  "list_all seq_ok qs \<Longrightarrow>
   mg_gtid_seq_set (load_lines v secs (map GtidSeq_serialize qs) q mg) =
     mg_gtid_seq_set mg @ map (\<lambda>q. (version q, GtidSeq_serialize q)) (filter (\<lambda>q. v - version q < ucast secs) qs)"
  by (induction qs arbitrary: q mg) (simp_all add: Let_def)

text \<open>C16. Restart of the manager.  It finds the last mapping of its file, loads into memory exactly the
  mappings younger than the cache time before it, in their order, and the last mapping is among them; a mapping
  that is not younger than the last one is then skipped, so that the file stays in the order of commit
  versions.\<close>

theorem restart_reloads_mapping:
  assumes "mg_gtid_seq_file mg = Some (concat (map (\<lambda>q. GtidSeq_serialize q @ [LF]) (qs @ [r])))"
    and "list_all seq_ok (qs @ [r])" "version r \<noteq> 0" "mg_gtid_seq_set mg = []" "cf_gtid_memory_cache_seconds cf > 0"
  shows "mg_gtid_seq_set (init_gtid_seq cf now mg) =
           map (\<lambda>q. (version q, GtidSeq_serialize q))
             (filter (\<lambda>q. version r - version q < ucast (cf_gtid_memory_cache_seconds cf)) (qs @ [r])) \<and>
         get_latest_gtid_seq (init_gtid_seq cf now mg) q0 = (True, r) \<and>
         (version q \<le> version r \<longrightarrow> save_gtid_seq cf q (init_gtid_seq cf now mg) = init_gtid_seq cf now mg)"
proof -
  let ?secs = "cf_gtid_memory_cache_seconds cf" and ?mg = "init_gtid_seq cf now mg"
  have f: "mg_gtid_seq_file mg = Some (sq.file_of (qs @ [r]))" using assms(1) by (simp add: sq.file_of_def)
  have v: "version (read_last_valid_gtid_seq mg GtidSeq_init) = version r"
    using last_valid_file[OF assms(2,3)] by (simp add: read_last_valid_gtid_seq_def f)
  have ls: "std_lines (sq.file_of (qs @ [r])) = map GtidSeq_serialize (qs @ [r])"
    using sq.std_lines_file[OF assms(2)] .
  have i: "?mg = (load_lines (version r) ?secs (map GtidSeq_serialize (qs @ [r])) GtidSeq_init mg)
      \<lparr>mg_first_entry_after_restarted := True\<rparr>"
    using assms(3) v by (simp add: init_gtid_seq_def f ls[simplified])
  have set: "mg_gtid_seq_set ?mg = map (\<lambda>q. (version q, GtidSeq_serialize q))
      (filter (\<lambda>q. version r - version q < ucast ?secs) (qs @ [r]))"
    using load_lines_file[OF assms(2), of "version r" ?secs GtidSeq_init mg] assms(4) unfolding i by simp
  have "(0 :: u64) < ucast ?secs" using assms(5) unat_ucast_small[of ?secs, where 'b = 64] unat_bound[of ?secs]
    by (simp add: word_less_nat_alt)
  then have last: "mg_gtid_seq_set ?mg \<noteq> []" "last (mg_gtid_seq_set ?mg) = (version r, GtidSeq_serialize r)"
    unfolding set by simp_all
  have "seq_ok r" "mg_first_entry_after_restarted ?mg" using assms(2) by (simp_all add: i)
  then show ?thesis using set last by (simp add: get_latest_gtid_seq_def save_gtid_seq_def)
qed

theorem restart_reloads_mapping_witness:
  "get_latest_gtid_seq (init_gtid_seq some_config 99
      (new_manager\<lparr>mg_gtid_seq_file := Some (concat (map (\<lambda>q. GtidSeq_serialize q @ [LF]) ([seq_at 10 1] @ [seq_at 20 5])))\<rparr>))
      GtidSeq_init = (True, seq_at 20 5) \<and>
   length (mg_gtid_seq_set (init_gtid_seq some_config 99
      (new_manager\<lparr>mg_gtid_seq_file := Some (concat (map (\<lambda>q. GtidSeq_serialize q @ [LF]) ([seq_at 10 1] @ [seq_at 20 5])))\<rparr>))) = 2"
  using restart_reloads_mapping [of "new_manager\<lparr>mg_gtid_seq_file :=
      Some (concat (map (\<lambda>q. GtidSeq_serialize q @ [LF]) ([seq_at 10 1] @ [seq_at 20 5])))\<rparr>" "[seq_at 10 1]" "seq_at 20 5"
      some_config 99 GtidSeq_init "seq_at 10 1"]
  by (simp add: seq_at_ok new_manager_def some_config_def)

end
