(* ===== verification/Recovery.thy ===== *)
theory Recovery
  imports EventScan GtidManager
begin

text \<open>
  Starting a binlog instance on the files of its last run: \<^verbatim>\<open>preprocess_breakpoint_binlog\<close> of
  \<^verbatim>\<open>binlog-instance/binlog_instance_entry.cpp\<close>, which repairs the last binlog file and its index record, and
  \<^verbatim>\<open>BinlogStorage::init_restart_point\<close> of \<^verbatim>\<open>binlog-instance/binlog_storage.cpp\<close>, which finds the transaction to
  continue from.  The optional copy of the two files to a backup directory is left out: nothing reads it back.
  Opening the file for the scan creates it when it is missing; resizing a file cuts it or appends zeros.
\<close>

section \<open>Definitions\<close>

definition content_of :: "string \<Rightarrow> BinlogIndexManager \<Rightarrow> byte list" where
  "content_of name im = (case im_binlog_files im name of None \<Rightarrow> [] | Some bs \<Rightarrow> bs)"

definition set_content :: "string \<Rightarrow> byte list \<Rightarrow> BinlogIndexManager \<Rightarrow> BinlogIndexManager" where
  "set_content name bs im = im\<lparr>im_binlog_files := (im_binlog_files im)(name \<mapsto> bs)\<rparr>"

definition resize_file :: "string \<Rightarrow> nat \<Rightarrow> BinlogIndexManager \<Rightarrow> BinlogIndexManager" where
  "resize_file name n im = set_content name (take n (content_of name im) @ replicate (n - length (content_of name im)) 0) im"

definition ignoring :: "(bool \<times> 'a) option \<Rightarrow> (bool \<times> 'a) loop_result" where
  "ignoring r = then_loop r (\<lambda>(ok, x). Finished (True, x))"

definition reporting :: "(bool \<times> 'a) option \<Rightarrow> (bool \<times> 'a) loop_result" where
  "reporting r = then_loop r Finished"

type_synonym scan = "byte list \<Rightarrow> u64 \<Rightarrow> (bool \<times> BinlogTrxOverview) loop_result"

text \<open>The index file is behind the binlog file or agrees with it: the unfinished transaction is cut off.\<close>

definition cut_unfinished ::
  "BinlogIndexRecord \<Rightarrow> BinlogTrxOverview \<Rightarrow> BinlogIndexManager \<Rightarrow> (bool \<times> BinlogIndexManager) loop_result" where
  "cut_unfinished r trx im =
     (let name = ir_file_name r; file_size = of_nat (length (content_of name im)) :: u64;
          im' = (if last_complete_trx_end_pos trx < file_size
                 then resize_file name (unat (last_complete_trx_end_pos trx)) im else im);
          correct = (if last_complete_trx_gtid trx > 0
                     then r\<lparr>ir_position := last_complete_trx_end_pos trx, ir_current_mapping := ir_before_mapping r\<rparr>
                     else r\<lparr>ir_before_mapping := ([], 0)\<rparr>)
      in ignoring (update_index correct im'))"

text \<open>The binlog file lags behind the index file: it is cut back to a transaction the mapping file knows.\<close>

definition cut_to_mapping ::
  "scan \<Rightarrow> GtidManager \<Rightarrow> BinlogIndexRecord \<Rightarrow> BinlogTrxOverview \<Rightarrow> BinlogIndexManager \<Rightarrow>
   (bool \<times> BinlogIndexManager) loop_result" where
  "cut_to_mapping seek mg r trx im =
     (case get_first_le_gtid_seq (last_complete_trx_gtid trx) mg of
        None \<Rightarrow> Finished (False, im)
      | Some q \<Rightarrow>
          (case seek (content_of (ir_file_name r) im) (sq_gtid_start q) of
             Running \<Rightarrow> Running
           | Fault \<Rightarrow> Fault
           | Finished (ok, trx') \<Rightarrow>
               if \<not> ok then Finished (False, im)
               else if trx_specify_truncated_end_pos trx' = 0 then reporting (remove_binlog r im)
               else ignoring (update_index
                      (r\<lparr>ir_position := trx_specify_truncated_end_pos trx',
                         ir_current_mapping := (sq_xid_start q, sq_gtid_start q), ir_checkpoint := sq_commit_version_start q\<rparr>)
                      (resize_file (ir_file_name r) (unat (trx_specify_truncated_end_pos trx')) im))))"

text \<open>The binlog file is ahead of the index file: it is cut back to the transaction before the indexed one.\<close>

definition cut_to_before ::
  "BinlogIndexRecord \<Rightarrow> BinlogTrxOverview \<Rightarrow> BinlogIndexManager \<Rightarrow> (bool \<times> BinlogIndexManager) loop_result" where
  "cut_to_before r trx im =
     (if trx_specify_truncated_end_pos trx \<noteq> 0
      then ignoring (update_index
             (r\<lparr>ir_position := trx_specify_truncated_end_pos trx, ir_current_mapping := ir_before_mapping r\<rparr>)
             (resize_file (ir_file_name r) (unat (trx_specify_truncated_end_pos trx)) im))
      else reporting (remove_binlog r im))"

definition preprocess_breakpoint_binlog ::
  "scan \<Rightarrow> string \<Rightarrow> GtidManager \<Rightarrow> BinlogIndexManager \<Rightarrow> (bool \<times> BinlogIndexManager) loop_result" where
  "preprocess_breakpoint_binlog seek fresh mg im =
     then_loop (get_latest_index fresh im BinlogIndexRecord_init) (\<lambda>(_, r).
       if ir_file_name r = [] then Finished (True, im)
       else let im = set_content (ir_file_name r) (content_of (ir_file_name r) im) im in
         (case seek (content_of (ir_file_name r) im) (snd (ir_before_mapping r)) of
            Running \<Rightarrow> Running
          | Fault \<Rightarrow> Fault
          | Finished (ok, trx) \<Rightarrow>
              if \<not> ok then Finished (False, im)
              else if \<not> has_previous_gtids_event trx then reporting (remove_binlog r im)
              else if last_complete_trx_gtid trx \<le> snd (ir_current_mapping r) \<and>
                      snd (ir_before_mapping r) \<le> last_complete_trx_gtid trx
              then if trx_need_truncated_gtid trx = 0
                   then let file_size = of_nat (length (content_of (ir_file_name r) im)) in
                     if ir_position r \<noteq> file_size then ignoring (update_index (r\<lparr>ir_position := file_size\<rparr>) im)
                     else Finished (True, im)
                   else cut_unfinished r trx im
              else if last_complete_trx_gtid trx = 0 \<and> trx_need_truncated_gtid trx = 0 then Finished (True, im)
              else if last_complete_trx_gtid trx < snd (ir_before_mapping r) then cut_to_mapping seek mg r trx im
              else cut_to_before r trx im))"

text \<open>The scan of the program: \<^const>\<open>seek_and_verify_complete_trx\<close> on the file, asked for a transaction.\<close>

definition seek_trx :: "nat \<Rightarrow> crc32 \<Rightarrow> reader \<Rightarrow> byte list \<Rightarrow> scan" where
  "seek_trx fuel crc rd stack bs gtid = seek_and_verify_complete_trx fuel crc rd stack (Some bs) (specify gtid)"

text \<open>The members of \<^verbatim>\<open>BinlogStorage\<close> but its threads, queues and timers; the start time is the one of the CDC
  configuration, which the storage sets.\<close>

record BinlogStorage =
  st_file_name :: string
  st_offset :: u64
  st_valid_events_coming :: bool
  st_txn_gtid_seq :: u64
  st_xid :: u64
  st_cur_pos :: u32
  st_binlog_file_index :: u64
  st_txn_mapping :: mapping_pair
  st_filter_util_checkpoint_trx :: bool
  st_meet_initial_trx :: bool
  st_filter_checkpoint_trx :: bool
  st_first_gtid_seq :: u64
  st_previous_gtid_messages :: "GtidMessage list"
  st_last_record_ts :: u64
  st_index_record :: BinlogIndexRecord
  st_start_timestamp :: u64

definition BinlogStorage_init :: "u64 \<Rightarrow> BinlogStorage" where
  "BinlogStorage_init start_timestamp = \<lparr>st_file_name = [], st_offset = 0, st_valid_events_coming = False, st_txn_gtid_seq = 1,
     st_xid = 0, st_cur_pos = 0, st_binlog_file_index = 0, st_txn_mapping = ([], 0), st_filter_util_checkpoint_trx = True,
     st_meet_initial_trx = False, st_filter_checkpoint_trx = True, st_first_gtid_seq = 1, st_previous_gtid_messages = [],
     st_last_record_ts = 0, st_index_record = BinlogIndexRecord_init, st_start_timestamp = start_timestamp\<rparr>"

text \<open>\<^verbatim>\<open>interval\<close> is a signed 32-bit integer that is compared with two unsigned settings, so it is converted to
  their widths first.  \<^verbatim>\<open>trx_ts\<close> is the commit time of the last GTID event, 0 when there is none.\<close>

definition init_restart_point ::
  "u32 \<Rightarrow> u64 \<Rightarrow> GtidManager \<Rightarrow> BinlogIndexRecord \<Rightarrow> u64 \<Rightarrow> BinlogStorage \<Rightarrow> bool \<times> BinlogStorage" where
  "init_restart_point heartbeat_duration expire_seconds mg r trx_ts st =
     (let (has_last, q) = get_latest_gtid_seq mg GtidSeq_init;
          interval = (ucast (sq_commit_version_start q - ir_checkpoint r) :: 32 word)
      in if has_last \<and> (interval > heartbeat_duration \<or> scast interval > expire_seconds) \<and>
            sq_commit_version_start q > trx_ts \<and> sq_gtid_start q = snd (ir_current_mapping r) \<and>
            sq_xid_start q = [] \<and> sq_trxs_num q = 0
         then (True, st\<lparr>st_filter_util_checkpoint_trx := False, st_filter_checkpoint_trx := False,
                        st_start_timestamp := sq_commit_version_start q, st_txn_gtid_seq := sq_gtid_start q + 1\<rparr>)
         else if st_txn_gtid_seq st \<noteq> snd (ir_current_mapping r) \<and> st_txn_gtid_seq st \<noteq> snd (ir_before_mapping r)
         then (False, st)
         else let name = (if st_txn_gtid_seq st = snd (ir_current_mapping r) then fst (ir_current_mapping r)
                          else fst (ir_before_mapping r));
                  st = st\<lparr>st_txn_mapping := (name, st_txn_gtid_seq st)\<rparr>
              in if name = []
                 then (True, st\<lparr>st_txn_gtid_seq := st_txn_gtid_seq st + 1, st_start_timestamp := ir_checkpoint r\<rparr>)
                 else if \<not> has_last then (True, st\<lparr>st_start_timestamp := ir_checkpoint r\<rparr>)
                 else (case get_first_le_gtid_seq (st_txn_gtid_seq st) mg of
                         None \<Rightarrow> (False, st)
                       | Some q' \<Rightarrow> (True, st\<lparr>st_start_timestamp := sq_commit_version_start q'\<rparr>)))"


section \<open>Recovery of a crash\<close>

text \<open>The last record of the index and the file it names, as the instance finds them at its start.\<close>

definition left_behind :: "BinlogIndexManager \<Rightarrow> BinlogIndexRecord list \<Rightarrow> BinlogIndexRecord \<Rightarrow> byte list \<Rightarrow> bool" where
  "left_behind im rs r bs \<longleftrightarrow> represents im (rs @ [r]) \<and> ir_file_name r \<noteq> [] \<and> im_binlog_files im (ir_file_name r) = Some bs"

lemma left_behind_simps:
  assumes "left_behind im rs r bs"
  shows "get_latest_index fresh im r0 = Some (True, r)" "ir_file_name r \<noteq> []" "content_of (ir_file_name r) im = bs"
    "set_content (ir_file_name r) (content_of (ir_file_name r) im) im = im" "represents im (rs @ [r])" "record_ok r"
  using assms latest_represented[of im rs r fresh r0]
  by (auto simp: left_behind_def content_of_def set_content_def represents_def fun_upd_idem)

lemma placed_bound: "placed pos is \<Longrightarrow> is \<noteq> [] \<Longrightarrow> pos + items_len is < 2 ^ 32"
proof (induction "is" arbitrary: pos)
  case (Cons i "is")
  then show ?case
    using unat_bound[of "eh_next_position (item_hdr i)"] Cons.IH[of "pos + item_len i"]
    by (cases "is = []") (simp_all add: add.assoc)
qed simp

lemma crash_file_complete:
  "crash_file crc hs ts opened i k = crash_file crc hs ts [] i 0 @ items_bytes crc opened @ take k (item_bytes crc i)"
  by (simp add: crash_file_def)

lemma complete_length:
  assumes "well_written rd hs ts opened i missing"
  shows "length (crash_file crc hs ts [] i 0) < 2 ^ 32"
proof -
  have "placed 4 (hs @ concat ts)" "list_all (item_ok rd) (hs @ concat ts)" "hs \<noteq> []"
    using assms by (auto simp: well_written_def placed_append file_head_def)
  then show ?thesis
    using placed_bound[of 4 "hs @ concat ts"] items_len_bytes[of rd "hs @ concat ts" crc]
    by (simp add: crash_file_def binlog_magic_def)
qed

lemma crash_file_length:
  assumes w: "well_written rd hs ts opened i missing" and "k < item_len i"
  shows "length (crash_file crc hs ts opened i k) < 2 ^ 63"
proof -
  have "4 + items_len (hs @ concat ts @ opened) + item_len i < 2 ^ 32"
    using written_parts(4)[OF w] unat_bound[of "eh_next_position (item_hdr i)"] by simp
  moreover have "length (crash_file crc hs ts opened i k) = 4 + items_len (hs @ concat ts @ opened) + k"
    using written_parts(5)[OF w, of crc] item_bytes_length[OF written_parts(2)[OF w], of crc] assms(2)
    unfolding crash_file_def append_assoc[symmetric] by (simp only: length_append length_take)
  ultimately have "length (crash_file crc hs ts opened i k) < 2 ^ 32" using assms(2) by linarith
  then show ?thesis by (rule less_trans) simp
qed

lemma opened_gtid: "well_written rd hs ts opened i missing \<Longrightarrow> opened \<noteq> [] \<Longrightarrow> \<exists>e mid. opened = GtidItem e # mid"
  by (cases opened rule: complete_trx.cases) (auto simp: well_written_def)

text \<open>Cutting the file back to its complete transactions and correcting the index.\<close>

lemma cut_unfinished_crash:
  assumes "left_behind im rs r (done @ rest)" "rest \<noteq> []" "length done < 2 ^ 32" "length rest < 2 ^ 63"
    and "last_complete_trx_end_pos trx = of_nat (length done)" "last_complete_trx_gtid trx > 0"
  shows "\<exists>im'. cut_unfinished r trx im = Finished (True, im') \<and>
      left_behind im' rs (r\<lparr>ir_position := of_nat (length done), ir_current_mapping := ir_before_mapping r\<rparr>) done \<and>
      im_memory_index_record im' = r\<lparr>ir_position := of_nat (length done), ir_current_mapping := ir_before_mapping r\<rparr>"
proof -
  let ?r = "r\<lparr>ir_position := of_nat (length done), ir_current_mapping := ir_before_mapping r\<rparr>"
  let ?im = "resize_file (ir_file_name r) (length done) im"
  note b = left_behind_simps[OF assms(1)]
  have conv: "unat (of_nat n :: u64) = n" if "n < 2 ^ 64" for n using that by (simp add: unat_of_nat)
  have pos: "unat (of_nat (length done) :: u64) = length done" using conv assms(3) by simp
  have cut: "(of_nat (length done) :: u64) < of_nat (length (done @ rest))"
    using pos assms(2-4) conv[of "length (done @ rest)"] by (simp only: word_less_nat_alt) simp
  have ok: "record_ok ?r" using b(6) pos assms(3) by (simp add: record_ok_def)
  have im: "represents ?im (rs @ [r])" "im_binlog_files ?im (ir_file_name r) = Some done"
    using b(3,5) by (simp_all add: represents_def resize_file_def set_content_def)
  obtain im' where u: "update_index ?r ?im = Some (True, im')" "represents im' (rs @ [?r])"
    "im_memory_index_record im' = ?r" "im_binlog_files im' = im_binlog_files ?im"
    using update_represented[OF im(1) ok] by blast
  have "cut_unfinished r trx im = Finished (True, im')"
    using u(1) cut assms(5,6) pos b(3) by (simp add: cut_unfinished_def ignoring_def Let_def)
  then show ?thesis using u im(2) b(2) by (auto simp: left_behind_def)
qed


text \<open>The scan of the file a crash left inside a transaction, and the branch the overview selects.\<close>

lemma crash_overview:
  assumes "well_written rd hs (ts @ [t]) opened i missing"
    and "k < item_len i" "is_xid i \<longrightarrow> k < 19" "item_flag (last t) = CRC32"
    and "length (hs @ concat (ts @ [t]) @ opened) < fuel"
  obtains trx where "seek_trx fuel crc rd stack (crash_file crc hs (ts @ [t]) opened i k) gtid = Finished (True, trx)"
    "has_previous_gtids_event trx" "last_complete_trx_gtid trx = gtid_of t"
    "last_complete_trx_end_pos trx = of_nat (length (crash_file crc hs (ts @ [t]) [] i 0))"
    "trx_need_truncated_gtid trx = (if opened = [] then 0 else gtid_of opened)"
    "trx_specify_truncated_end_pos trx =
       last (0 # map (fst \<circ> snd) (filter (\<lambda>x. fst x = gtid) (trx_log (4 + items_len hs) (ts @ [t]))))"
  using crash_file_scan[OF assms, of crc stack gtid] unfolding seek_trx_def by blast

lemma crash_recovered:
  assumes "left_behind im rs r (crash_file crc hs (ts @ [t]) opened i k)"
    and w: "well_written rd hs (ts @ [t]) opened i missing"
    and "k < item_len i" "is_xid i \<longrightarrow> k < 19" "item_flag (last t) = CRC32"
    and "length (hs @ concat (ts @ [t]) @ opened) < fuel"
    and "snd (ir_before_mapping r) \<le> gtid_of t" "gtid_of t \<le> snd (ir_current_mapping r)" "0 < gtid_of t"
    and "gtid_of opened \<noteq> 0"
  shows "\<exists>im'. preprocess_breakpoint_binlog (seek_trx fuel crc rd stack) fresh mg im = Finished (True, im') \<and>
      left_behind im' rs (r\<lparr>ir_position := of_nat (length (crash_file crc hs (ts @ [t]) [] i 0)),
                            ir_current_mapping := ir_before_mapping r\<rparr>) (crash_file crc hs (ts @ [t]) [] i 0) \<and>
      im_memory_index_record im' = r\<lparr>ir_position := of_nat (length (crash_file crc hs (ts @ [t]) [] i 0)),
                                     ir_current_mapping := ir_before_mapping r\<rparr>"
proof -
  let ?done = "crash_file crc hs (ts @ [t]) [] i 0" and ?rest = "items_bytes crc opened @ take k (item_bytes crc i)"
  obtain trx where trx: "seek_trx fuel crc rd stack (crash_file crc hs (ts @ [t]) opened i k) (snd (ir_before_mapping r)) =
      Finished (True, trx)" "has_previous_gtids_event trx" "last_complete_trx_gtid trx = gtid_of t"
    "last_complete_trx_end_pos trx = of_nat (length ?done)" "trx_need_truncated_gtid trx = (if opened = [] then 0 else gtid_of opened)"
    by (rule crash_overview[OF w assms(3-6)])
  have ne: "opened \<noteq> []" using assms(10) by auto
  have "list_all (item_ok rd) opened" and long: "items_len opened < 2 ^ 32"
    using w placed_bound[of 4 "hs @ concat (ts @ [t]) @ opened"] ne by (auto simp: well_written_def placed_append)
  then have "length (items_bytes crc opened) = items_len opened" by (intro items_len_bytes)
  moreover have full: "length (items_bytes crc opened) > 0"
    using ne \<open>list_all (item_ok rd) opened\<close> item_bytes_length[of rd _ crc] item_long[of rd] by (cases opened) fastforce+
  moreover have "length (take k (item_bytes crc i)) < 2 ^ 32"
    using unat_bound[of "eh_event_length (item_hdr i)"] assms(3) by (simp add: min_def)
  ultimately have rest: "length ?rest < 2 ^ 63" using long by (simp only: length_append) simp
  have "?rest \<noteq> []" using full by (simp only: length_greater_0_conv append_is_Nil_conv) simp
  obtain im' where im': "cut_unfinished r trx im = Finished (True, im')"
      "left_behind im' rs (r\<lparr>ir_position := of_nat (length ?done), ir_current_mapping := ir_before_mapping r\<rparr>) ?done"
      "im_memory_index_record im' = r\<lparr>ir_position := of_nat (length ?done), ir_current_mapping := ir_before_mapping r\<rparr>"
    using cut_unfinished_crash[of im rs r ?done ?rest trx] rest \<open>?rest \<noteq> []\<close> complete_length[OF w, of crc] assms(1,9) trx
    unfolding crash_file_complete[of crc hs "ts @ [t]" opened i k] by auto
  note b = left_behind_simps[OF assms(1)]
  have "preprocess_breakpoint_binlog (seek_trx fuel crc rd stack) fresh mg im = Finished (True, im')"
    unfolding preprocess_breakpoint_binlog_def b(1) then_loop.simps prod.case Let_def b(4)
    using b(2,3) trx ne assms(7,8,10) im'(1) by simp
  then show ?thesis using im' by blast
qed


text \<open>When no GTID event of the transaction is complete there is no number to cut off, and the file stays.\<close>

lemma crash_kept:
  assumes "left_behind im rs r (crash_file crc hs (ts @ [t]) opened i k)"
    and w: "well_written rd hs (ts @ [t]) opened i missing"
    and "k < item_len i" "is_xid i \<longrightarrow> k < 19" "item_flag (last t) = CRC32"
    and "length (hs @ concat (ts @ [t]) @ opened) < fuel"
    and "snd (ir_before_mapping r) \<le> gtid_of t" "gtid_of t \<le> snd (ir_current_mapping r)" "gtid_of opened = 0"
  shows "\<exists>im'. preprocess_breakpoint_binlog (seek_trx fuel crc rd stack) fresh mg im = Finished (True, im') \<and>
      left_behind im' rs (r\<lparr>ir_position := of_nat (length (crash_file crc hs (ts @ [t]) opened i k))\<rparr>)
        (crash_file crc hs (ts @ [t]) opened i k) \<and>
      (im_memory_index_record im' = r\<lparr>ir_position := of_nat (length (crash_file crc hs (ts @ [t]) opened i k))\<rparr> \<or> im' = im)"
proof -
  let ?file = "crash_file crc hs (ts @ [t]) opened i k"
  let ?r = "r\<lparr>ir_position := of_nat (length ?file)\<rparr>"
  obtain trx where trx: "seek_trx fuel crc rd stack ?file (snd (ir_before_mapping r)) = Finished (True, trx)"
    "has_previous_gtids_event trx" "last_complete_trx_gtid trx = gtid_of t" "trx_need_truncated_gtid trx = 0"
    using crash_overview[OF w assms(3-6)] assms(9) by metis
  note b = left_behind_simps[OF assms(1)]
  have run: "preprocess_breakpoint_binlog (seek_trx fuel crc rd stack) fresh mg im =
      (if ir_position r \<noteq> of_nat (length ?file) then ignoring (update_index ?r im) else Finished (True, im))"
    unfolding preprocess_breakpoint_binlog_def b(1) then_loop.simps prod.case Let_def b(4)
    using b(2,3) trx assms(7,8) by simp
  show ?thesis
  proof (cases "ir_position r = of_nat (length ?file)")
    case True
    have same: "?r = r" unfolding True[symmetric] by simp
    show ?thesis unfolding same using run True assms(1) by simp
  next
    case False
    have "record_ok ?r" using b(6) crash_file_length[OF w assms(3), of crc] by (simp add: record_ok_def unat_of_nat_small)
    then obtain im' where "update_index ?r im = Some (True, im')" "represents im' (rs @ [?r])"
      "im_memory_index_record im' = ?r" "im_binlog_files im' = im_binlog_files im"
      using update_represented[OF b(5)] by blast
    then show ?thesis using run False assms(1) by (simp add: ignoring_def left_behind_def)
  qed
qed

section \<open>Properties\<close>

text \<open>C5. Recovery after a crash inside a transaction, at any byte but those of the body of a final XID event, when the last
  complete transaction carries a checksum and lies between the two the index names.  Once the GTID event of the unfinished
  transaction is complete, the file is cut to exactly the bytes of its complete transactions.  Before that, when only a part
  of the GTID event reached the file, nothing is cut: the torn bytes stay.  In both cases the last record of the
  index points at the end of the file as it is then, and all other records and their order stay as they were.\<close>

theorem recovery_truncates:
  assumes "left_behind im rs r (crash_file crc hs (ts @ [t]) opened i k)"
    and "well_written rd hs (ts @ [t]) opened i missing"
    and "k < item_len i" "is_xid i \<longrightarrow> k < 19" "item_flag (last t) = CRC32"
    and "length (hs @ concat (ts @ [t]) @ opened) < fuel"
    and "snd (ir_before_mapping r) \<le> gtid_of t" "gtid_of t \<le> snd (ir_current_mapping r)" "0 < gtid_of t"
    and "repaired = (if gtid_of opened \<noteq> 0 then crash_file crc hs (ts @ [t]) [] i 0 else crash_file crc hs (ts @ [t]) opened i k)"
  shows "\<exists>im' r'. preprocess_breakpoint_binlog (seek_trx fuel crc rd stack) fresh mg im = Finished (True, im') \<and>
      im_binlog_files im' (ir_file_name r) = Some repaired \<and>
      represents im' (rs @ [r']) \<and> (im_memory_index_record im' = r' \<or> im' = im) \<and> ir_file_name r' = ir_file_name r \<and>
      unat (ir_position r') = length repaired \<and> (gtid_of opened \<noteq> 0 \<longrightarrow> im_memory_index_record im' = r')"
proof (cases "gtid_of opened = 0")
  case True
  let ?r = "r\<lparr>ir_position := of_nat (length repaired)\<rparr>"
  have rep: "repaired = crash_file crc hs (ts @ [t]) opened i k" using assms(10) True by simp
  obtain im' where "preprocess_breakpoint_binlog (seek_trx fuel crc rd stack) fresh mg im = Finished (True, im')"
    "left_behind im' rs ?r repaired" "im_memory_index_record im' = ?r \<or> im' = im"
    using crash_kept[OF assms(1-8) True] unfolding rep by blast
  moreover have "unat (of_nat (length repaired) :: u64) = length repaired"
    using crash_file_length[OF assms(2,3), of crc] unfolding rep by (simp add: unat_of_nat_small)
  ultimately show ?thesis using True by (intro exI[of _ im'] exI[of _ ?r]) (simp add: left_behind_def)
next
  case False
  let ?r = "r\<lparr>ir_position := of_nat (length repaired), ir_current_mapping := ir_before_mapping r\<rparr>"
  have rep: "repaired = crash_file crc hs (ts @ [t]) [] i 0" using assms(10) False by simp
  obtain im' where "preprocess_breakpoint_binlog (seek_trx fuel crc rd stack) fresh mg im = Finished (True, im')"
    "left_behind im' rs ?r repaired" "im_memory_index_record im' = ?r"
    using crash_recovered[OF assms(1-9) False] unfolding rep by blast
  moreover have "unat (of_nat (length repaired) :: u64) = length repaired"
    using complete_length[OF assms(2), of crc] unfolding rep by simp
  ultimately show ?thesis by (intro exI[of _ im'] exI[of _ ?r]) (simp add: left_behind_def)
qed

definition cut_record :: "u64 \<Rightarrow> u64 \<Rightarrow> BinlogIndexRecord" where
  "cut_record before current = \<lparr>ir_file_name = ''b1'', ir_index = 1, ir_before_mapping = (''x'', before),
     ir_current_mapping = (''y'', current), ir_checkpoint = 5, ir_position = 203\<rparr>"

definition cut_manager :: "u64 \<Rightarrow> u64 \<Rightarrow> BinlogIndexManager" where
  "cut_manager before current = \<lparr>im_index_file = Some (BinlogIndexRecord_to_string (cut_record before current)),
     im_memory_index_record = BinlogIndexRecord_init,
     im_binlog_files = [''b1'' \<mapsto> crash_file crc_zero small_head [[GtidItem (small_gtid 9 107), XidItem (small_xid 138)]]
                [GtidItem (small_gtid 10 203)] (XidItem (small_xid 234)) 18]\<rparr>"

definition no_mapping :: GtidManager where
  "no_mapping = \<lparr>mg_nof_trx = 0, mg_curr_hb_checkpoint = 0, mg_curr_trx_checkpoint = 0,
     mg_last_saved_commit_version_high = 0, mg_gtid_seq_file = None, mg_first_entry_after_restarted = False,
     mg_gtid_checkpoint_set = [], mg_last_gtid_purged = 0, mg_last_checkpoint_purged = 0, mg_gtid_seq_set = [],
     mg_gtid_purged_set = [], mg_gtid_executed_set = [], mg_global_var = Map.empty\<rparr>"

lemma cut_manager_left:
  "left_behind (cut_manager before current) [] (cut_record before current)
     (crash_file crc_zero small_head ([] @ [[GtidItem (small_gtid 9 107), XidItem (small_xid 138)]])
                [GtidItem (small_gtid 10 203)] (XidItem (small_xid 234)) 18)"
  by (simp add: left_behind_def cut_manager_def represents_def cut_record_def record_ok_def name_ok_def TAB_def LF_def NUL_def)

lemma cut_small:
  "well_written small_reader small_head ([] @ [[GtidItem (small_gtid 9 107), XidItem (small_xid 138)]])
     [GtidItem (small_gtid 10 203)] (XidItem (small_xid 234)) []"
  "18 < item_len (XidItem (small_xid 234))"
  "is_xid (XidItem (small_xid 234)) \<longrightarrow> (18 :: nat) < 19"
  "item_flag (last [GtidItem (small_gtid 9 107), XidItem (small_xid 138)]) = CRC32"
  "length (small_head @ concat ([] @ [[GtidItem (small_gtid 9 107), XidItem (small_xid 138)]]) @ [GtidItem (small_gtid 10 203)]) < 6"
  using small_written[of small_reader] small_xid_ok(2)[of 234] small_xid_ok(4)[of 138] small_head_ok(5)
  by (simp_all del: item_hdr.simps item_flag.simps gtid_of.simps)

text \<open>The same file one event earlier: 30 bytes of the GTID event of the next transaction.\<close>

definition torn_gtid :: "byte list" where
  "torn_gtid = crash_file crc_zero small_head ([] @ [[GtidItem (small_gtid 9 107), XidItem (small_xid 138)]]) []
     (GtidItem (small_gtid 10 203)) 30"

definition torn_manager :: BinlogIndexManager where
  "torn_manager = (cut_manager 9 10)\<lparr>im_binlog_files := [''b1'' \<mapsto> torn_gtid]\<rparr>"

lemma torn_manager_left: "left_behind torn_manager [] (cut_record 9 10) torn_gtid"
  using cut_manager_left[of 9 10] by (simp add: left_behind_def torn_manager_def represents_def cut_record_def)

lemma torn_small:
  "well_written small_reader small_head ([] @ [[GtidItem (small_gtid 9 107), XidItem (small_xid 138)]]) []
     (GtidItem (small_gtid 10 203)) [XidItem (small_xid 234)]"
  "30 < item_len (GtidItem (small_gtid 10 203))" "is_xid (GtidItem (small_gtid 10 203)) \<longrightarrow> (30 :: nat) < 19"
  "item_flag (last [GtidItem (small_gtid 9 107), XidItem (small_xid 138)]) = CRC32"
  "length (small_head @ concat ([] @ [[GtidItem (small_gtid 9 107), XidItem (small_xid 138)]]) @ []) < 6"
  using small_gtid_ok small_xid_ok small_head_ok
  by (simp_all add: well_written_def placed_append del: item_ok.simps item_hdr.simps item_flag.simps gtid_of.simps)

theorem recovery_truncates_witness:
  "(\<exists>im' r'. preprocess_breakpoint_binlog (seek_trx 6 crc_zero small_reader [0, 0, 0, 0]) [] no_mapping (cut_manager 9 10) =
       Finished (True, im') \<and>
     im_binlog_files im' ''b1'' = Some (crash_file crc_zero small_head ([] @ [[GtidItem (small_gtid 9 107), XidItem (small_xid 138)]])
       [] (XidItem (small_xid 234)) 0) \<and>
     represents im' [r'] \<and> im_memory_index_record im' = r') \<and>
   (\<exists>im' r'. preprocess_breakpoint_binlog (seek_trx 6 crc_zero small_reader [0, 0, 0, 0]) [] no_mapping torn_manager =
       Finished (True, im') \<and>
     im_binlog_files im' ''b1'' = Some torn_gtid \<and> represents im' [r'] \<and> unat (ir_position r') = length torn_gtid)"
proof (rule conjI, goal_cases)
  case 1
  show ?case
    using recovery_truncates [OF cut_manager_left cut_small _ _ _ refl, of 9 10 "[0, 0, 0, 0]" "[]" no_mapping] small_gtid_ok(4)
    by (auto simp: cut_record_def simp del: gtid_of.simps)
next
  case 2
  show ?case
    using recovery_truncates [OF torn_manager_left[unfolded torn_gtid_def] torn_small _ _ _ refl, of "[0, 0, 0, 0]" "[]" no_mapping]
      small_gtid_ok(4)
    unfolding torn_gtid_def[symmetric] by (auto simp: cut_record_def torn_gtid_def simp del: gtid_of.simps(1))
qed

text \<open>A mapping file whose newest entry belongs to a transaction, and that has an entry for a number.\<close>

definition usable_mapping :: "GtidManager \<Rightarrow> u64 \<Rightarrow> bool" where
  "usable_mapping mg gtid \<longleftrightarrow> mg_gtid_seq_set mg = [] \<or>
     sq_xid_start (snd (get_latest_gtid_seq mg GtidSeq_init)) \<noteq> [] \<and> get_first_le_gtid_seq gtid mg \<noteq> None"

lemma restart_matches:
  assumes "usable_mapping mg (st_txn_gtid_seq rp)"
  shows "fst (init_restart_point hb ex mg r ts rp) \<longleftrightarrow>
    st_txn_gtid_seq rp = snd (ir_current_mapping r) \<or> st_txn_gtid_seq rp = snd (ir_before_mapping r)"
  using assms
  by (cases "mg_gtid_seq_set mg = []")
     (auto simp: init_restart_point_def get_latest_gtid_seq_def usable_mapping_def Let_def split: option.splits)

text \<open>C6. Restarting after the recovery of a crash inside a transaction whose GTID event is complete, with a mapping file
  that is empty or ends with a transaction and has an entry for the last complete one.  The instance finds the transaction to
  continue from exactly when the last complete transaction of the file is the one the index names as the
  previous one.  When it is the current one - the events of the next transaction reached the file before the
  index was updated - recovery has overwritten its mapping and the restart fails.\<close>

theorem restart_after_recovery:
  assumes "left_behind im rs r (crash_file crc hs (ts @ [t]) opened i k)"
    and "well_written rd hs (ts @ [t]) opened i missing"
    and "k < item_len i" "is_xid i \<longrightarrow> k < 19" "item_flag (last t) = CRC32"
    and "length (hs @ concat (ts @ [t]) @ opened) < fuel"
    and "snd (ir_before_mapping r) \<le> gtid_of t" "gtid_of t \<le> snd (ir_current_mapping r)" "0 < gtid_of t"
    and "gtid_of opened \<noteq> 0" "usable_mapping mg (gtid_of t)" "st_txn_gtid_seq rp = gtid_of t"
  shows "\<exists>im' r'. preprocess_breakpoint_binlog (seek_trx fuel crc rd stack) fresh mg im = Finished (True, im') \<and>
      get_latest_index fresh' im' r0 = Some (True, r') \<and>
      (fst (init_restart_point hb ex mg r' ts' rp) \<longleftrightarrow> gtid_of t = snd (ir_before_mapping r))"
proof -
  let ?r = "r\<lparr>ir_position := of_nat (length (crash_file crc hs (ts @ [t]) [] i 0)), ir_current_mapping := ir_before_mapping r\<rparr>"
  obtain im' where "preprocess_breakpoint_binlog (seek_trx fuel crc rd stack) fresh mg im = Finished (True, im')"
    and l: "left_behind im' rs ?r (crash_file crc hs (ts @ [t]) [] i 0)"
    using crash_recovered[OF assms(1-10)] by blast
  moreover have "fst (init_restart_point hb ex mg ?r ts' rp) \<longleftrightarrow> gtid_of t = snd (ir_before_mapping r)"
    using restart_matches[of mg rp hb ex ?r ts'] assms(11,12) by simp
  ultimately show ?thesis using left_behind_simps(1)[OF l, of fresh' r0] by blast
qed

definition fresh_point :: BinlogStorage where
  "fresh_point = (BinlogStorage_init 0)\<lparr>st_txn_gtid_seq := 9\<rparr>"

theorem restart_after_recovery_witness:
  "(\<exists>im' r'. preprocess_breakpoint_binlog (seek_trx 6 crc_zero small_reader [0, 0, 0, 0]) [] no_mapping (cut_manager 9 10) =
       Finished (True, im') \<and>
     get_latest_index [] im' BinlogIndexRecord_init = Some (True, r') \<and> fst (init_restart_point 3600 64800 no_mapping r' 0 fresh_point)) \<and>
   (\<exists>im' r'. preprocess_breakpoint_binlog (seek_trx 6 crc_zero small_reader [0, 0, 0, 0]) [] no_mapping (cut_manager 8 9) =
       Finished (True, im') \<and>
     get_latest_index [] im' BinlogIndexRecord_init = Some (True, r') \<and> \<not> fst (init_restart_point 3600 64800 no_mapping r' 0 fresh_point))"
proof -
  have u: "usable_mapping no_mapping n" for n by (simp add: usable_mapping_def no_mapping_def)
  note t = restart_after_recovery [OF cut_manager_left cut_small, of _ _ no_mapping fresh_point "[0, 0, 0, 0]" "[]" "[]"
      BinlogIndexRecord_init 3600 64800 0]
  show ?thesis
    using t[of 9 10] t[of 8 9] u small_gtid_ok(4) by (simp add: cut_record_def fresh_point_def del: gtid_of.simps)
qed

end
