(* ===== verification/Storage.thy ===== *)
theory Storage
  imports Recovery
begin

unbundle bit_operations_syntax

text \<open>
  The storage of a binlog instance, \<^verbatim>\<open>binlog-instance/binlog_storage.cpp\<close>.  A batch of events passes three handlers:
  \<^verbatim>\<open>AllocateHandler\<close> numbers the transactions and gives every event its position, \<^verbatim>\<open>SerializeHandler\<close> writes the
  events into a buffer, and \<^verbatim>\<open>StorageHandler\<close> appends the buffer to the binlog files and updates the index and the
  GTID manager.  The ring buffer runs the handlers of one batch in this order and the first and the last one
  for one batch after the other.  \<^verbatim>\<open>None\<close> is a null pointer that is followed, a failed assertion, a write outside
  its block, or an exception, which stops the storage.  The rate limiter, which only delays, the counters and
  the log are left out.  \<^verbatim>\<open>mem\<close> is the content of a fresh allocation; \<^verbatim>\<open>junk\<close> and \<^verbatim>\<open>uuid_mem\<close> are as in \<^verbatim>\<open>set_gtid_uuid\<close>.
\<close>

section \<open>Events of all kinds\<close>

datatype log_event =
    GtidEv GtidLogEvent
  | XidEv XidEvent
  | QueryEv QueryEvent
  | HeartbeatEv HeartbeatEvent
  | TableMapEv TableMapEvent
  | RowsEv RowsEvent

fun event_base :: "log_event \<Rightarrow> ObLogEvent" where
  "event_base (GtidEv e) = ObLogEvent.truncate e"
| "event_base (XidEv e) = ObLogEvent.truncate e"
| "event_base (QueryEv e) = ObLogEvent.truncate e"
| "event_base (HeartbeatEv e) = ObLogEvent.truncate e"
| "event_base (TableMapEv e) = ObLogEvent.truncate e"
| "event_base (RowsEv e) = ObLogEvent.truncate e"

text \<open>\<^verbatim>\<open>get_header()->set_next_position(pos)\<close> and \<^verbatim>\<open>set_filter(false)\<close>.\<close>

definition position_at :: "u32 \<Rightarrow> 'a ObLogEvent_scheme \<Rightarrow> 'a ObLogEvent_scheme" where
  "position_at pos e = e\<lparr>ev_header := map_option (\<lambda>h. h\<lparr>eh_next_position := pos\<rparr>) (ev_header e), ev_filter := False\<rparr>"

fun place_at :: "u32 \<Rightarrow> log_event \<Rightarrow> log_event" where
  "place_at pos (GtidEv e) = GtidEv (position_at pos e)"
| "place_at pos (XidEv e) = XidEv (position_at pos e)"
| "place_at pos (QueryEv e) = QueryEv (position_at pos e)"
| "place_at pos (HeartbeatEv e) = HeartbeatEv (position_at pos e)"
| "place_at pos (TableMapEv e) = TableMapEv (position_at pos e)"
| "place_at pos (RowsEv e) = RowsEv (position_at pos e)"

fun flush_to_buff :: "crc32 \<Rightarrow> byte list \<Rightarrow> log_event \<Rightarrow> byte list \<Rightarrow> cursor option" where
  "flush_to_buff crc mem (GtidEv e) buff = GtidLogEvent_flush crc e buff"
| "flush_to_buff crc mem (XidEv e) buff = XidEvent_flush crc e buff"
| "flush_to_buff crc mem (QueryEv e) buff = QueryEvent_flush crc mem e buff"
| "flush_to_buff crc mem (HeartbeatEv e) buff = HeartbeatEvent_flush crc e buff"
| "flush_to_buff crc mem (TableMapEv e) buff = TableMapEvent_flush crc e buff"
| "flush_to_buff crc mem (RowsEv e) buff = RowsEvent_flush crc e buff"

section \<open>State\<close>

record SerializeEvent =
  se_events :: "log_event option list"
  se_buffer :: "byte list"
  se_is_rotation :: bool
  se_rotate_offsets :: "u64 list"
  se_rotate_events :: "RotateEvent list"
  se_index_pos :: nat
  se_index_records :: "BinlogIndexRecord list"

text \<open>The settings the storage reads, and what the constructor of \<^verbatim>\<open>RotateEvent\<close> leaves uninitialised.\<close>

record storage_config =
  sc_gtid :: gtid_config
  sc_binlog_checksum :: bool
  sc_server_id :: u32
  sc_max_binlog_size :: u32
  sc_binlog_expire_logs_size :: u64
  sc_file_prefix :: string
  sc_file_name_width :: nat
  sc_junk_index :: u64
  sc_junk_op :: RotateOp

type_synonym storage_state = "BinlogStorage \<times> BinlogIndexManager \<times> GtidManager"

definition BINLOG_START_FIXED_POS :: u32 where
  "BINLOG_START_FIXED_POS = 151"

definition binlog_path :: "string \<Rightarrow> string" where
  "binlog_path name = ''.'' @ ''/data/'' @ name"

abbreviation file_name_of :: "storage_config \<Rightarrow> u64 \<Rightarrow> string" where
  "file_name_of sc index \<equiv> fill_binlog_file_name (sc_file_prefix sc) (sc_file_name_width sc) index"

definition text_of :: "byte list \<Rightarrow> string" where
  "text_of bs = map (\<lambda>b. char_of (unat b)) bs"

section \<open>Allocation\<close>

definition SerializeEvent_update_index_record :: "BinlogIndexRecord \<Rightarrow> SerializeEvent \<Rightarrow> SerializeEvent option" where
  "SerializeEvent_update_index_record r b =
     (if length (se_index_records b) \<le> se_index_pos b
      then Some (b\<lparr>se_index_records := se_index_records b @ [r]\<rparr>)
      else if se_index_pos b = length (se_index_records b) - 1
      then Some (b\<lparr>se_index_records := (se_index_records b)[se_index_pos b := r]\<rparr>)
      else None)"

fun copy_messages :: "GtidMessage list \<Rightarrow> GtidMessage list option" where
  "copy_messages [] = Some []"
| "copy_messages (m # ms) = do { m' \<leftarrow> copy_from m GtidMessage_init; ms' \<leftarrow> copy_messages ms; Some (m' # ms') }"

definition merge_previous_gtids ::
  "byte \<Rightarrow> byte list \<Rightarrow> storage_config \<Rightarrow> u64 \<Rightarrow> BinlogStorage \<Rightarrow> (GtidMessage list \<times> BinlogStorage) option" where
  "merge_previous_gtids junk uuid_mem sc last_gtid st = do {
     ms \<leftarrow> merge_gtid_before junk uuid_mem (cf_master_server_uuid (sc_gtid sc)) (st_previous_gtid_messages st)
            (st_first_gtid_seq st, last_gtid);
     previous_gtids \<leftarrow> copy_messages ms;
     Some (previous_gtids, st\<lparr>st_previous_gtid_messages := ms\<rparr>) }"

definition start_pos :: "storage_config \<Rightarrow> GtidMessage list \<Rightarrow> u32" where
  "start_pos sc previous_gtids =
     (let checksum = (if sc_binlog_checksum sc then ucast COMMON_CHECKSUM_LENGTH else 0)
      in foldl (\<lambda>pos m. pos + ucast (get_gtid_length m)) (BINLOG_START_FIXED_POS + checksum) previous_gtids)"

definition set_start_pos :: "storage_config \<Rightarrow> GtidMessage list \<Rightarrow> BinlogStorage \<Rightarrow> BinlogStorage" where
  "set_start_pos sc previous_gtids st = st\<lparr>st_cur_pos := start_pos sc previous_gtids\<rparr>"

definition rotate_binlog_file ::
  "byte \<Rightarrow> byte list \<Rightarrow> storage_config \<Rightarrow> u64 \<Rightarrow> BinlogStorage \<Rightarrow> SerializeEvent \<Rightarrow>
   (BinlogStorage \<times> SerializeEvent) option" where
  "rotate_binlog_file junk uuid_mem sc timestamp st b =
     (if st_cur_pos st > sc_max_binlog_size sc then
        let index = st_binlog_file_index st + 1; name = file_name_of sc index;
            st = st\<lparr>st_binlog_file_index := index,
                    st_index_record := (st_index_record st)\<lparr>ir_index := index, ir_file_name := binlog_path name\<rparr>\<rparr>;
            rotate_event = (RotateEvent_init (sc_binlog_checksum sc) (sc_server_id sc) (sc_junk_index sc) (sc_junk_op sc)
               (ucast BINLOG_MAGIC_SIZE) (ascii name) timestamp (st_cur_pos st))\<lparr>ro_op := ROTATE, ro_index := index\<rparr>
        in do {
          (previous_gtids, st) \<leftarrow> merge_previous_gtids junk uuid_mem sc (st_txn_gtid_seq st - 1) st;
          Some ((set_start_pos sc previous_gtids st)\<lparr>st_first_gtid_seq := 0\<rparr>,
                b\<lparr>se_rotate_events := se_rotate_events b @ [rotate_event\<lparr>ro_next_previous_gtids := previous_gtids\<rparr>],
                  se_is_rotation := True\<rparr>) }
      else Some (st, b))"

text \<open>What becomes of an event: it is left out, or it goes to the file, with a rotation after it or not.\<close>

datatype admission = Skip log_event | Admit log_event bool

definition end_filter :: "GtidLogEvent \<Rightarrow> bool \<Rightarrow> BinlogStorage \<Rightarrow> BinlogStorage" where
  "end_filter e same st =
     (if st_filter_util_checkpoint_trx st \<and> same
      then st\<lparr>st_meet_initial_trx := True, st_filter_util_checkpoint_trx := False\<rparr>
      else if st_filter_util_checkpoint_trx st \<and> (st_meet_initial_trx st \<or> ev_checkpoint e > st_start_timestamp st)
      then st\<lparr>st_filter_util_checkpoint_trx := False\<rparr> else st)"

definition begin_trx ::
  "storage_config \<Rightarrow> GtidLogEvent \<Rightarrow> BinlogStorage \<Rightarrow> GtidManager \<Rightarrow> (admission \<times> BinlogStorage \<times> GtidManager) option" where
  "begin_trx sc e st mg =
     (let r = st_index_record st; current = (ev_ob_txn e, gt_gtid_txn_id e)
      in map_option (\<lambda>mg. (Admit (GtidEv e) False,
           st\<lparr>st_valid_events_coming := True,
              st_first_gtid_seq := (if st_first_gtid_seq st = 0 then gt_gtid_txn_id e else st_first_gtid_seq st),
              st_txn_gtid_seq := gt_gtid_txn_id e + 1,
              st_index_record := r\<lparr>ir_before_mapping := ir_current_mapping r, ir_current_mapping := current,
                                   ir_checkpoint := ev_checkpoint e div 1000000\<rparr>\<rparr>, mg))
           (mark_event (sc_gtid sc) False (ev_checkpoint e) current mg))"

definition admit_gtid ::
  "storage_config \<Rightarrow> GtidLogEvent \<Rightarrow> BinlogStorage \<Rightarrow> GtidManager \<Rightarrow> (admission \<times> BinlogStorage \<times> GtidManager) option" where
  "admit_gtid sc e st mg =
     (let e = e\<lparr>gt_gtid_txn_id := st_txn_gtid_seq st\<rparr>; filtering = st_filter_util_checkpoint_trx st;
          same = (ev_ob_txn e = fst (st_txn_mapping st) \<and> gt_gtid_txn_id e = snd (st_txn_mapping st))
      in if filtering \<and> \<not> st_meet_initial_trx st \<and> \<not> same then Some (Skip (GtidEv e), st, mg)
         else if filtering \<and> same \<and> st_filter_checkpoint_trx st
         then Some (Skip (GtidEv e), st\<lparr>st_meet_initial_trx := True, st_txn_gtid_seq := st_txn_gtid_seq st + 1,
                                       st_filter_util_checkpoint_trx := True\<rparr>, mg)
         else begin_trx sc e (end_filter e same st) mg)"

definition outgrows :: "storage_config \<Rightarrow> BinlogStorage \<Rightarrow> OblogEventHeader \<Rightarrow> bool" where
  "outgrows sc st h \<longleftrightarrow> st_cur_pos st + eh_event_length h > sc_max_binlog_size sc"

definition admit ::
  "storage_config \<Rightarrow> log_event \<Rightarrow> BinlogStorage \<Rightarrow> GtidManager \<Rightarrow> (admission \<times> BinlogStorage \<times> GtidManager) option" where
  "admit sc e st mg = do {
     h \<leftarrow> ev_header (event_base e);
     let filtering = st_filter_util_checkpoint_trx st;
     let current = ir_current_mapping (st_index_record st);
     if eh_type_code h = HEARTBEAT_LOG_EVENT then
       (if filtering then Some (Skip e, st, mg)
        else do {
          mg \<leftarrow> mark_event (sc_gtid sc) True (ev_checkpoint (event_base e)) current mg;
          Some (Skip e, st, compress_and_save_gtid_seq (sc_gtid sc) current mg) })
     else if eh_type_code h = GTID_LOG_EVENT then
       (case e of GtidEv g \<Rightarrow> admit_gtid sc g st mg | _ \<Rightarrow> None)
     else if filtering then
       (if eh_type_code h = XID_EVENT \<and> st_meet_initial_trx st
        then Some (Skip e, st\<lparr>st_filter_util_checkpoint_trx := False\<rparr>, mg) else Some (Skip e, st, mg))
     else if eh_type_code h = XID_EVENT then
       (case e of XidEv x \<Rightarrow>
          Some (Admit (XidEv (x\<lparr>xid_xid := st_xid st + 1\<rparr>)) (outgrows sc st h), st\<lparr>st_xid := st_xid st + 1\<rparr>, mg) | _ \<Rightarrow> None)
     else if eh_type_code h = QUERY_EVENT then
       (case e of QueryEv q \<Rightarrow> Some (Admit e (qu_is_ddl q \<and> outgrows sc st h), st, mg) | _ \<Rightarrow> None)
     else Some (Admit e False, st, mg) }"

definition allocate_event ::
  "byte \<Rightarrow> byte list \<Rightarrow> storage_config \<Rightarrow> log_event \<Rightarrow> BinlogStorage \<times> GtidManager \<times> SerializeEvent \<Rightarrow>
   (log_event \<times> BinlogStorage \<times> GtidManager \<times> SerializeEvent) option" where
  "allocate_event junk uuid_mem sc e s = (case s of (st, mg, b) \<Rightarrow> do {
     (a, st, mg) \<leftarrow> admit sc e st mg;
     (case a of
        Skip e \<Rightarrow> Some (e, st, mg, b)
      | Admit e is_rotate \<Rightarrow> do {
          h \<leftarrow> ev_header (event_base e);
          let st = st\<lparr>st_cur_pos := st_cur_pos st + eh_event_length h\<rparr>;
          let e = place_at (st_cur_pos st) e;
          b \<leftarrow> SerializeEvent_update_index_record (st_index_record st) b;
          if is_rotate then do {
            (st, b) \<leftarrow> rotate_binlog_file junk uuid_mem sc (st_last_record_ts st) st b;
            Some (e, st, mg, b\<lparr>se_index_pos := Suc (se_index_pos b)\<rparr>) }
          else Some (e, st, mg, b) }) })"

fun allocate_loop ::
  "byte \<Rightarrow> byte list \<Rightarrow> storage_config \<Rightarrow> log_event option list \<Rightarrow> BinlogStorage \<times> GtidManager \<times> SerializeEvent \<Rightarrow>
   (log_event option list \<times> BinlogStorage \<times> GtidManager \<times> SerializeEvent) option" where
  "allocate_loop junk uuid_mem sc [] s = Some ([], s)"
| "allocate_loop junk uuid_mem sc (None # es) s = do {
     (es', s) \<leftarrow> allocate_loop junk uuid_mem sc es s;
     Some (None # es', s) }"
| "allocate_loop junk uuid_mem sc (Some e # es) s = do {
     (e', s) \<leftarrow> allocate_event junk uuid_mem sc e s;
     (es', s) \<leftarrow> allocate_loop junk uuid_mem sc es s;
     Some (Some e' # es', s) }"

definition global_allocation_of_backfill_events ::
  "byte \<Rightarrow> byte list \<Rightarrow> storage_config \<Rightarrow> BinlogStorage \<Rightarrow> GtidManager \<Rightarrow> SerializeEvent \<Rightarrow>
   (BinlogStorage \<times> GtidManager \<times> SerializeEvent) option" where
  "global_allocation_of_backfill_events junk uuid_mem sc st mg b = do {
     (es, st, mg, b) \<leftarrow> allocate_loop junk uuid_mem sc (se_events b) (st, mg, b);
     b \<leftarrow> SerializeEvent_update_index_record (st_index_record st) b;
     Some (st, mg, b\<lparr>se_events := es\<rparr>) }"

section \<open>Serialization\<close>

text \<open>The next bytes of the buffer, as many as \<^verbatim>\<open>ensure_capacity\<close> was asked for, which an event then fills.\<close>

definition block :: "byte list \<Rightarrow> nat \<Rightarrow> byte list" where
  "block mem n = take n (mem @ replicate n 0)"

definition event_block :: "crc32 \<Rightarrow> byte list \<Rightarrow> log_event \<Rightarrow> byte list option" where
  "event_block crc mem e = do {
     h \<leftarrow> ev_header (event_base e);
     (buff, n) \<leftarrow> flush_to_buff crc mem e (block mem (unat (eh_event_length h)));
     Some buff }"

definition rotate_block :: "crc32 \<Rightarrow> byte list \<Rightarrow> RotateEvent \<Rightarrow> byte list option" where
  "rotate_block crc mem e = do {
     h \<leftarrow> ev_header e;
     (buff, n) \<leftarrow> RotateEvent_flush crc e (block mem (unat (eh_event_length h)));
     Some buff }"

definition rotate_offset :: "RotateEvent \<Rightarrow> u64 option" where
  "rotate_offset e = map_option (\<lambda>h. ucast (eh_next_position h - eh_event_length h)) (ev_header e)"

fun all_offsets :: "RotateEvent list \<Rightarrow> u64 list option" where
  "all_offsets [] = Some []"
| "all_offsets (e # es) = do { o1 \<leftarrow> rotate_offset e; os \<leftarrow> all_offsets es; Some (o1 # os) }"

fun serialize_loop ::
  "crc32 \<Rightarrow> byte list \<Rightarrow> bool \<Rightarrow> RotateEvent list \<Rightarrow> log_event option list \<Rightarrow> nat \<Rightarrow> u64 list \<Rightarrow> byte list \<Rightarrow>
   (u64 list \<times> byte list) option" where
  "serialize_loop crc mem is_rotation rotate_events [] index offsets buffer = Some (offsets, buffer)"
| "serialize_loop crc mem is_rotation rotate_events (None # es) index offsets buffer = None"
| "serialize_loop crc mem is_rotation rotate_events (Some e # es) index offsets buffer =
     (if ev_filter (event_base e) then serialize_loop crc mem is_rotation rotate_events es index offsets buffer
      else do {
        h \<leftarrow> ev_header (event_base e);
        bs \<leftarrow> event_block crc mem e;
        if is_rotation \<and> index < length rotate_events \<and> ucast (eh_next_position h) = offsets ! index
        then do {
          rs \<leftarrow> rotate_block crc mem (rotate_events ! index);
          let buffer = buffer @ bs @ rs;
          serialize_loop crc mem is_rotation rotate_events es (Suc index) (offsets[index := of_nat (length buffer)]) buffer }
        else serialize_loop crc mem is_rotation rotate_events es index offsets (buffer @ bs) })"

text \<open>\<^verbatim>\<open>SerializeHandler::onEvent\<close>; the events are then handed to the thread that releases them.\<close>

definition serialize_batch :: "crc32 \<Rightarrow> byte list \<Rightarrow> SerializeEvent \<Rightarrow> SerializeEvent option" where
  "serialize_batch crc mem b = do {
     offsets \<leftarrow> all_offsets (se_rotate_events b);
     (offsets, buffer) \<leftarrow> serialize_loop crc mem (se_is_rotation b) (se_rotate_events b) (se_events b) 0
        (se_rotate_offsets b @ offsets) [];
     Some (b\<lparr>se_rotate_offsets := offsets, se_buffer := buffer\<rparr>) }"

section \<open>Files\<close>

definition append_content :: "string \<Rightarrow> byte list \<Rightarrow> BinlogIndexManager \<Rightarrow> BinlogIndexManager" where
  "append_content name bs im = set_content name (content_of name im @ bs) im"

definition file_size :: "string \<Rightarrow> BinlogIndexManager \<Rightarrow> u64" where
  "file_size name im = of_nat (length (content_of name im))"

definition update_index_record ::
  "byte \<Rightarrow> byte list \<Rightarrow> storage_config \<Rightarrow> BinlogIndexRecord \<Rightarrow> storage_state \<Rightarrow> (BinlogIndexRecord \<times> storage_state) option" where
  "update_index_record junk uuid_mem sc r s = (case s of (st, im, mg) \<Rightarrow> do {
     let offset = file_size (st_file_name st) im;
     let r = r\<lparr>ir_position := offset\<rparr>;
     (_, im) \<leftarrow> update_index r im;
     let mg = compress_and_save_gtid_seq (sc_gtid sc) (ir_current_mapping r) mg;
     mg \<leftarrow> (if st_valid_events_coming st
            then update_gtid_executed junk uuid_mem (sc_gtid sc) (snd (ir_current_mapping r)) mg else Some mg);
     Some (r, st\<lparr>st_offset := offset\<rparr>, im, mg) })"

definition persistent_binlog ::
  "byte \<Rightarrow> byte list \<Rightarrow> storage_config \<Rightarrow> byte list \<Rightarrow> BinlogIndexRecord \<Rightarrow> storage_state \<Rightarrow>
   (bool \<times> BinlogIndexRecord \<times> storage_state) option" where
  "persistent_binlog junk uuid_mem sc bs r s = (case s of (st, im, mg) \<Rightarrow>
     if st_file_name st = [] then Some (False, r, s)
     else map_option (Pair True) (update_index_record junk uuid_mem sc r (st, append_content (st_file_name st) bs im, mg)))"

text \<open>The first bytes of a file, written into a block of 1024 bytes.\<close>

definition previous_event :: "storage_config \<Rightarrow> u32 \<Rightarrow> GtidMessage list \<Rightarrow> u64 \<Rightarrow> PreviousGtidsLogEvent option" where
  "previous_event sc start ms timestamp = do {
     e \<leftarrow> PreviousGtidsLogEvent_init (sc_binlog_checksum sc) (sc_server_id sc) (of_nat (length ms)) ms timestamp;
     h \<leftarrow> ev_header e;
     Some (e\<lparr>ev_header := Some (h\<lparr>eh_next_position := start + eh_event_length h\<rparr>)\<rparr>) }"

definition init_head :: "crc32 \<Rightarrow> byte list \<Rightarrow> storage_config \<Rightarrow> RotateEvent \<Rightarrow> byte list option" where
  "init_head crc mem sc rotate_event = do {
     h \<leftarrow> ev_header rotate_event;
     (buff, pos) \<leftarrow> emit binlog_magic (block mem 1024, 0);
     let fd = FormatDescriptionEvent_init (sc_binlog_checksum sc) (sc_server_id sc) (eh_timestamp h);
     hf \<leftarrow> ev_header fd;
     (fbuff, fn) \<leftarrow> FormatDescriptionEvent_flush crc fd (drop pos buff);
     prev \<leftarrow> previous_event sc (eh_next_position hf) (ro_next_previous_gtids rotate_event) (eh_timestamp h);
     (pbuff, pn) \<leftarrow> PreviousGtidsLogEvent_flush crc prev (drop fn fbuff);
     Some (take pos buff @ take fn fbuff @ take pn pbuff) }"

definition init_binlog_file ::
  "crc32 \<Rightarrow> byte list \<Rightarrow> storage_config \<Rightarrow> RotateEvent \<Rightarrow> storage_state \<Rightarrow> (bool \<times> storage_state) option" where
  "init_binlog_file crc mem sc rotate_event s = (case s of (st, im, mg) \<Rightarrow> do {
     bs \<leftarrow> init_head crc mem sc rotate_event;
     let name = binlog_path (text_of (ro_next_binlog_file_name rotate_event));
     Some (True, st\<lparr>st_file_name := name\<rparr>, append_content name bs im, mg) })"

definition add_next_binlog_index ::
  "BinlogIndexRecord \<Rightarrow> RotateEvent \<Rightarrow> storage_state \<Rightarrow> bool \<times> BinlogIndexRecord \<times> storage_state" where
  "add_next_binlog_index r rotate_event s = (case s of (st, im, mg) \<Rightarrow>
     let name = binlog_path (text_of (ro_next_binlog_file_name rotate_event));
         r = r\<lparr>ir_index := ro_index rotate_event, ir_file_name := name, ir_position := file_size name im\<rparr>;
         (ok, im) = add_index r im
     in if ok then (True, r, st\<lparr>st_file_name := name\<rparr>, im, mg) else (False, r, st, im, mg))"

text \<open>\<^verbatim>\<open>FsUtil::rewrite\<close> of the flags of the first event: the file is not in use any more.\<close>

definition clear_in_use :: "byte list \<Rightarrow> byte list" where
  "clear_in_use bs = take 21 (bs @ replicate (21 - length bs) 0) @ int2store 0 @ drop 23 bs"

definition clear_flags :: "string \<Rightarrow> BinlogIndexManager \<Rightarrow> BinlogIndexManager option" where
  "clear_flags name im = map_option (\<lambda>bs. set_content name (clear_in_use bs) im) (im_binlog_files im name)"

definition init_next_binlog_file ::
  "crc32 \<Rightarrow> byte list \<Rightarrow> storage_config \<Rightarrow> RotateEvent \<Rightarrow> BinlogIndexRecord \<Rightarrow> storage_state \<Rightarrow>
   (bool \<times> BinlogIndexRecord \<times> storage_state) option" where
  "init_next_binlog_file crc mem sc rotate_event r s = (case s of (st, im, mg) \<Rightarrow> do {
     im \<leftarrow> clear_flags (binlog_path (file_name_of sc (ro_index rotate_event - 1))) im;
     bs \<leftarrow> init_head crc mem sc rotate_event;
     let name = binlog_path (text_of (ro_next_binlog_file_name rotate_event));
     Some (add_next_binlog_index r rotate_event (st, append_content name bs im, mg)) })"

text \<open>
  \<^verbatim>\<open>StorageHandler::onEvent\<close>.  The loop goes over the offsets of the rotations; the buffer is cut there.  A failure
  throws.  The purge of expired files, which the handler hands to another thread, is in \<^verbatim>\<open>Expiry\<close>.
\<close>

fun store_rotations ::
  "byte \<Rightarrow> byte list \<Rightarrow> crc32 \<Rightarrow> byte list \<Rightarrow> storage_config \<Rightarrow> SerializeEvent \<Rightarrow> u64 list \<Rightarrow> nat \<Rightarrow> nat \<Rightarrow>
   storage_state \<Rightarrow> (nat \<times> nat \<times> storage_state) option" where
  "store_rotations junk uuid_mem crc mem sc b [] cur_offset index s = Some (cur_offset, index, s)"
| "store_rotations junk uuid_mem crc mem sc b (offset # offsets) cur_offset index s =
     (if unat offset > cur_offset \<and> index < length (se_index_records b) \<and> index < length (se_rotate_events b) then do {
        bs \<leftarrow> peek (unat offset - cur_offset) (se_buffer b) cur_offset;
        (ok, r, s) \<leftarrow> persistent_binlog junk uuid_mem sc bs (se_index_records b ! index) s;
        if ok then do {
          (ok, r, s) \<leftarrow> init_next_binlog_file crc mem sc (se_rotate_events b ! index) r s;
          if ok then store_rotations junk uuid_mem crc mem sc b offsets (unat offset) (Suc index) s else None }
        else None }
      else None)"

definition store_rest ::
  "byte \<Rightarrow> byte list \<Rightarrow> storage_config \<Rightarrow> SerializeEvent \<Rightarrow> nat \<Rightarrow> nat \<Rightarrow> storage_state \<Rightarrow> storage_state option" where
  "store_rest junk uuid_mem sc b cur_offset index s =
     (if length (se_index_records b) \<noteq> Suc index then None
      else do {
        (ok, r, s) \<leftarrow> persistent_binlog junk uuid_mem sc (drop cur_offset (se_buffer b)) (se_index_records b ! index) s;
        if ok then Some s else None })"

definition store_batch ::
  "byte \<Rightarrow> byte list \<Rightarrow> crc32 \<Rightarrow> byte list \<Rightarrow> storage_config \<Rightarrow> SerializeEvent \<Rightarrow> storage_state \<Rightarrow>
   (SerializeEvent \<times> storage_state) option" where
  "store_batch junk uuid_mem crc mem sc b s = do {
     s \<leftarrow> (if se_is_rotation b then do {
             (cur_offset, index, s) \<leftarrow> store_rotations junk uuid_mem crc mem sc b (se_rotate_offsets b) 0 0 s;
             if cur_offset < length (se_buffer b) then store_rest junk uuid_mem sc b cur_offset index s else Some s }
           else store_rest junk uuid_mem sc b 0 0 s);
     Some (b\<lparr>se_rotate_events := [], se_rotate_offsets := [], se_index_pos := 0, se_index_records := [],
             se_is_rotation := False\<rparr>, s) }"

text \<open>
  A batch through the three handlers, starting from the slot of the ring buffer as the last batch left it.  In the program
  each handler has a thread of its own and a later batch may be allocated while an earlier one is stored; here a
  batch is stored before the next one is allocated.
\<close>

definition fresh_batch :: "log_event option list \<Rightarrow> SerializeEvent" where
  "fresh_batch es = \<lparr>se_events = es, se_buffer = [], se_is_rotation = False, se_rotate_offsets = [],
     se_rotate_events = [], se_index_pos = 0, se_index_records = []\<rparr>"

definition process_batch ::
  "byte \<Rightarrow> byte list \<Rightarrow> crc32 \<Rightarrow> byte list \<Rightarrow> storage_config \<Rightarrow> log_event option list \<Rightarrow> storage_state \<Rightarrow> storage_state option" where
  "process_batch junk uuid_mem crc mem sc es s = (case s of (st, im, mg) \<Rightarrow> do {
     (st, mg, b) \<leftarrow> global_allocation_of_backfill_events junk uuid_mem sc st mg (fresh_batch es);
     b \<leftarrow> serialize_batch crc mem b;
     (b, s) \<leftarrow> store_batch junk uuid_mem crc mem sc b (st, im, mg);
     Some s })"

end
