(* ===== verification/StoredFiles.thy ===== *)
theory StoredFiles
  imports Storage
begin

text \<open>
  What the three handlers of \<^verbatim>\<open>Storage\<close> leave in the binlog files: every file consists of whole events, each of
  which names the position where it ends, and the position the storage counts is the length of the current file.
\<close>

section \<open>Events as items of a file\<close>

fun rows_bytes :: "crc32 \<Rightarrow> RowsEvent \<Rightarrow> byte list" where
  "rows_bytes crc e = (case rw_rows_event_type e of
     INSERT \<Rightarrow> we.file_bytes crc e | DELETE \<Rightarrow> de.file_bytes crc e | UPDATE \<Rightarrow> ue.file_bytes crc e)"

fun stored_item :: "crc32 \<Rightarrow> log_event \<Rightarrow> item" where
  "stored_item crc (GtidEv e) = GtidItem e"
| "stored_item crc (XidEv e) = XidItem e"
| "stored_item crc (QueryEv e) = QueryItem e"
| "stored_item crc (HeartbeatEv e) = OtherItem (event_hdr e) []"
| "stored_item crc (TableMapEv e) = OtherItem (event_hdr e) (drop 19 (te.file_bytes crc e))"
| "stored_item crc (RowsEv e) = OtherItem (event_hdr e) (drop 19 (rows_bytes crc e))"

definition rotate_item :: "crc32 \<Rightarrow> RotateEvent \<Rightarrow> item" where
  "rotate_item crc e = OtherItem (event_hdr e) (drop 19 (re.file_bytes crc e))"

text \<open>An event the converter may hand over: the length in its header is the length it is written with, and
  its type code is the one of its class.\<close>

fun storable :: "reader \<Rightarrow> log_event \<Rightarrow> bool" where
  "storable rd (GtidEv e) = item_ok rd (GtidItem e)"
| "storable rd (XidEv e) = item_ok rd (XidItem e)"
| "storable rd (QueryEv e) = item_ok rd (QueryItem e)"
| "storable rd (HeartbeatEv e) = (ev_header e \<noteq> None \<and> eh_type_code (event_hdr e) = HEARTBEAT_LOG_EVENT)"
| "storable rd (TableMapEv e) = (table_map_wf e \<and> eh_type_code (event_hdr e) = TABLE_MAP_EVENT)"
| "storable rd (RowsEv e) = ((write_rows_wf e \<or> delete_rows_wf e \<or> update_rows_wf e) \<and>
     eh_type_code (event_hdr e) \<in> {WRITE_ROWS_EVENT, DELETE_ROWS_EVENT, UPDATE_ROWS_EVENT})"

abbreviation to_file :: "log_event \<Rightarrow> bool" where
  "to_file e \<equiv> (case e of HeartbeatEv _ \<Rightarrow> False | _ \<Rightarrow> True)"

lemma length_block [simp]: "length (block mem n) = n"
  by (simp add: block_def)

lemma rows_kind:
  "write_rows_wf e \<Longrightarrow> rw_rows_event_type e = INSERT" "delete_rows_wf e \<Longrightarrow> rw_rows_event_type e = DELETE"
  "update_rows_wf e \<Longrightarrow> rw_rows_event_type e = UPDATE"
  by (simp_all add: write_rows_wf_def delete_rows_wf_def update_rows_wf_def)

lemma storable_header: "storable rd e \<Longrightarrow> ev_header (event_base e) = Some (item_hdr (stored_item crc e))"
  by (cases e) (auto simp: ObLogEvent.defs gtid_wf_def xid_wf_def query_wf_def table_map_wf_def write_rows_wf_def
      delete_rows_wf_def update_rows_wf_def event_ok_def)

text \<open>An event that is stored as header and body.\<close>

lemmas stored_split = te.file_bytes_split[symmetric] we.file_bytes_split[symmetric] de.file_bytes_split[symmetric]
  ue.file_bytes_split[symmetric] re.file_bytes_split[symmetric]

context event_writer
begin

lemma body_length: "wf e \<Longrightarrow> 19 + length (drop 19 (file_bytes crc e)) = unat (eh_event_length (hdr e))"
  using arg_cong[OF file_bytes_split, of e length crc] file_bytes_length[of e crc] by simp

end

lemma proper_headers:
  "table_map_wf t \<Longrightarrow> proper_header (event_hdr t)" "write_rows_wf r \<Longrightarrow> proper_header (event_hdr r)"
  "delete_rows_wf r \<Longrightarrow> proper_header (event_hdr r)" "update_rows_wf r \<Longrightarrow> proper_header (event_hdr r)"
  by (simp_all add: table_map_wf_def write_rows_wf_def delete_rows_wf_def update_rows_wf_def event_ok_def)

lemma storable_flush:
  assumes "storable rd e" "to_file e" "item_len (stored_item crc e) \<le> length buf"
  shows "flush_to_buff crc mem e buf = Some (item_bytes crc (stored_item crc e) @ drop (item_len (stored_item crc e)) buf,
    item_len (stored_item crc e))"
proof (cases e)
  case (RowsEv r)
  then show ?thesis
    using assms we.flush_fits[of r buf crc] de.flush_fits[of r buf crc] ue.flush_fits[of r buf crc]
    by (auto simp: rows_kind stored_split simp flip: append_assoc)
next
  case (TableMapEv t)
  then show ?thesis using assms te.flush_fits[of t buf crc] by (simp add: stored_split flip: append_assoc)
qed (use assms ge.flush_fits xe.flush_fits qe.flush_fits in simp_all)

lemma storable_item: "storable rd e \<Longrightarrow> to_file e \<Longrightarrow> item_ok rd (stored_item crc e)"
proof (cases e)
  case (RowsEv r)
  assume "storable rd e"
  then show ?thesis
    using RowsEv we.body_length[of r crc] de.body_length[of r crc] ue.body_length[of r crc]
    by (auto simp: rows_kind proper_headers)
next
  case (TableMapEv t)
  assume "storable rd e"
  then show ?thesis using TableMapEv te.body_length[of t crc] by (simp add: proper_headers)
qed simp_all

lemma storable_written:
  assumes "storable rd e" "to_file e"
  shows "event_block crc mem e = Some (item_bytes crc (stored_item crc e))"
  using storable_flush[OF assms, of crc "block mem (item_len (stored_item crc e))" mem]
  by (simp add: event_block_def storable_header[OF assms(1), of crc])


text \<open>Numbers and positions do not change the length of an event.\<close>

lemma positioned_ok:
  assumes "event_ok img e" "length img' = length img"
  shows "event_ok img' (position_at p e)" "event_hdr (position_at p e) = (event_hdr e)\<lparr>eh_next_position := p\<rparr>"
  using assms by (auto simp: event_ok_def position_at_def proper_header_def)

lemma positioned_hdr: "ev_header e \<noteq> None \<Longrightarrow> event_hdr (position_at p e) = (event_hdr e)\<lparr>eh_next_position := p\<rparr>"
  by (auto simp: position_at_def)

lemma place_gtid: "gtid_wf e \<Longrightarrow> gtid_wf (position_at p e)"
  using positioned_ok(1)[of "gtid_image e" e "gtid_image (position_at p e)" p]
  by (simp add: gtid_wf_def gtid_image_def) (simp add: position_at_def)

lemma place_xid: "xid_wf e \<Longrightarrow> xid_wf (position_at p e)"
  using positioned_ok(1)[of "xid_image e" e "xid_image (position_at p e)" p] by (simp add: xid_wf_def xid_image_def)

lemma place_query: "query_wf e \<Longrightarrow> query_wf (position_at p e)"
  using positioned_ok(1)[of "query_image e" e "query_image (position_at p e)" p]
  by (simp add: query_wf_def query_image_def) (simp add: position_at_def)

lemma place_table_map: "table_map_wf e \<Longrightarrow> table_map_wf (position_at p e)"
  using positioned_ok(1)[of "table_map_image e" e "table_map_image (position_at p e)" p]
  by (simp add: table_map_wf_def table_map_image_def) (simp add: position_at_def)

lemma place_rows_fields:
  "rw_table_id (position_at p e) = rw_table_id e" "rw_width (position_at p e) = rw_width e"
  "rw_flags (position_at p e) = rw_flags e" "rw_var_header_len (position_at p e) = rw_var_header_len e"
  "rw_rows_event_type (position_at p e) = rw_rows_event_type e"
  "rw_before_image_cols (position_at p e) = rw_before_image_cols e" "rw_after_image_cols (position_at p e) = rw_after_image_cols e"
  "rw_columns_before_bitmaps (position_at p e) = rw_columns_before_bitmaps e"
  "rw_columns_after_bitmaps (position_at p e) = rw_columns_after_bitmaps e"
  "rw_before_row (position_at p e) = rw_before_row e" "rw_after_row (position_at p e) = rw_after_row e"
  "rw_before_pos (position_at p e) = rw_before_pos e" "rw_after_pos (position_at p e) = rw_after_pos e"
  by (simp_all add: position_at_def)

lemma place_rows_ok: "ev_header e \<noteq> None \<Longrightarrow> rows_ok (position_at p e) = rows_ok e"
  "image_ok (position_at p e) cols bm rows len = image_ok e cols bm rows len"
  by (auto simp: rows_ok_def positioned_hdr image_ok_def place_rows_fields cong: option.case_cong)

lemma place_rows_prefix: "length (rows_prefix (position_at p e)) = length (rows_prefix e)"
  by (simp add: rows_prefix_def place_rows_fields)

lemmas place_rows_simps = place_rows_fields place_rows_ok(2) place_rows_prefix

lemma place_rows_event:
  fixes e :: RowsEvent
  assumes "event_ok img e" "rows_ok e" "length img' = length img"
  shows "event_ok img' (position_at p e) \<and> rows_ok (position_at p e)"
  using positioned_ok(1)[OF assms(1,3)] place_rows_ok(1)[of e p] assms(1,2) by (simp add: event_ok_def)

lemma place_write_rows: "write_rows_wf e \<Longrightarrow> write_rows_wf (position_at p e)"
proof -
  assume w: "write_rows_wf e"
  have "length (write_rows_image (position_at p e)) = length (write_rows_image e)"
    by (simp add: write_rows_image_def one_image_def place_rows_simps del: length_concat)
  then show ?thesis using w place_rows_event[of "write_rows_image e" e] unfolding write_rows_wf_def by (simp add: place_rows_simps)
qed

lemma place_delete_rows: "delete_rows_wf e \<Longrightarrow> delete_rows_wf (position_at p e)"
proof -
  assume w: "delete_rows_wf e"
  have "length (delete_rows_image (position_at p e)) = length (delete_rows_image e)"
    by (simp add: delete_rows_image_def one_image_def place_rows_simps del: length_concat)
  then show ?thesis using w place_rows_event[of "delete_rows_image e" e] unfolding delete_rows_wf_def by (simp add: place_rows_simps)
qed

lemma place_update_rows: "update_rows_wf e \<Longrightarrow> update_rows_wf (position_at p e)"
proof -
  assume w: "update_rows_wf e"
  have "length (update_rows_image (position_at p e)) = length (update_rows_image e)"
    by (simp add: update_rows_image_def place_rows_simps del: length_concat)
  then show ?thesis using w place_rows_event[of "update_rows_image e" e] unfolding update_rows_wf_def by (simp add: place_rows_simps)
qed

lemma place_storable:
  assumes "storable rd e" "to_file e"
  shows "storable rd (place_at p e)" "to_file (place_at p e)" "\<not> ev_filter (event_base (place_at p e))"
    "item_hdr (stored_item crc (place_at p e)) = (item_hdr (stored_item crc e))\<lparr>eh_next_position := p\<rparr>"
proof -
  have h: "ev_header (event_base e) \<noteq> None" using storable_header[OF assms(1), of crc] by simp
  show hdr: "item_hdr (stored_item crc (place_at p e)) = (item_hdr (stored_item crc e))\<lparr>eh_next_position := p\<rparr>"
    using h by (cases e) (auto simp: ObLogEvent.defs positioned_hdr)
  show "to_file (place_at p e)" using assms(2) by (cases e) auto
  show "\<not> ev_filter (event_base (place_at p e))" by (cases e) (simp_all add: ObLogEvent.defs position_at_def)
  show "storable rd (place_at p e)"
    using assms h by (cases e)
      (auto simp: ObLogEvent.defs place_gtid place_xid place_query place_table_map place_write_rows place_delete_rows place_update_rows positioned_hdr,
       auto simp: position_at_def)
qed

lemma numbered_storable:
  "storable rd (GtidEv e) \<Longrightarrow> storable rd (GtidEv (e\<lparr>gt_gtid_txn_id := n\<rparr>))"
  "storable rd (XidEv x) \<Longrightarrow> storable rd (XidEv (x\<lparr>xid_xid := m\<rparr>))"
  by (auto simp: gtid_wf_def gtid_image_def xid_wf_def xid_image_def event_ok_def)


section \<open>Previous GTIDs\<close>

text \<open>A message that stays well-formed for \<^verbatim>\<open>n\<close> more merges.\<close>

definition message_good :: "nat \<Rightarrow> GtidMessage \<Rightarrow> bool" where
  "message_good n m \<longleftrightarrow> message_fit m \<and> gm_txn_range m \<noteq> [] \<and> length (gm_txn_range m) + n < 2 ^ 63"

lemma extend_ranges_valid:
  assumes "list_all valid_range rs" "rs \<noteq> []" "b < - 1" "a = 0 \<or> valid_range (a, b)"
  shows "list_all valid_range (extend_ranges (a, b) rs)" "extend_ranges (a, b) rs \<noteq> []"
    "length (extend_ranges (a, b) rs) \<le> Suc (length rs)"
proof -
  have l: "valid_range (last rs)" using assms(1,2) by (simp add: list_all_iff)
  have "\<not> a > snd (last rs) + 1" if "a = 0" using that by simp
  moreover have "valid_range (fst (last rs), b)" if "b > snd (last rs)"
    using l that assms(3) by (auto simp: valid_range_def)
  moreover have "list_all valid_range (butlast rs)" using assms(1) by (auto simp: list_all_iff dest: in_set_butlastD)
  ultimately show "list_all valid_range (extend_ranges (a, b) rs)" using assms by (auto simp: extend_ranges_def)
qed (use assms(2) in \<open>auto simp: extend_ranges_def\<close>)

lemma set_ranges_good:
  assumes "message_good (Suc n) m" "b < - 1" "a = 0 \<or> valid_range (a, b)"
  shows "message_good n (set_ranges (extend_ranges (a, b) (gm_txn_range m)) m)"
proof -
  have r: "list_all valid_range (gm_txn_range m)" "gm_txn_range m \<noteq> []" "length (gm_txn_range m) + Suc n < 2 ^ 63"
    using assms(1) by (auto simp: message_good_def message_fit_def)
  have "length (extend_ranges (a, b) (gm_txn_range m)) + n < 2 ^ 63"
    using extend_ranges_valid(3)[OF r(1,2) assms(2,3)] r(3) by linarith
  then show ?thesis
    using assms(1) extend_ranges_valid(1,2)[OF r(1,2) assms(2,3)]
    by (simp add: message_good_def message_fit_def set_ranges_def)
qed

lemma merge_existing_good:
  "merge_existing uuid (a, b) ms = Some (ms', existed) \<Longrightarrow> list_all (message_good (Suc n)) ms \<Longrightarrow> b < - 1 \<Longrightarrow>
   a = 0 \<or> valid_range (a, b) \<Longrightarrow> list_all (message_good n) ms'"
proof (induction ms arbitrary: ms' existed)
  case (Cons m ms)
  have "message_good n m" using Cons.prems(2) by (simp add: message_good_def)
  then show ?case
    using Cons set_ranges_good[of n m b a] by (auto simp: bind_eq_Some_conv split: if_splits)
qed simp

lemma merge_good:
  assumes "merge_gtid_before junk mem (cf_master_server_uuid cf) ms (a, b) = Some ms'" "list_all (message_good (Suc n)) ms"
    and "b < - 1" "a = 0 \<or> valid_range (a, b)" "server_text cf uuid" "length mem = 16" "n < 2 ^ 62"
  shows "list_all (message_good n) ms'"
proof -
  obtain ms1 existed where e: "merge_existing (cf_master_server_uuid cf) (a, b) ms = Some (ms1, existed)"
    using assms(1) by (auto simp: merge_gtid_before_def bind_eq_Some_conv)
  have g: "list_all (message_good n) ms1" by (rule merge_existing_good[OF e assms(2-4)])
  have "message_good n (message uuid 1 [(a, b)])" if "0 < a"
    using assms(4,5,7) that by (auto simp: message_good_def message_fit_def message_def server_text_def)
  moreover have "set_gtid_uuid junk mem (cf_master_server_uuid cf) GtidMessage_init =
      Some (0, GtidMessage_init\<lparr>gm_gtid_uuid := Some uuid\<rparr>)"
    using assms(5,6) uuid_str_roundtrip[of uuid mem junk None]
    by (simp add: server_text_def set_gtid_uuid_def GtidMessage_init_def)
  ultimately show ?thesis
    using assms(1) e g
    by (auto simp: merge_gtid_before_def set_ranges_def GtidMessage_init_def message_def split: if_splits)
qed

lemma merge_length:
  "merge_gtid_before junk mem uuid ms r = Some ms' \<Longrightarrow> length ms' \<le> Suc (length ms)"
proof -
  have "merge_existing uuid r ms = Some (ms1, existed) \<Longrightarrow> length ms1 = length ms" for ms1 existed
    by (induction ms arbitrary: ms1 existed) (auto simp: bind_eq_Some_conv split: if_splits)
  then show "merge_gtid_before junk mem uuid ms r = Some ms' \<Longrightarrow> length ms' \<le> Suc (length ms)"
    by (auto simp: merge_gtid_before_def bind_eq_Some_conv split: if_splits)
qed

lemma copy_messages_fit:
  "copy_messages ms = Some ms' \<Longrightarrow> list_all message_fit ms \<Longrightarrow>
   list_all message_fit ms' \<and> map gm_txn_range ms' = map gm_txn_range ms"
proof (induction ms arbitrary: ms')
  case (Cons m ms)
  then obtain m' ms1 where c: "copy_from m GtidMessage_init = Some m'" "copy_messages ms = Some ms1" "ms' = m' # ms1"
    by (auto simp: bind_eq_Some_conv)
  have "message_fit m'" "gm_txn_range m' = gm_txn_range m"
    using c(1) Cons.prems(2)
    by (auto simp: copy_from_def message_fit_def bind_eq_Some_conv SERVER_UUID_LEN_def peek_def split: if_splits)
  then show ?case using Cons c by simp
qed simp


section \<open>Allocation\<close>

text \<open>What the allocation relies on for \<^verbatim>\<open>n\<close> more events: good previous GTIDs, and transaction numbers that are
  positive, do not wrap around, and started at the number noted for this file.\<close>

definition alloc_inv :: "nat \<Rightarrow> BinlogStorage \<Rightarrow> bool" where
  "alloc_inv n st \<longleftrightarrow> list_all (message_good n) (st_previous_gtid_messages st) \<and>
     length (st_previous_gtid_messages st) + n < 2 ^ 32 \<and> unat (st_last_record_ts st) < 2 ^ 32 \<and>
     0 < unat (st_txn_gtid_seq st) \<and> unat (st_txn_gtid_seq st) + n < 2 ^ 62 \<and>
     unat (st_first_gtid_seq st) < unat (st_txn_gtid_seq st)"

lemma message_good_less: "message_good n m \<Longrightarrow> k \<le> n \<Longrightarrow> message_good k m"
  by (simp add: message_good_def)

lemma alloc_inv_less: "alloc_inv n st \<Longrightarrow> k \<le> n \<Longrightarrow> alloc_inv k st"
  using message_good_less by (auto simp: alloc_inv_def list_all_iff)

text \<open>The members only a placed event or a rotation changes.\<close>

abbreviation place_of :: "BinlogStorage \<Rightarrow> string \<times> u32 \<times> u64 \<times> GtidMessage list \<times> u64" where
  "place_of st \<equiv> (st_file_name st, st_cur_pos st, st_binlog_file_index st, st_previous_gtid_messages st, st_last_record_ts st)"

lemma next_number:
  fixes w :: u64
  assumes "unat w + n < 2 ^ 62"
  shows "unat (w + 1) = unat w + 1"
  using assms by (intro unat_add_small[THEN trans]) simp_all

lemma alloc_inv_next:
  assumes "alloc_inv (Suc n) st" "st_txn_gtid_seq st' = st_txn_gtid_seq st + 1" "place_of st' = place_of st"
    and "st_first_gtid_seq st' = st_first_gtid_seq st \<or> st_first_gtid_seq st' = st_txn_gtid_seq st"
  shows "alloc_inv n st'"
  using assms next_number[of "st_txn_gtid_seq st" "Suc n"] alloc_inv_less[OF assms(1), of n]
  by (auto simp: alloc_inv_def)

lemma alloc_inv_same:
  "alloc_inv (Suc n) st \<Longrightarrow> st_txn_gtid_seq st' = st_txn_gtid_seq st \<Longrightarrow> place_of st' = place_of st \<Longrightarrow>
   st_first_gtid_seq st' = st_first_gtid_seq st \<Longrightarrow> alloc_inv n st'"
  using alloc_inv_less[of "Suc n" st n] by (simp add: alloc_inv_def)

definition admitted :: "reader \<Rightarrow> crc32 \<Rightarrow> storage_config \<Rightarrow> log_event \<Rightarrow> BinlogStorage \<Rightarrow> admission \<Rightarrow> bool" where
  "admitted rd crc sc e st a = (case a of
     Skip e' \<Rightarrow> ev_filter (event_base e')
   | Admit e' rot \<Rightarrow> storable rd e' \<and> to_file e' \<and> item_hdr (stored_item crc e') = item_hdr (stored_item crc e) \<and>
       (rot \<longrightarrow> outgrows sc st (item_hdr (stored_item crc e))))"

lemma end_filter_same:
  "place_of (end_filter e same st) = place_of st" "st_txn_gtid_seq (end_filter e same st) = st_txn_gtid_seq st"
  "st_first_gtid_seq (end_filter e same st) = st_first_gtid_seq st"
  by (simp_all add: end_filter_def)

lemma begin_trx_cases:
  assumes "begin_trx sc e st mg = Some (a, st', mg')"
  shows "a = Admit (GtidEv e) False" "place_of st' = place_of st" "st_txn_gtid_seq st' = gt_gtid_txn_id e + 1"
    "st_first_gtid_seq st' = st_first_gtid_seq st \<or> st_first_gtid_seq st' = gt_gtid_txn_id e"
  using assms by (auto simp: begin_trx_def Let_def)

lemma admit_gtid_cases:
  assumes "admit_gtid sc e st mg = Some (a, st', mg')"
  shows "(a = Skip (GtidEv (e\<lparr>gt_gtid_txn_id := st_txn_gtid_seq st\<rparr>)) \<or>
      a = Admit (GtidEv (e\<lparr>gt_gtid_txn_id := st_txn_gtid_seq st\<rparr>)) False) \<and> place_of st' = place_of st \<and>
    (st_txn_gtid_seq st' = st_txn_gtid_seq st \<and> st_first_gtid_seq st' = st_first_gtid_seq st \<or>
     st_txn_gtid_seq st' = st_txn_gtid_seq st + 1 \<and>
     (st_first_gtid_seq st' = st_first_gtid_seq st \<or> st_first_gtid_seq st' = st_txn_gtid_seq st))"
proof -
  let ?e = "e\<lparr>gt_gtid_txn_id := st_txn_gtid_seq st\<rparr>"
  let ?met = "st\<lparr>st_meet_initial_trx := True, st_txn_gtid_seq := st_txn_gtid_seq st + 1, st_filter_util_checkpoint_trx := True\<rparr>"
  obtain c1 c2 same where "admit_gtid sc e st mg =
      (if c1 then Some (Skip (GtidEv ?e), st, mg) else if c2 then Some (Skip (GtidEv ?e), ?met, mg)
       else begin_trx sc ?e (end_filter ?e same st) mg)"
    using admit_gtid_def[of sc e st mg] unfolding Let_def by blast
  then consider (skip) "a = Skip (GtidEv ?e)" "st' = st" | (met) "a = Skip (GtidEv ?e)" "st' = ?met"
    | (trx) same where "begin_trx sc ?e (end_filter ?e same st) mg = Some (a, st', mg')"
    using assms by (cases c1; cases c2) simp_all
  then show ?thesis
  proof cases
    case (trx same)
    note b = begin_trx_cases[OF trx]
    show ?thesis using b(1,2,4) b(3)[unfolded GtidLogEvent.simps] by (simp add: end_filter_same)
  qed simp_all
qed

lemma admit_gtid_facts:
  assumes "admit_gtid sc e st mg = Some (a, st', mg')" "storable rd (GtidEv e)" "ev_filter e" "alloc_inv (Suc n) st"
  shows "admitted rd crc sc (GtidEv e) st a \<and> place_of st' = place_of st \<and> alloc_inv n st'"
proof -
  note c = admit_gtid_cases[OF assms(1)]
  have "ev_filter (event_base (GtidEv (e\<lparr>gt_gtid_txn_id := st_txn_gtid_seq st\<rparr>)))"
    using assms(3) by (simp add: ObLogEvent.defs)
  then have "admitted rd crc sc (GtidEv e) st a"
    using c numbered_storable(1)[OF assms(2), of "st_txn_gtid_seq st"] by (auto simp: admitted_def)
  moreover have "alloc_inv n st'"
    using c alloc_inv_next[OF assms(4), of st'] alloc_inv_same[OF assms(4), of st'] by blast
  ultimately show ?thesis using c by blast
qed

lemma admit_facts:
  assumes "admit sc e st mg = Some (a, st', mg')" "storable rd e" "ev_filter (event_base e)" "alloc_inv (Suc n) st"
  shows "admitted rd crc sc e st a \<and> place_of st' = place_of st \<and> alloc_inv n st'"
proof (cases "\<exists>g. e = GtidEv g")
  case True
  then obtain g where g: "e = GtidEv g" by blast
  have "eh_type_code (event_hdr g) = GTID_LOG_EVENT" "ev_filter g" using assms(2,3) by (simp_all add: g ObLogEvent.defs)
  then have "admit_gtid sc g st mg = Some (a, st', mg')"
    using assms(1) storable_header[OF assms(2), of crc] by (simp add: admit_def g Let_def)
  then show ?thesis using admit_gtid_facts[of sc g st mg a st' mg' rd n crc] assms(2,4) \<open>ev_filter g\<close> by (simp add: g)
next
  case False
  have t: "eh_type_code (item_hdr (stored_item crc e)) \<noteq> GTID_LOG_EVENT"
    "eh_type_code (item_hdr (stored_item crc e)) = HEARTBEAT_LOG_EVENT \<longleftrightarrow> \<not> to_file e"
    using assms(2) False by (cases e; auto)+
  have "storable rd (XidEv (x\<lparr>xid_xid := st_xid st + 1\<rparr>))" if "e = XidEv x" for x
    using numbered_storable(2) assms(2) that by blast
  then show ?thesis
    using assms(1) t assms(2,3) alloc_inv_same[OF assms(4)]
    by (auto simp: admit_def storable_header[OF assms(2), of crc] Let_def admitted_def bind_eq_Some_conv
        split: if_splits log_event.splits simp del: storable.simps)
qed


text \<open>The events of a batch between two rotations, with the rotation that ends them.\<close>

type_synonym segment = "log_event list \<times> RotateEvent"

abbreviation items_of :: "crc32 \<Rightarrow> log_event list \<Rightarrow> item list" where
  "items_of crc es \<equiv> map (stored_item crc) es"

abbreviation item_wlen :: "item \<Rightarrow> u32" where
  "item_wlen i \<equiv> eh_event_length (item_hdr i)"

fun wplaced :: "u32 \<Rightarrow> item list \<Rightarrow> bool" where
  "wplaced p [] = True"
| "wplaced p (i # is) = (eh_next_position (item_hdr i) = p + item_wlen i \<and> wplaced (p + item_wlen i) is)"

definition rotation_ok :: "storage_config \<Rightarrow> u32 \<Rightarrow> u64 \<Rightarrow> RotateEvent \<Rightarrow> bool" where
  "rotation_ok sc p index r \<longleftrightarrow> rotate_wf r \<and> eh_type_code (event_hdr r) = ROTATE_EVENT \<and>
     eh_next_position (event_hdr r) = p + eh_event_length (event_hdr r) \<and>
     ro_next_binlog_file_name r = ascii (file_name_of sc index) \<and> ro_index r = index \<and>
     list_all message_fit (ro_next_previous_gtids r) \<and> length (ro_next_previous_gtids r) < 2 ^ 32"

fun chained :: "crc32 \<Rightarrow> storage_config \<Rightarrow> u32 \<Rightarrow> u64 \<Rightarrow> segment list \<Rightarrow> log_event list \<Rightarrow> u32 \<Rightarrow> u64 \<Rightarrow> bool" where
  "chained crc sc p index [] es p' index' =
     (wplaced p (items_of crc es) \<and> p' = p + sum_list (map item_wlen (items_of crc es)) \<and> index' = index)"
| "chained crc sc p index ((s, r) # segs) es p' index' =
     (s \<noteq> [] \<and> wplaced p (items_of crc s) \<and> rotation_ok sc (p + sum_list (map item_wlen (items_of crc s))) (index + 1) r \<and>
      chained crc sc (start_pos sc (ro_next_previous_gtids r)) (index + 1) segs es p' index')"

fun prepend :: "log_event \<Rightarrow> segment list \<Rightarrow> log_event list \<Rightarrow> segment list \<times> log_event list" where
  "prepend e [] es = ([], e # es)"
| "prepend e ((s, r) # segs) es = ((e # s, r) # segs, es)"

definition kept :: "log_event option list \<Rightarrow> log_event list" where
  "kept es = filter (\<lambda>e. \<not> ev_filter (event_base e)) (concat (map (case_option [] (\<lambda>e. [e])) es))"

lemma kept_simps [simp]:
  "kept [] = []" "kept (None # es) = kept es"
  "kept (Some e # es) = (if ev_filter (event_base e) then kept es else e # kept es)"
  by (simp_all add: kept_def)

lemma prepend_facts:
  "prepend e segs es = (segs', es') \<Longrightarrow>
   concat (map fst segs') @ es' = e # concat (map fst segs) @ es \<and> map snd segs' = map snd segs"
  by (cases segs) auto

lemma prepend_chained:
  assumes "prepend e segs es = (segs', es')" "eh_next_position (item_hdr (stored_item crc e)) = p + item_wlen (stored_item crc e)"
    and "chained crc sc (p + item_wlen (stored_item crc e)) index segs es p' index'"
  shows "chained crc sc p index segs' es' p' index'"
  using assms by (cases segs) (auto simp: add.assoc)

lemma rotate_facts:
  assumes "rotate_binlog_file junk mem sc ts st b = Some (st', b')" "st_cur_pos st > sc_max_binlog_size sc"
    and "alloc_inv (Suc n) st" "unat ts < 2 ^ 32" "server_text (sc_gtid sc) uuid" "length mem = 16"
    and "length (file_name_of sc (st_binlog_file_index st + 1)) + 31 < 2 ^ 32"
  shows "\<exists>r. b' = b\<lparr>se_rotate_events := se_rotate_events b @ [r], se_is_rotation := True\<rparr> \<and>
     rotation_ok sc (st_cur_pos st) (st_binlog_file_index st + 1) r \<and>
     st_cur_pos st' = start_pos sc (ro_next_previous_gtids r) \<and> st_binlog_file_index st' = st_binlog_file_index st + 1 \<and>
     st_file_name st' = st_file_name st \<and> alloc_inv n st'"
proof -
  let ?i = "st_binlog_file_index st + 1"
  let ?st = "st\<lparr>st_binlog_file_index := ?i,
      st_index_record := (st_index_record st)\<lparr>ir_index := ?i, ir_file_name := binlog_path (file_name_of sc ?i)\<rparr>\<rparr>"
  let ?e = "RotateEvent_init (sc_binlog_checksum sc) (sc_server_id sc) (sc_junk_index sc) (sc_junk_op sc)
      (ucast BINLOG_MAGIC_SIZE) (ascii (file_name_of sc ?i)) ts (st_cur_pos st)"
  obtain ms gs where ms: "merge_gtid_before junk mem (cf_master_server_uuid (sc_gtid sc)) (st_previous_gtid_messages st)
        (st_first_gtid_seq st, st_txn_gtid_seq st - 1) = Some ms" "copy_messages ms = Some gs"
    and st': "st' = ?st\<lparr>st_previous_gtid_messages := ms, st_cur_pos := start_pos sc gs, st_first_gtid_seq := 0\<rparr>"
    and b': "b' = b\<lparr>se_rotate_events := se_rotate_events b @ [?e\<lparr>ro_op := ROTATE, ro_index := ?i, ro_next_previous_gtids := gs\<rparr>],
      se_is_rotation := True\<rparr>"
    using assms(1,2) by (auto simp: rotate_binlog_file_def merge_previous_gtids_def set_start_pos_def Let_def bind_eq_Some_conv)
  have t: "unat (st_txn_gtid_seq st - 1) = unat (st_txn_gtid_seq st) - 1" "unat (st_txn_gtid_seq st) < 2 ^ 62"
    "n < 2 ^ 62" "0 < unat (st_txn_gtid_seq st)"
    using assms(3) by (auto simp: alloc_inv_def unat_sub word_le_nat_alt)
  have "unat (- 1 :: u64) = 2 ^ 64 - 1" by simp
  then have "st_txn_gtid_seq st - 1 < - 1" using t by (simp only: word_less_nat_alt) simp
  moreover have "st_first_gtid_seq st = 0 \<or> valid_range (st_first_gtid_seq st, st_txn_gtid_seq st - 1)"
    using assms(3) t \<open>st_txn_gtid_seq st - 1 < - 1\<close>
    by (auto simp: alloc_inv_def valid_range_def word_le_nat_alt word_less_nat_alt unat_gt_0)
  ultimately have good: "list_all (message_good n) ms"
    using merge_good[OF ms(1)] assms(3,5,6) t by (auto simp: alloc_inv_def)
  then have fit: "list_all message_fit gs \<and> map gm_txn_range gs = map gm_txn_range ms"
    using copy_messages_fit[OF ms(2)] by (auto simp: list_all_iff message_good_def)
  have few: "length ms + n < 2 ^ 32" using merge_length[OF ms(1)] assms(3) by (simp add: alloc_inv_def)
  then have "length gs < 2 ^ 32" using arg_cong[OF conjunct2[OF fit], of length] by simp
  with fit have "list_all message_fit gs \<and> length gs < 2 ^ 32" by blast
  moreover have "rotate_wf ?e" using assms(4,7) by (intro rotate_init_wf) (simp_all add: ascii_def)
  moreover have "alloc_inv n st'" using good few alloc_inv_less[OF assms(3), of n] t by (simp add: alloc_inv_def st')
  ultimately show ?thesis
    by (intro exI[of _ "?e\<lparr>ro_op := ROTATE, ro_index := ?i, ro_next_previous_gtids := gs\<rparr>"])
       (simp add: b' st' rotation_ok_def RotateEvent_init_def rotate_wf_def rotate_image_def event_ok_def Let_def
         OblogEventHeader_init_def RotateEvent.defs ObLogEvent.defs)
qed


definition config_ok :: "storage_config \<Rightarrow> byte list \<Rightarrow> byte list \<Rightarrow> bool" where
  "config_ok sc uuid mem \<longleftrightarrow> server_text (sc_gtid sc) uuid \<and> length mem = 16 \<and> sc_binlog_checksum sc \<and>
     length (sc_file_prefix sc) + sc_file_name_width sc < 200"

lemma to_string_length: "n < 10 ^ Suc k \<Longrightarrow> length (to_string n) \<le> Suc k"
proof (induction n arbitrary: k rule: to_string.induct)
  case (1 n)
  show ?case
  proof (cases "n < 10")
    case True
    then show ?thesis by (simp add: to_string.simps[of n])
  next
    case False
    then obtain j where j: "k = Suc j" using 1(2) by (cases k) auto
    then have "n div 10 < 10 ^ Suc j" using 1(2) by simp
    then show ?thesis using 1(1)[OF False] False j by (simp add: to_string.simps[of n])
  qed
qed

lemma file_name_short: "config_ok sc uuid mem \<Longrightarrow> length (file_name_of sc index) < 256"
proof -
  assume c: "config_ok sc uuid mem"
  have "unat index < 10 ^ Suc 19" using unat_bound[of index] by simp
  then have "length (to_string (unat index)) \<le> 20" using to_string_length by fastforce
  then show ?thesis using c unfolding config_ok_def fill_binlog_file_name_def Let_def by simp linarith
qed

text \<open>One event: it is skipped, or it is placed, with or without a rotation after it.\<close>

lemma allocate_event_facts:
  assumes "allocate_event junk mem sc e (st, mg, b) = Some (e', st', mg', b')" "storable rd e" "ev_filter (event_base e)"
    and "alloc_inv (Suc (Suc n)) st" "config_ok sc uuid mem"
  shows "alloc_inv n st' \<and> st_file_name st' = st_file_name st \<and> se_rotate_offsets b' = se_rotate_offsets b \<and>
    (ev_filter (event_base e') \<and> st_cur_pos st' = st_cur_pos st \<and> st_binlog_file_index st' = st_binlog_file_index st \<and>
       se_rotate_events b' = se_rotate_events b \<and> se_is_rotation b' = se_is_rotation b \<or>
     storable rd e' \<and> to_file e' \<and> \<not> ev_filter (event_base e') \<and> item_wlen (stored_item crc e') = item_wlen (stored_item crc e) \<and>
     eh_next_position (item_hdr (stored_item crc e')) = st_cur_pos st + item_wlen (stored_item crc e') \<and>
       (st_cur_pos st' = st_cur_pos st + item_wlen (stored_item crc e') \<and> st_binlog_file_index st' = st_binlog_file_index st \<and>
        se_rotate_events b' = se_rotate_events b \<and> se_is_rotation b' = se_is_rotation b \<or>
        (\<exists>r. rotation_ok sc (st_cur_pos st + item_wlen (stored_item crc e')) (st_binlog_file_index st + 1) r \<and>
             st_cur_pos st' = start_pos sc (ro_next_previous_gtids r) \<and> st_binlog_file_index st' = st_binlog_file_index st + 1 \<and>
             se_rotate_events b' = se_rotate_events b @ [r] \<and> se_is_rotation b')))"
proof -
  obtain a st1 mg1 where a: "admit sc e st mg = Some (a, st1, mg1)"
    using assms(1) by (auto simp: allocate_event_def bind_eq_Some_conv)
  have f: "admitted rd crc sc e st a" "place_of st1 = place_of st" "alloc_inv (Suc n) st1"
    using admit_facts[OF a assms(2-4)] by auto
  show ?thesis
  proof (cases a)
    case (Skip e1)
    then show ?thesis
      using assms(1) a f alloc_inv_less[OF f(3), of n] by (auto simp: allocate_event_def admitted_def)
  next
    case (Admit e1 rot)
    let ?h = "item_hdr (stored_item crc e1)" and ?p = "st_cur_pos st + item_wlen (stored_item crc e1)"
    let ?st = "st1\<lparr>st_cur_pos := ?p\<rparr>"
    have e1: "storable rd e1" "to_file e1" "?h = item_hdr (stored_item crc e)" "rot \<Longrightarrow> ?p > sc_max_binlog_size sc"
      using f(1) by (auto simp: Admit admitted_def outgrows_def)
    obtain b1 where b1: "SerializeEvent_update_index_record (st_index_record st1) b = Some b1"
      and run: "(if rot then do { (st, b) \<leftarrow> rotate_binlog_file junk mem sc (st_last_record_ts st1) ?st b1;
                      Some (place_at ?p e1, st, mg1, b\<lparr>se_index_pos := Suc (se_index_pos b)\<rparr>) }
                 else Some (place_at ?p e1, ?st, mg1, b1)) = Some (e', st', mg', b')"
      using assms(1) a f(2) storable_header[OF e1(1), of crc]
      by (auto simp: allocate_event_def Admit bind_eq_Some_conv Let_def split: if_splits)
    have b1_same: "se_rotate_events b1 = se_rotate_events b" "se_is_rotation b1 = se_is_rotation b"
      "se_rotate_offsets b1 = se_rotate_offsets b"
      using b1 by (auto simp: SerializeEvent_update_index_record_def split: if_splits)
    have e': "e' = place_at ?p e1" using run by (auto simp: bind_eq_Some_conv split: if_splits)
    note p = place_storable(1-3)[OF e1(1,2), of ?p, folded e'] place_storable(4)[OF e1(1,2), of crc ?p, folded e']
    show ?thesis
    proof (cases rot)
      case False
      then have "st' = ?st" "b' = b1" using run by auto
      then show ?thesis using p e1(3) b1_same f(2) alloc_inv_less[OF f(3), of n] by (simp add: alloc_inv_def)
    next
      case True
      then obtain b2 where r: "rotate_binlog_file junk mem sc (st_last_record_ts st1) ?st b1 = Some (st', b2)"
        "b' = b2\<lparr>se_index_pos := Suc (se_index_pos b2)\<rparr>"
        using run by (auto simp: bind_eq_Some_conv)
      have i: "alloc_inv (Suc n) ?st" "unat (st_last_record_ts st1) < 2 ^ 32" using f(3) by (simp_all add: alloc_inv_def)
      obtain rot_ev where "b2 = b1\<lparr>se_rotate_events := se_rotate_events b1 @ [rot_ev], se_is_rotation := True\<rparr>"
          "rotation_ok sc ?p (st_binlog_file_index st + 1) rot_ev" "st_cur_pos st' = start_pos sc (ro_next_previous_gtids rot_ev)"
          "st_binlog_file_index st' = st_binlog_file_index st + 1" "st_file_name st' = st_file_name st" "alloc_inv n st'"
        using rotate_facts[OF r(1) _ i] e1(4)[OF True] assms(5) file_name_short[OF assms(5), of "st_binlog_file_index st + 1"] f(2)
        by (auto simp: config_ok_def)
      then show ?thesis using p e1(3) b1_same r(2) by (intro conjI) (auto intro!: exI[of _ rot_ev])
    qed
  qed
qed


definition handed_over :: "reader \<Rightarrow> log_event option list \<Rightarrow> bool" where
  "handed_over rd es = list_all (\<lambda>e. case e of None \<Rightarrow> True | Some e \<Rightarrow> storable rd e \<and> ev_filter (event_base e)) es"

definition total_len :: "crc32 \<Rightarrow> log_event option list \<Rightarrow> nat" where
  "total_len crc es = (\<Sum>e\<leftarrow>es. case e of None \<Rightarrow> 0 | Some e \<Rightarrow> item_len (stored_item crc e))"

abbreviation batch_view :: "SerializeEvent \<Rightarrow> u64 list \<times> RotateEvent list \<times> bool" where
  "batch_view b \<equiv> (se_rotate_offsets b, se_rotate_events b, se_is_rotation b)"

lemma allocate_loop_facts:
  assumes "allocate_loop junk mem sc es (st, mg, b) = Some (es', st', mg', b')" "handed_over rd es"
    and "alloc_inv (2 * length es + n) st" "config_ok sc uuid mem"
  shows "\<exists>segs last. kept es' = concat (map fst segs) @ last \<and> list_all (\<lambda>e. storable rd e \<and> to_file e) (kept es') \<and>
    batch_view b' = (se_rotate_offsets b, se_rotate_events b @ map snd segs, se_is_rotation b \<or> segs \<noteq> []) \<and>
    chained crc sc (st_cur_pos st) (st_binlog_file_index st) segs last (st_cur_pos st') (st_binlog_file_index st') \<and>
    alloc_inv n st' \<and> st_file_name st' = st_file_name st \<and> items_len (items_of crc (kept es')) \<le> total_len crc es"
  using assms(1-3)
proof (induction es arbitrary: st mg b es' st' mg' b')
  case Nil
  then show ?case by (intro exI[of _ "[]"]) (simp add: alloc_inv_less total_len_def)
next
  case (Cons o1 es)
  show ?case
  proof (cases o1)
    case None
    then obtain es1 where r: "allocate_loop junk mem sc es (st, mg, b) = Some (es1, st', mg', b')" "es' = None # es1"
      using Cons.prems(1) by (auto simp: bind_eq_Some_conv)
    have "alloc_inv (2 * length es + n) st" using Cons.prems(3) by (rule alloc_inv_less) simp
    then show ?thesis using Cons.IH[OF r(1)] Cons.prems(2) None r(2) by (simp add: handed_over_def total_len_def)
  next
    case (Some e)
    then obtain e1 st1 mg1 b1 es1 where r: "allocate_event junk mem sc e (st, mg, b) = Some (e1, st1, mg1, b1)"
      "allocate_loop junk mem sc es (st1, mg1, b1) = Some (es1, st', mg', b')" "es' = Some e1 # es1"
      using Cons.prems(1) by (auto simp: bind_eq_Some_conv)
    have s: "storable rd e" "ev_filter (event_base e)" "handed_over rd es"
      and i: "alloc_inv (Suc (Suc (2 * length es + n))) st"
      using Cons.prems(2,3) Some by (auto simp: handed_over_def)
    note f = allocate_event_facts[OF r(1) s(1,2) i assms(4), of crc]
    obtain segs last where g: "kept es1 = concat (map fst segs) @ last" "list_all (\<lambda>e. storable rd e \<and> to_file e) (kept es1)"
      "batch_view b' = (se_rotate_offsets b1, se_rotate_events b1 @ map snd segs, se_is_rotation b1 \<or> segs \<noteq> [])"
      "chained crc sc (st_cur_pos st1) (st_binlog_file_index st1) segs last (st_cur_pos st') (st_binlog_file_index st')"
      "alloc_inv n st'" "st_file_name st' = st_file_name st1" "items_len (items_of crc (kept es1)) \<le> total_len crc es"
      using Cons.IH[OF r(2) s(3)] f by blast
    have t: "total_len crc (o1 # es) = item_len (stored_item crc e) + total_len crc es" by (simp add: total_len_def Some)
    show ?thesis
    proof (cases "ev_filter (event_base e1)")
      case True
      then have "kept es' = kept es1" by (simp add: r(3))
      then show ?thesis using f g t True by (intro exI[of _ segs] exI[of _ last]) auto
    next
      case False
      have k: "kept es' = e1 # kept es1" using False by (simp add: r(3))
      have len: "items_len (items_of crc (kept es')) \<le> total_len crc (o1 # es)" using f g(7) t False by (auto simp: k)
      have e1: "storable rd e1" "to_file e1" using f False by auto
      show ?thesis
      proof (cases "se_rotate_events b1 = se_rotate_events b")
        case True
        obtain segs' last' where p: "prepend e1 segs last = (segs', last')" by fastforce
        have "chained crc sc (st_cur_pos st) (st_binlog_file_index st) segs' last' (st_cur_pos st') (st_binlog_file_index st')"
          using prepend_chained[OF p] f g(4) True False by auto
        moreover have "segs' \<noteq> [] \<longleftrightarrow> segs \<noteq> []" using prepend_facts[OF p] by (metis map_is_Nil_conv)
        ultimately show ?thesis
          using f g e1 len prepend_facts[OF p] True False
          by (intro exI[of _ segs'] exI[of _ last']) (auto simp: k)
      next
        case rot: False
        then obtain ev where ev: "rotation_ok sc (st_cur_pos st + item_wlen (stored_item crc e1)) (st_binlog_file_index st + 1) ev"
          "st_cur_pos st1 = start_pos sc (ro_next_previous_gtids ev)" "st_binlog_file_index st1 = st_binlog_file_index st + 1"
          "se_rotate_events b1 = se_rotate_events b @ [ev]" "se_is_rotation b1"
          using f False by auto
        show ?thesis
          using f g e1 len ev False
          by (intro exI[of _ "([e1], ev) # segs"] exI[of _ last]) (auto simp: k)
      qed
    qed
  qed
qed


section \<open>Serialization\<close>

abbreviation segment_items :: "crc32 \<Rightarrow> segment \<Rightarrow> item list" where
  "segment_items crc seg \<equiv> items_of crc (fst seg) @ [rotate_item crc (snd seg)]"

abbreviation batch_bytes :: "crc32 \<Rightarrow> segment list \<Rightarrow> log_event list \<Rightarrow> byte list" where
  "batch_bytes crc segs es \<equiv> concat (map (\<lambda>seg. items_bytes crc (segment_items crc seg)) segs) @ items_bytes crc (items_of crc es)"

text \<open>Where the rotations cut the buffer.\<close>

fun cuts :: "crc32 \<Rightarrow> nat \<Rightarrow> segment list \<Rightarrow> nat list" where
  "cuts crc n [] = []"
| "cuts crc n (seg # segs) =
     (n + length (items_bytes crc (segment_items crc seg))) # cuts crc (n + length (items_bytes crc (segment_items crc seg))) segs"

abbreviation rotation_start :: "RotateEvent \<Rightarrow> u64" where
  "rotation_start r \<equiv> ucast (eh_next_position (event_hdr r) - eh_event_length (event_hdr r))"

abbreviation goes :: "reader \<Rightarrow> log_event \<Rightarrow> bool" where
  "goes rd e \<equiv> storable rd e \<and> to_file e"

lemma serialize_kept:
  "serialize_loop crc mem rot rs es index offs buf = Some res \<Longrightarrow>
   serialize_loop crc mem rot rs (map Some (kept es)) index offs buf = Some res"
  by (induction crc mem rot rs es index offs buf rule: serialize_loop.induct)
     (auto simp: bind_eq_Some_conv Let_def split: if_splits)

lemma kept_live: "e \<in> set (kept es) \<Longrightarrow> \<not> ev_filter (event_base e)"
  by (simp add: kept_def)

lemma items_wlen: "unat p + items_len is < 2 ^ 32 \<Longrightarrow> unat (p + sum_list (map item_wlen is)) = unat p + items_len is"
proof (induction "is" arbitrary: p)
  case (Cons i "is")
  then have "unat (p + item_wlen i) = unat p + item_len i" by (intro unat_add_small) simp
  then show ?case using Cons.IH[of "p + item_wlen i"] Cons.prems by (simp add: add.assoc)
qed simp

lemma wplaced_placed: "wplaced p is \<Longrightarrow> unat p + items_len is < 2 ^ 32 \<Longrightarrow> placed (unat p) is"
proof (induction "is" arbitrary: p)
  case (Cons i "is")
  then have "unat (p + item_wlen i) = unat p + item_len i" by (intro unat_add_small) simp
  then show ?case using Cons.IH[of "p + item_wlen i"] Cons.prems by (simp add: add.assoc)
qed simp

lemma rotate_block_item: "rotate_wf r \<Longrightarrow> rotate_block crc mem r = Some (item_bytes crc (rotate_item crc r))"
proof -
  assume w: "rotate_wf r"
  then obtain h where h: "ev_header r = Some h" by (auto simp: rotate_wf_def event_ok_def)
  show ?thesis
    using re.flush_fits[OF w, of "block mem (unat (eh_event_length h))" crc] stored_split(5)[OF w, of crc]
    by (simp add: rotate_block_def rotate_item_def h)
qed

lemma ucast_up_inj: "(ucast x :: u64) = ucast y \<Longrightarrow> x = (y :: u32)"
  using arg_cong[of "ucast x :: u64" "ucast y" unat] unat_ucast_small[of x, where 'b = 64] unat_ucast_small[of y, where 'b = 64]
    unat_bound[of x] unat_bound[of y] by (simp add: word_unat_eq_iff)

lemma serialize_to_rotation:
  assumes "s \<noteq> []" "list_all (\<lambda>e. goes rd e \<and> \<not> ev_filter (event_base e)) s" "wplaced p (items_of crc s)"
    and "unat p + items_len (items_of crc s) < 2 ^ 32" "index < length rs" "rotate_wf (rs ! index)"
    and "offs ! index = ucast (p + sum_list (map item_wlen (items_of crc s)))"
  shows "serialize_loop crc mem True rs (map Some (s @ rest)) index offs buf =
    (let buf' = buf @ items_bytes crc (segment_items crc (s, rs ! index))
     in serialize_loop crc mem True rs (map Some rest) (Suc index) (offs[index := of_nat (length buf')]) buf')"
  using assms(1-4,7)
proof (induction s arbitrary: p buf)
  case (Cons e s)
  let ?i = "stored_item crc e"
  have e: "storable rd e" "to_file e" "\<not> ev_filter (event_base e)" using Cons.prems(2) by auto
  note hdr = storable_header[OF e(1), of crc] and blk = storable_written[OF e(1,2), of crc mem]
  have np: "eh_next_position (item_hdr ?i) = p + item_wlen ?i" using Cons.prems(3) by simp
  show ?case
  proof (cases "s = []")
    case True
    then show ?thesis
      using e(3) hdr blk np Cons.prems(5) assms(5) rotate_block_item[OF assms(6)] by simp
  next
    case False
    have one: "unat (p + item_wlen ?i) = unat p + item_len ?i" using Cons.prems(4) by (intro unat_add_small) simp
    have all: "unat (p + sum_list (map item_wlen (items_of crc (e # s)))) = unat p + items_len (items_of crc (e # s))"
      by (rule items_wlen[OF Cons.prems(4)])
    have "0 < items_len (items_of crc s)"
      using False Cons.prems(2) item_long[OF storable_item, of rd _ crc] by (cases s) fastforce+
    then have "unat (p + item_wlen ?i) \<noteq> unat (p + sum_list (map item_wlen (items_of crc (e # s))))"
      unfolding one all by (simp only: list.map sum_list.Cons)
    then have "(ucast (p + item_wlen ?i) :: u64) \<noteq> offs ! index"
      unfolding Cons.prems(5) by (auto dest: ucast_up_inj)
    then have "serialize_loop crc mem True rs (map Some ((e # s) @ rest)) index offs buf =
        serialize_loop crc mem True rs (map Some (s @ rest)) index offs (buf @ item_bytes crc ?i)"
      using e(3) hdr blk np by simp
    also have "\<dots> = (let buf' = (buf @ item_bytes crc ?i) @ items_bytes crc (segment_items crc (s, rs ! index))
         in serialize_loop crc mem True rs (map Some rest) (Suc index) (offs[index := of_nat (length buf')]) buf')"
      using Cons.IH[of "p + item_wlen ?i" "buf @ item_bytes crc ?i"] Cons.prems False one by (simp add: add.assoc)
    finally show ?thesis by (simp add: Let_def)
  qed
qed simp

lemma serialize_rest:
  "list_all (\<lambda>e. goes rd e \<and> \<not> ev_filter (event_base e)) s \<Longrightarrow> \<not> (rot \<and> index < length rs) \<Longrightarrow>
   serialize_loop crc mem rot rs (map Some s) index offs buf = Some (offs, buf @ items_bytes crc (items_of crc s))"
proof (induction s arbitrary: buf)
  case (Cons e s)
  then have e: "storable rd e" "to_file e" "\<not> ev_filter (event_base e)" by auto
  show ?case
    using Cons e(3) storable_header[OF e(1), of crc] storable_written[OF e(1,2), of crc mem] by auto
qed simp


fun bounded :: "crc32 \<Rightarrow> storage_config \<Rightarrow> u32 \<Rightarrow> segment list \<Rightarrow> log_event list \<Rightarrow> bool" where
  "bounded crc sc p [] es = (unat p + items_len (items_of crc es) < 2 ^ 32)"
| "bounded crc sc p (seg # segs) es = (unat p + items_len (segment_items crc seg) < 2 ^ 32 \<and>
     bounded crc sc (start_pos sc (ro_next_previous_gtids (snd seg))) segs es)"

lemma serialize_segments:
  assumes "chained crc sc p index segs es p' index'" "bounded crc sc p segs es"
    and "list_all (\<lambda>e. goes rd e \<and> \<not> ev_filter (event_base e)) (concat (map fst segs) @ es)"
    and "segs \<noteq> [] \<longrightarrow> rot" "length offs0 = length rs0"
  shows "serialize_loop crc mem rot (rs0 @ map snd segs) (map Some (concat (map fst segs) @ es)) (length rs0)
      (offs0 @ map (\<lambda>seg. rotation_start (snd seg)) segs) buf =
    Some (offs0 @ map of_nat (cuts crc (length buf) segs), buf @ batch_bytes crc segs es)"
  using assms
proof (induction segs arbitrary: p index rs0 offs0 buf)
  case Nil
  then show ?case using serialize_rest[of rd es rot "length rs0" rs0 crc mem offs0 buf] by simp
next
  case (Cons seg segs)
  obtain s r where seg: "seg = (s, r)" by fastforce
  let ?rs = "rs0 @ map snd (seg # segs)" and ?offs = "offs0 @ map (\<lambda>seg. rotation_start (snd seg)) (seg # segs)"
  let ?bs = "items_bytes crc (segment_items crc seg)"
  have c: "s \<noteq> []" "wplaced p (items_of crc s)" "rotation_ok sc (p + sum_list (map item_wlen (items_of crc s))) (index + 1) r"
    "chained crc sc (start_pos sc (ro_next_previous_gtids r)) (index + 1) segs es p' index'"
    using Cons.prems(1) by (auto simp: seg)
  have rot: "rot = True" "?rs ! length rs0 = r" "length rs0 < length ?rs" using Cons.prems(4) by (simp_all add: seg)
  have o: "?offs ! length rs0 = ucast (p + sum_list (map item_wlen (items_of crc s)))" "rotate_wf r"
    using c(3) Cons.prems(5) by (simp_all add: seg nth_append rotation_ok_def)
  have l: "list_all (\<lambda>e. goes rd e \<and> \<not> ev_filter (event_base e)) s" "unat p + items_len (items_of crc s) < 2 ^ 32"
    using Cons.prems(2,3) by (auto simp: seg)
  have u: "?offs[length rs0 := of_nat (length (buf @ ?bs))] =
      (offs0 @ [of_nat (length (buf @ ?bs))]) @ map (\<lambda>seg. rotation_start (snd seg)) segs"
    using Cons.prems(5) by (simp add: list_update_append)
  have "serialize_loop crc mem rot ?rs (map Some (concat (map fst (seg # segs)) @ es)) (length rs0) ?offs buf =
      serialize_loop crc mem rot ((rs0 @ [r]) @ map snd segs) (map Some (concat (map fst segs) @ es)) (length (rs0 @ [r]))
        ((offs0 @ [of_nat (length (buf @ ?bs))]) @ map (\<lambda>seg. rotation_start (snd seg)) segs) (buf @ ?bs)"
    using serialize_to_rotation[OF c(1) l(1) c(2) l(2) rot(3) _ o(1), of mem "concat (map fst segs) @ es" buf] o(2) u rot(1,2)
    by (simp add: seg Let_def)
  also have "\<dots> = Some ((offs0 @ [of_nat (length (buf @ ?bs))]) @ map of_nat (cuts crc (length (buf @ ?bs)) segs),
      (buf @ ?bs) @ batch_bytes crc segs es)"
    using Cons.prems(2,3,5) rot(1) by (intro Cons.IH[OF c(4)]) (auto simp: seg)
  finally show ?case by simp
qed

lemma chained_rotations:
  "chained crc sc p index segs es p' index' \<Longrightarrow> seg \<in> set segs \<Longrightarrow>
   rotate_wf (snd seg) \<and> list_all message_fit (ro_next_previous_gtids (snd seg)) \<and> length (ro_next_previous_gtids (snd seg)) < 2 ^ 32"
  by (induction crc sc p index segs es p' index' rule: chained.induct) (auto simp: rotation_ok_def)

lemma all_offsets_rotations:
  "\<forall>seg\<in>set segs. rotate_wf (snd seg) \<Longrightarrow>
   all_offsets (map snd segs) = Some (map (\<lambda>seg. rotation_start (snd seg)) segs)"
proof (induction segs)
  case (Cons seg segs)
  then obtain h where "ev_header (snd seg) = Some h" by (auto simp: rotate_wf_def event_ok_def)
  then show ?case using Cons by (simp add: rotate_offset_def)
qed simp


section \<open>The head of a file\<close>

abbreviation messages_size :: "GtidMessage list \<Rightarrow> nat" where
  "messages_size ms \<equiv> \<Sum>m\<leftarrow>ms. message_size m"

lemma omap_put_new: "map_of gm k = None \<Longrightarrow>
  length (omap_put k m gm) = Suc (length gm) \<and>
  (\<Sum>(k, m)\<leftarrow>omap_put k m gm. message_size m) = (\<Sum>(k, m)\<leftarrow>gm. message_size m) + message_size m"
  by (induction k m gm rule: omap_put.induct) (auto split: if_splits)

text \<open>When no uuid occurs twice the map holds all messages.\<close>

lemma set_gtid_messages_all:
  "set_gtid_messages ms gm = Some gm' \<Longrightarrow> length gm' \<le> length gm + length ms \<and>
   (length gm' = length gm + length ms \<longrightarrow>
    (\<Sum>(k, m)\<leftarrow>gm'. message_size m) = (\<Sum>(k, m)\<leftarrow>gm. message_size m) + messages_size ms)"
proof (induction ms gm rule: set_gtid_messages.induct)
  case (2 m ms gm)
  then obtain k where k: "set_gtid_messages ms (omap_emplace k m gm) = Some gm'" "uuid_hex_bin_to_str (gm_gtid_uuid m) = Some k"
    by (auto simp: bind_eq_Some_conv)
  note ih = 2(1)[OF k(2,1)]
  show ?case
  proof (cases "map_of gm k = None")
    case True
    then show ?thesis using ih omap_put_new[OF True, of m] by (simp add: omap_emplace_def)
  next
    case False
    then show ?thesis using ih by (auto simp: omap_emplace_def)
  qed
qed simp

lemma ucast_narrow: "(ucast (of_nat n :: u64) :: u32) = of_nat n"
  by (simp add: unsigned_of_nat word_of_nat_eq_iff)

lemma start_pos_value:
  assumes "155 + messages_size ms < 2 ^ 32"
  shows "unat (start_pos sc ms) = (if sc_binlog_checksum sc then 155 else 151) + messages_size ms"
proof -
  have f: "foldl (\<lambda>pos m. pos + ucast (get_gtid_length m)) (p :: u32) ms = p + of_nat (messages_size ms)" for p
  proof (induction ms arbitrary: p)
    case (Cons m ms)
    have "get_gtid_length m = of_nat (message_size m)"
      by (simp add: get_gtid_length_def SERVER_UUID_LEN_def)
    then have "(ucast (get_gtid_length m) :: u32) = of_nat (message_size m)" by (simp only: ucast_narrow)
    then show ?case using Cons[of "p + ucast (get_gtid_length m)"] by (simp add: add.assoc)
  qed simp
  have n: "(if sc_binlog_checksum sc then 155 else 151) + messages_size ms < 2 ^ LENGTH(32)" using assms by simp
  have "start_pos sc ms = of_nat ((if sc_binlog_checksum sc then 155 else 151) + messages_size ms)"
    by (simp add: start_pos_def f BINLOG_START_FIXED_POS_def COMMON_CHECKSUM_LENGTH_def)
  then show ?thesis using unat_of_nat_small[OF n] by simp
qed


text \<open>The previous-GTIDs event that fits into what is left of the block.\<close>

lemma previous_event_facts:
  assumes "previous_event sc start ms ts = Some e" "PreviousGtidsLogEvent_flush crc e buf = Some c"
    and "list_all message_fit ms" "length ms < 2 ^ 32" "unat ts < 2 ^ 32" "length buf < 2 ^ 31"
  shows "previous_wf e" "eh_type_code (event_hdr e) = PREVIOUS_GTIDS_LOG_EVENT"
    "eh_next_position (event_hdr e) = start + eh_event_length (event_hdr e)"
    "unat (eh_event_length (event_hdr e)) = (if sc_binlog_checksum sc then 31 else 27) + messages_size ms"
proof -
  let ?cs = "sc_binlog_checksum sc" and ?sum = "\<lambda>gm. \<Sum>(k, m)\<leftarrow>gm. message_size m"
  obtain e0 h0 where e0: "PreviousGtidsLogEvent_init ?cs (sc_server_id sc) (of_nat (length ms)) ms ts = Some e0"
    "ev_header e0 = Some h0" "e = e0\<lparr>ev_header := Some (h0\<lparr>eh_next_position := start + eh_event_length h0\<rparr>)\<rparr>"
    using assms(1) by (auto simp: previous_event_def bind_eq_Some_conv)
  have gm: "set_gtid_messages ms [] = Some (pg_gtid_messages e0)" "length ms = length (pg_gtid_messages e0)"
    "eh_type_code h0 = PREVIOUS_GTIDS_LOG_EVENT" "eh_event_length h0 = of_nat ((if ?cs then 31 else 27) + ?sum (pg_gtid_messages e0))"
    using e0(1,2) assms(4)
    by (auto simp: PreviousGtidsLogEvent_init_def bind_eq_Some_conv Let_def COMMON_HEADER_LENGTH_def init_simps
        SERVER_UUID_LEN_def OblogEventHeader_init_def ObLogEvent.defs PreviousGtidsLogEvent.defs split: if_splits)
  have all: "?sum (pg_gtid_messages e0) = messages_size ms" using set_gtid_messages_all[OF gm(1)] gm(2) by simp
  have ok: "list_all message_ok (pg_gtid_messages e0)" using set_gtid_messages_ok[OF gm(1) assms(3)] by simp
  let ?pre = "header_bytes (h0\<lparr>eh_next_position := start + eh_event_length h0\<rparr>) @ int8store (pg_gtid_uuid_num e0)"
  obtain c1 where "emit ?pre (buf, 0) \<bind> emit_messages (pg_gtid_messages e0) = Some c1"
    using assms(2) by (auto simp: e0(3) PreviousGtidsLogEvent_flush_def header_flush bind_eq_Some_conv split: if_splits)
  then have "emit (?pre @ concat (map message_bytes (pg_gtid_messages e0))) (buf, 0) = Some c1"
    using emit_then_messages[OF ok, of ?pre "(buf, 0)"] by simp
  then have "27 + ?sum (pg_gtid_messages e0) \<le> length buf"
    using length_messages[OF ok] by (simp add: emit_def poke_def split: if_splits del: length_concat)
  then have small: "messages_size ms + 31 < 2 ^ 32" using all assms(6) by simp
  have "previous_wf e0" by (rule previous_init_wf[OF e0(1) assms(3) small assms(5)])
  then show "previous_wf e" using e0(2) by (auto simp: e0(3) previous_wf_def event_ok_def previous_image_def proper_header_def)
  show "eh_type_code (event_hdr e) = PREVIOUS_GTIDS_LOG_EVENT"
    "eh_next_position (event_hdr e) = start + eh_event_length (event_hdr e)" by (simp_all add: e0(3) gm(3))
  have "(if ?cs then 31 else 27) + messages_size ms < 2 ^ LENGTH(32)" using small by simp
  from unat_of_nat_small[OF this]
  show "unat (eh_event_length (event_hdr e)) = (if ?cs then 31 else 27) + messages_size ms" by (simp add: e0(3) gm(4) all)
qed


lemma init_head_parts:
  assumes "init_head crc mem sc r = Some bs" "list_all message_fit (ro_next_previous_gtids r)"
    and "length (ro_next_previous_gtids r) < 2 ^ 32" and h: "ev_header r = Some h" and ts: "unat (eh_timestamp h) < 2 ^ 32"
  shows "\<exists>hs. bs = binlog_magic @ items_bytes crc hs \<and> file_head hs \<and> list_all (item_ok rd) hs \<and> placed 4 hs"
    "length bs = (if sc_binlog_checksum sc then 155 else 147) + messages_size (ro_next_previous_gtids r)" "length bs \<le> 1024"
proof -
  let ?cs = "sc_binlog_checksum sc" and ?ms = "ro_next_previous_gtids r"
  let ?fl = "if ?cs then 120 else 116 :: nat" and ?pl = "(if ?cs then 31 else 27) + messages_size ?ms"
  let ?fd = "FormatDescriptionEvent_init ?cs (sc_server_id sc) (eh_timestamp h)"
  obtain hf where hf: "ev_header ?fd = Some hf" and fd: "format_wf ?fd" and flen: "unat (eh_event_length hf) = ?fl"
    and fpos: "eh_next_position hf = 4 + eh_event_length hf" "eh_type_code hf = FORMAT_DESCRIPTION_EVENT"
    using format_init_wf[OF ts, of ?cs "sc_server_id sc"]
    by (auto simp: FormatDescriptionEvent_init_def Let_def ObLogEvent.defs BINLOG_MAGIC_SIZE_def)
  let ?fb = "fe.file_bytes crc ?fd"
  have m: "emit binlog_magic (block mem 1024, 0) = Some (binlog_magic @ drop 4 (block mem 1024), 4)"
    by (simp add: emit_start binlog_magic_def eval_nat_numeral)
  have f: "FormatDescriptionEvent_flush crc ?fd (drop 4 (block mem 1024)) = Some (?fb @ drop (?fl + 4) (block mem 1024), ?fl)"
    using fe.flush_fits[OF fd, of "drop 4 (block mem 1024)" crc] hf flen by (simp add: add.commute split: if_splits)
  have lf: "length ?fb = ?fl" using fe.file_bytes_length[OF fd, of crc] hf flen by simp
  have m4: "length binlog_magic = 4" by (simp add: binlog_magic_def)
  let ?rest = "drop (?fl + 4) (block mem 1024)"
  obtain prev pbuff pn where prev: "previous_event sc (eh_next_position hf) ?ms (eh_timestamp h) = Some prev"
    "PreviousGtidsLogEvent_flush crc prev ?rest = Some (pbuff, pn)" "bs = binlog_magic @ ?fb @ take pn pbuff"
    using assms(1) h hf m f lf m4 by (auto simp: init_head_def bind_eq_Some_conv Let_def split: if_splits)
  have rest: "length ?rest = 1020 - ?fl" by simp
  note p = previous_event_facts[OF prev(1,2) assms(2,3) ts]
  have pw: "previous_wf prev" and pt: "eh_type_code (event_hdr prev) = PREVIOUS_GTIDS_LOG_EVENT"
    and pp: "eh_next_position (event_hdr prev) = eh_next_position hf + eh_event_length (event_hdr prev)"
    and plen: "unat (eh_event_length (event_hdr prev)) = ?pl"
    using p rest by auto
  let ?pb = "pe.file_bytes crc prev"
  have fit: "?pl \<le> length ?rest" using pe.flush_short[OF pw, of ?rest crc] prev(2) plen by (cases "?pl \<le> length ?rest") auto
  then have pb: "take pn pbuff = ?pb" "length ?pb = ?pl"
    using pe.flush_fits[OF pw, of ?rest crc] pe.file_bytes_length[OF pw, of crc] prev(2) plen by auto
  let ?hs = "[OtherItem hf (drop 19 ?fb), OtherItem (event_hdr prev) (drop 19 ?pb)]"
  have bytes: "header_bytes hf @ drop 19 ?fb = ?fb" "header_bytes (event_hdr prev) @ drop 19 ?pb = ?pb"
    using fe.file_bytes_split[OF fd, of crc] pe.file_bytes_split[OF pw, of crc] hf by simp_all
  have bs: "bs = binlog_magic @ items_bytes crc ?hs" using prev(3) pb(1) bytes by simp
  have "unat (eh_next_position hf) = 4 + ?fl" using fpos(1) flen by (simp add: unat_add_small)
  moreover have "unat (eh_next_position (event_hdr prev)) = 4 + ?fl + ?pl"
    using pp plen \<open>unat (eh_next_position hf) = 4 + ?fl\<close> fit rest by (simp add: unat_add_small)
  moreover have "file_head ?hs" using fpos(2) pt by (simp add: file_head_def)
  moreover have "list_all (item_ok rd) ?hs"
    using fe.body_length[OF fd, of crc] pe.body_length[OF pw, of crc] hf fd pw fpos(2) pt
    by (simp add: format_wf_def previous_wf_def event_ok_def)
  ultimately show "\<exists>hs. bs = binlog_magic @ items_bytes crc hs \<and> file_head hs \<and> list_all (item_ok rd) hs \<and> placed 4 hs"
    using bs flen plen by (intro exI[of _ ?hs]) (simp add: add.assoc)
  show "length bs = (if ?cs then 155 else 147) + messages_size ?ms" "length bs \<le> 1024"
    using prev(3) pb lf fit rest by (simp_all add: binlog_magic_def split: if_splits)
qed

lemma init_head_facts:
  assumes "init_head crc mem sc r = Some bs" "rotate_wf r" "list_all message_fit (ro_next_previous_gtids r)"
    and "length (ro_next_previous_gtids r) < 2 ^ 32"
  shows "\<exists>hs. bs = binlog_magic @ items_bytes crc hs \<and> file_head hs \<and> list_all (item_ok rd) hs \<and> placed 4 hs"
    "length bs = (if sc_binlog_checksum sc then 155 else 147) + messages_size (ro_next_previous_gtids r)" "length bs \<le> 1024"
proof -
  obtain h where "ev_header r = Some h" "unat (eh_timestamp h) < 2 ^ 32"
    using assms(2) by (auto simp: rotate_wf_def event_ok_def proper_header_def)
  note init_head_parts[OF assms(1,3,4) this]
  then show "\<exists>hs. bs = binlog_magic @ items_bytes crc hs \<and> file_head hs \<and> list_all (item_ok rd) hs \<and> placed 4 hs"
    "length bs = (if sc_binlog_checksum sc then 155 else 147) + messages_size (ro_next_previous_gtids r)" "length bs \<le> 1024"
    by blast+
qed


section \<open>Storing\<close>

text \<open>A binlog file as a reader expects it: the two events of its head, whole events behind them, and each event
  naming the position where it ends.\<close>

definition fine_file :: "reader \<Rightarrow> crc32 \<Rightarrow> byte list \<Rightarrow> bool" where
  "fine_file rd crc bs \<longleftrightarrow> (\<exists>hs is. bs = binlog_magic @ items_bytes crc (hs @ is) \<and> file_head hs \<and>
     list_all (item_ok rd) (hs @ is) \<and> placed 4 (hs @ is))"

lemma magic_length: "length binlog_magic = 4"
  by (simp add: binlog_magic_def)

lemma fine_append:
  assumes "fine_file rd crc bs" "list_all (item_ok rd) is" "placed (length bs) is"
  shows "fine_file rd crc (bs @ items_bytes crc is)"
proof -
  obtain hs js where f: "bs = binlog_magic @ items_bytes crc (hs @ js)" "file_head hs" "list_all (item_ok rd) (hs @ js)"
    "placed 4 (hs @ js)" using assms(1) by (auto simp: fine_file_def)
  have "length bs = 4 + items_len (hs @ js)" using items_len_bytes[OF f(3), of crc] by (simp only: f(1) length_append magic_length)
  then have "placed 4 ((hs @ js) @ is)" using f(4) assms(3) by (simp only: placed_append simp_thms)
  then show ?thesis using f(1-3) assms(2) unfolding fine_file_def
    by (intro exI[of _ hs] exI[of _ "js @ is"]) simp
qed

text \<open>Clearing the in-use flag of the first event leaves all positions alone.\<close>

lemma clear_in_use_file:
  "clear_in_use (binlog_magic @ header_bytes h @ body) = binlog_magic @ header_bytes (h\<lparr>eh_flags := 0\<rparr>) @ body"
  by (simp add: clear_in_use_def binlog_magic_def header_bytes_def take_append numeral_eq_Suc)

lemma fine_clear:
  assumes "fine_file rd crc bs"
  shows "fine_file rd crc (clear_in_use bs)"
proof -
  obtain h1 b1 h2 b2 js where f: "bs = binlog_magic @ items_bytes crc ([OtherItem h1 b1, OtherItem h2 b2] @ js)"
    "eh_type_code h1 = FORMAT_DESCRIPTION_EVENT" "eh_type_code h2 = PREVIOUS_GTIDS_LOG_EVENT"
    "list_all (item_ok rd) ([OtherItem h1 b1, OtherItem h2 b2] @ js)" "placed 4 ([OtherItem h1 b1, OtherItem h2 b2] @ js)"
    using assms by (auto simp: fine_file_def file_head_def)
  let ?hs = "[OtherItem (h1\<lparr>eh_flags := 0\<rparr>) b1, OtherItem h2 b2]"
  have "clear_in_use bs = binlog_magic @ items_bytes crc (?hs @ js)"
    using clear_in_use_file[of h1] by (simp add: f(1))
  moreover have "file_head ?hs" using f(2,3) by (simp add: file_head_def)
  moreover have "list_all (item_ok rd) (?hs @ js)" "placed 4 (?hs @ js)" using f(4,5) by (simp_all add: proper_header_def)
  ultimately show ?thesis unfolding fine_file_def by blast
qed

text \<open>Names of files.\<close>

lemma text_ascii: "text_of (ascii s) = s"
proof -
  have "char_of (unat (of_char c :: byte)) = c" for c :: char
    using nat_of_char_less_256[of c] unat_of_nat_small[of "of_char c", where 'a = 8] by (simp add: of_nat_of_char)
  then show ?thesis by (simp add: text_of_def ascii_def map_idI)
qed


lemma digits_val_zeros: "digits_val (replicate k CHR ''0'' @ ds) = digits_val ds"
proof -
  have "foldl (\<lambda>v c. 10 * v + digit_val c) 0 (replicate k CHR ''0'') = 0"
    by (induction k) (simp_all add: digit_val_def)
  then show ?thesis by (simp add: digits_val_def)
qed

lemma file_names_distinct: "binlog_path (file_name_of sc i) = binlog_path (file_name_of sc j) \<Longrightarrow> i = j"
proof -
  assume "binlog_path (file_name_of sc i) = binlog_path (file_name_of sc j)"
  then have "replicate (sc_file_name_width sc - length (to_string (unat i))) CHR ''0'' @ to_string (unat i) =
      replicate (sc_file_name_width sc - length (to_string (unat j))) CHR ''0'' @ to_string (unat j)"
    by (simp add: binlog_path_def fill_binlog_file_name_def Let_def)
  from arg_cong[OF this, of digits_val] show ?thesis by (simp add: digits_val_zeros word_unat_eq_iff)
qed

text \<open>All files are fine, the current one ends at the position \<^verbatim>\<open>p\<close>, and the next ones do not exist yet.\<close>

definition files_ok :: "reader \<Rightarrow> crc32 \<Rightarrow> storage_config \<Rightarrow> string \<Rightarrow> BinlogIndexManager \<Rightarrow> u32 \<Rightarrow> u64 \<Rightarrow> bool" where
  "files_ok rd crc sc name im p index \<longleftrightarrow> name = binlog_path (file_name_of sc index) \<and>
     (\<forall>f bs. im_binlog_files im f = Some bs \<longrightarrow> fine_file rd crc bs) \<and>
     (\<exists>bs. im_binlog_files im name = Some bs \<and> length bs = unat p) \<and>
     (\<forall>j. unat index < unat j \<longrightarrow> im_binlog_files im (binlog_path (file_name_of sc j)) = None)"

lemma persistent_facts:
  assumes "persistent_binlog junk um sc bs r (st, im, mg) = Some (ok, r', st', im', mg')" "st_file_name st \<noteq> []"
  shows "ok" "st_file_name st' = st_file_name st"
    "im_binlog_files im' = (im_binlog_files im)(st_file_name st \<mapsto> content_of (st_file_name st) im @ bs)"
  using assms
  by (auto simp: persistent_binlog_def update_index_record_def update_index_def append_content_def set_content_def
      bind_eq_Some_conv Let_def split: if_splits option.splits)

lemma files_ok_append:
  assumes "files_ok rd crc sc name im p index" "list_all (item_ok rd) is" "placed (unat p) is" "unat p + items_len is < 2 ^ 32"
    and "im_binlog_files im' = (im_binlog_files im)(name \<mapsto> content_of name im @ items_bytes crc is)"
  shows "files_ok rd crc sc name im' (p + sum_list (map item_wlen is)) index"
proof -
  obtain bs where bs: "im_binlog_files im name = Some bs" "length bs = unat p" using assms(1) by (auto simp: files_ok_def)
  have "fine_file rd crc (bs @ items_bytes crc is)"
    using assms(1-3) bs by (intro fine_append) (auto simp: files_ok_def)
  moreover have "length (bs @ items_bytes crc is) = unat (p + sum_list (map item_wlen is))"
    using items_wlen[OF assms(4)] items_len_bytes[OF assms(2), of crc] bs(2) by (simp only: length_append)
  moreover have "binlog_path (file_name_of sc j) \<noteq> name" if "unat index < unat j" for j
    using assms(1) file_names_distinct[of sc j index] that by (auto simp: files_ok_def)
  ultimately show ?thesis using assms(1,5) bs by (auto simp: files_ok_def content_of_def simp del: length_concat)
qed

lemma init_next_facts:
  assumes "init_next_binlog_file crc mem sc r rec (st, im, mg) = Some (ok, rec', st', im', mg')"
    and "files_ok rd crc sc (st_file_name st) im p index" "rotation_ok sc q (index + 1) r" "sc_binlog_checksum sc"
    and "unat index + 1 < 2 ^ 64"
  shows "ok" "files_ok rd crc sc (st_file_name st') im' (start_pos sc (ro_next_previous_gtids r)) (index + 1)"
    "init_head crc mem sc r \<noteq> None"
proof -
  let ?new = "binlog_path (file_name_of sc (index + 1))" and ?old = "binlog_path (file_name_of sc index)"
  have r: "rotate_wf r" "ro_next_binlog_file_name r = ascii (file_name_of sc (index + 1))" "ro_index r = index + 1"
    "list_all message_fit (ro_next_previous_gtids r)" "length (ro_next_previous_gtids r) < 2 ^ 32"
    using assms(3) by (auto simp: rotation_ok_def)
  have old: "st_file_name st = ?old" using assms(2) by (simp add: files_ok_def)
  obtain bs where bs: "im_binlog_files im ?old = Some bs" using assms(2) old by (auto simp: files_ok_def)
  obtain head where head: "init_head crc mem sc r = Some head" using assms(1) by (auto simp: init_next_binlog_file_def bind_eq_Some_conv)
  have i: "unat (index + 1) = unat index + 1" using assms(5) by (intro unat_add_small[THEN trans]) simp_all
  have "?new \<noteq> ?old" using file_names_distinct[of sc "index + 1" index] i by auto
  moreover have absent: "im_binlog_files im ?new = None" using assms(2) i by (simp add: files_ok_def)
  ultimately have run: "ok \<and> st_file_name st' = ?new \<and>
      im_binlog_files im' = (im_binlog_files im)(?old \<mapsto> clear_in_use bs, ?new \<mapsto> head)"
    using assms(1) head bs r
    by (auto simp: init_next_binlog_file_def clear_flags_def add_next_binlog_index_def append_content_def set_content_def
        content_of_def add_index_def text_ascii Let_def)
  note h = init_head_facts[OF head r(1,4,5)]
  obtain hs where "head = binlog_magic @ items_bytes crc hs" "file_head hs" "list_all (item_ok rd) hs" "placed 4 hs"
    using h(1)[of rd] by blast
  then have "fine_file rd crc head" unfolding fine_file_def by (intro exI[of _ hs] exI[of _ "[]"]) simp
  moreover have "fine_file rd crc (clear_in_use bs)" using assms(2) bs by (intro fine_clear) (auto simp: files_ok_def)
  moreover have "length head = unat (start_pos sc (ro_next_previous_gtids r))"
    using h(2,3) assms(4) start_pos_value[of "ro_next_previous_gtids r" sc] by simp
  moreover have "binlog_path (file_name_of sc j) \<noteq> ?new \<and> binlog_path (file_name_of sc j) \<noteq> ?old \<and> unat index < unat j"
    if "unat (index + 1) < unat j" for j
    using file_names_distinct[of sc j] that i by fastforce
  ultimately show "files_ok rd crc sc (st_file_name st') im' (start_pos sc (ro_next_previous_gtids r)) (index + 1)"
    using run assms(2) by (auto simp: files_ok_def)
  show "ok" "init_head crc mem sc r \<noteq> None" using run head by simp_all
qed


section \<open>A batch\<close>

lemma rotation_item:
  assumes "rotation_ok sc p index r"
  shows "item_ok rd (rotate_item crc r)" "wplaced p [rotate_item crc r]"
  using assms re.body_length[of r crc] by (auto simp: rotation_ok_def rotate_item_def rotate_wf_def event_ok_def)

lemma rotation_len:
  assumes "rotation_ok sc p index r" "config_ok sc uuid mem"
  shows "item_len (rotate_item crc r) < 300"
proof -
  have "length (rotate_image r) + unat (get_checksum_len (ev_checksum_flag r)) = unat (eh_event_length (event_hdr r))"
    using assms(1) by (auto simp: rotation_ok_def rotate_wf_def event_ok_def)
  moreover have "length (rotate_image r) = 27 + length (file_name_of sc index)"
    using assms(1) by (simp add: rotation_ok_def rotate_image_def ascii_def)
  ultimately show ?thesis
    using file_name_short[OF assms(2), of index] by (simp add: rotate_item_def get_checksum_len_def COMMON_CHECKSUM_LENGTH_def split: if_splits)
qed

lemma chained_bounded:
  assumes "chained crc sc p index segs es p' index'" "config_ok sc uuid mem"
    and "\<forall>seg\<in>set segs. unat (start_pos sc (ro_next_previous_gtids (snd seg))) \<le> 1024"
    and "unat p + (items_len (items_of crc (concat (map fst segs) @ es)) + 300 * length segs) < 2 ^ 32"
    and "1024 + (items_len (items_of crc (concat (map fst segs) @ es)) + 300 * length segs) < 2 ^ 32"
  shows "bounded crc sc p segs es"
  using assms
proof (induction segs arbitrary: p index)
  case (Cons seg segs)
  obtain s r where seg: "seg = (s, r)" by fastforce
  have c: "rotation_ok sc (p + sum_list (map item_wlen (items_of crc s))) (index + 1) r"
    "chained crc sc (start_pos sc (ro_next_previous_gtids r)) (index + 1) segs es p' index'"
    using Cons.prems(1) by (auto simp: seg)
  have "bounded crc sc (start_pos sc (ro_next_previous_gtids r)) segs es"
    using Cons.prems by (intro Cons.IH[OF c(2)]) (auto simp: seg)
  then show ?case using Cons.prems(4) rotation_len[OF c(1) assms(2), of crc] by (simp add: seg)
qed simp

lemma store_rotations_step:
  assumes "store_rotations junk um crc mem sc b (offset # offsets) cur index s = Some res"
  obtains bs r s1 r' s2 where "cur < unat offset" "peek (unat offset - cur) (se_buffer b) cur = Some bs"
    "persistent_binlog junk um sc bs (se_index_records b ! index) s = Some (True, r, s1)"
    "init_next_binlog_file crc mem sc (se_rotate_events b ! index) r s1 = Some (True, r', s2)"
    "store_rotations junk um crc mem sc b offsets (unat offset) (Suc index) s2 = Some res"
  using assms by (auto simp: bind_eq_Some_conv split: if_splits)

lemma store_rotations_heads:
  "store_rotations junk um crc mem sc b offsets cur index s = Some res \<Longrightarrow> k < length offsets \<Longrightarrow>
   init_head crc mem sc (se_rotate_events b ! (index + k)) \<noteq> None"
proof (induction offsets arbitrary: cur index s k)
  case (Cons offset offsets)
  obtain r s1 r' s2 where i: "init_next_binlog_file crc mem sc (se_rotate_events b ! index) r s1 = Some (True, r', s2)"
    and g: "store_rotations junk um crc mem sc b offsets (unat offset) (Suc index) s2 = Some res"
    by (rule store_rotations_step[OF Cons.prems(1)])
  show ?case
  proof (cases k)
    case 0
    then show ?thesis using i by (cases s1) (auto simp: init_next_binlog_file_def bind_eq_Some_conv)
  next
    case (Suc j)
    then show ?thesis using Cons.IH[OF g, of j] Cons.prems(2) by simp
  qed
qed simp

lemma serialize_loop_offsets:
  "serialize_loop crc mem rot rs es index offs buf = Some (offs', buf') \<Longrightarrow> length offs' = length offs"
proof (induction crc mem rot rs es index offs buf rule: serialize_loop.induct)
  case (3 crc mem rot rs e es index offs buf)
  show ?case
  proof (cases "ev_filter (event_base e)")
    case True
    then show ?thesis using 3 by simp
  next
    case False
    then obtain h bs where h: "ev_header (event_base e) = Some h" "event_block crc mem e = Some bs"
      using 3(4) by (auto simp: bind_eq_Some_conv)
    show ?thesis
    proof (cases "rot \<and> index < length rs \<and> ucast (eh_next_position h) = offs ! index")
      case True
      then obtain ro where ro: "rotate_block crc mem (rs ! index) = Some ro"
        using 3(4) False h by (simp add: if_P[OF True] bind_eq_Some_conv) blast
      then have "serialize_loop crc mem rot rs es (Suc index) (offs[index := of_nat (length (buf @ bs @ ro))]) (buf @ bs @ ro) =
          Some (offs', buf')"
        using 3(4) False h by (simp add: if_P[OF True] Let_def)
      from 3(2)[OF False h True ro refl this] show ?thesis by simp
    next
      case no: False
      then have "serialize_loop crc mem rot rs es index offs (buf @ bs) = Some (offs', buf')"
        using 3(4) False h by (simp only: serialize_loop.simps if_False Option.bind.simps if_not_P[OF no])
      from 3(3)[OF False h no this] show ?thesis .
    qed
  qed
qed simp_all


lemma items_goes: "list_all (goes rd) es \<Longrightarrow> list_all (item_ok rd) (items_of crc es)"
  by (induction es) (simp_all add: storable_item)

lemma wplaced_append: "wplaced p (is @ js) \<longleftrightarrow> wplaced p is \<and> wplaced (p + sum_list (map item_wlen is)) js"
  by (induction "is" arbitrary: p) (simp_all add: add.assoc)

lemma files_ok_named: "files_ok rd crc sc name im p index \<Longrightarrow> name \<noteq> []"
  by (simp add: files_ok_def binlog_path_def)

lemma persistent_files_ok:
  assumes "persistent_binlog junk um sc (items_bytes crc is) r (st, im, mg) = Some (ok, r', st', im', mg')"
    and "files_ok rd crc sc (st_file_name st) im p index" "list_all (item_ok rd) is" "wplaced p is" "unat p + items_len is < 2 ^ 32"
  shows "ok" "files_ok rd crc sc (st_file_name st') im' (p + sum_list (map item_wlen is)) index"
proof -
  note f = persistent_facts[OF assms(1) files_ok_named[OF assms(2)]]
  show "ok" by (rule f(1))
  show "files_ok rd crc sc (st_file_name st') im' (p + sum_list (map item_wlen is)) index"
    using files_ok_append[OF assms(2,3) wplaced_placed[OF assms(4,5)] assms(5) f(3)] by (simp only: f(2))
qed

lemma store_segments:
  assumes "store_rotations junk um crc mem sc b (map of_nat (cuts crc (length pre) segs)) (length pre) (length rs0) (st, im, mg) =
      Some (cur, i, st1, im1, mg1)"
    and "chained crc sc p index segs es p' index'" "bounded crc sc p segs es" "list_all (goes rd) (concat (map fst segs) @ es)"
    and "files_ok rd crc sc (st_file_name st) im p index" "sc_binlog_checksum sc" "unat index + length segs < 2 ^ 64"
    and "se_rotate_events b = rs0 @ map snd segs" "se_buffer b = pre @ batch_bytes crc segs es" "length (se_buffer b) < 2 ^ 64"
  shows "\<exists>q. files_ok rd crc sc (st_file_name st1) im1 q index' \<and> drop cur (se_buffer b) = items_bytes crc (items_of crc es) \<and>
    wplaced q (items_of crc es) \<and> p' = q + sum_list (map item_wlen (items_of crc es)) \<and>
    unat q + items_len (items_of crc es) < 2 ^ 32"
  using assms(1-5,7-9)
proof (induction segs arbitrary: pre rs0 st im mg p index)
  case Nil
  then show ?case by (intro exI[of _ p]) simp
next
  case (Cons seg segs)
  obtain s r where seg: "seg = (s, r)" by fastforce
  let ?is = "segment_items crc seg" and ?p = "start_pos sc (ro_next_previous_gtids r)"
  let ?cut = "length pre + length (items_bytes crc ?is)"
  have c: "wplaced p (items_of crc s)" "rotation_ok sc (p + sum_list (map item_wlen (items_of crc s))) (index + 1) r"
    "chained crc sc ?p (index + 1) segs es p' index'"
    using Cons.prems(2) by (auto simp: seg)
  have bd: "unat p + items_len ?is < 2 ^ 32" "bounded crc sc ?p segs es" using Cons.prems(3) by (simp_all add: seg)
  have ok: "list_all (item_ok rd) ?is" "list_all (goes rd) (concat (map fst segs) @ es)"
    using Cons.prems(4) rotation_item(1)[OF c(2), of rd crc] items_goes[of rd s crc] by (simp_all add: seg)
  have wp: "wplaced p ?is" using c(1) rotation_item(2)[OF c(2), of crc] by (simp add: seg wplaced_append)
  have buf: "se_buffer b = (pre @ items_bytes crc ?is) @ batch_bytes crc segs es" using Cons.prems(8) by simp
  have lb: "?cut \<le> length (se_buffer b)" by (simp only: buf length_append)
  then have cut: "unat (of_nat ?cut :: u64) = ?cut" using assms(10) by (intro unat_of_nat_small) simp
  obtain bs r1 s1 r2 s2 where step: "length pre < unat (of_nat ?cut :: u64)"
    "peek (unat (of_nat ?cut :: u64) - length pre) (se_buffer b) (length pre) = Some bs"
    "persistent_binlog junk um sc bs (se_index_records b ! length rs0) (st, im, mg) = Some (True, r1, s1)"
    "init_next_binlog_file crc mem sc (se_rotate_events b ! length rs0) r1 s1 = Some (True, r2, s2)"
    "store_rotations junk um crc mem sc b (map of_nat (cuts crc ?cut segs)) (unat (of_nat ?cut :: u64)) (Suc (length rs0)) s2 =
      Some (cur, i, st1, im1, mg1)"
    using store_rotations_step[OF Cons.prems(1)[unfolded cuts.simps list.map]] by blast
  obtain sta ima mga stb imb mgb where s12: "s1 = (sta, ima, mga)" "s2 = (stb, imb, mgb)" by (cases s1; cases s2) blast
  have "bs = items_bytes crc ?is" using step(2) lb by (simp only: cut) (simp add: buf peek_def)
  note pf = persistent_files_ok[OF step(3)[unfolded this s12] Cons.prems(5) ok(1) wp bd(1)]
  have rot: "se_rotate_events b ! length rs0 = r" "unat index + 1 < 2 ^ 64" using Cons.prems(6,7) by (simp_all add: seg nth_append)
  note nf = init_next_facts[OF step(4)[unfolded rot s12] pf(2) c(2) assms(6) rot(2)]
  have i: "unat (index + 1) = unat index + 1" using rot(2) by (intro unat_add_small[THEN trans]) simp_all
  show ?case
  proof (rule Cons.IH[OF _ c(3) bd(2) ok(2) nf(2)])
    show "store_rotations junk um crc mem sc b (map of_nat (cuts crc (length (pre @ items_bytes crc ?is)) segs))
        (length (pre @ items_bytes crc ?is)) (length (rs0 @ [r])) (stb, imb, mgb) = Some (cur, i, st1, im1, mg1)"
      using step(5) by (simp only: cut s12 length_append list.size add_Suc_right add_0_right)
    show "unat (index + 1) + length segs < 2 ^ 64" using Cons.prems(6) by (simp add: i)
    show "se_rotate_events b = (rs0 @ [r]) @ map snd segs" using Cons.prems(7) by (simp add: seg)
  qed (fact buf)
qed


lemma segments_few:
  "chained crc sc p index segs es p' index' \<Longrightarrow> length segs \<le> length (concat (map fst segs) @ es)"
proof (induction segs arbitrary: p index)
  case (Cons seg segs)
  obtain s r where seg: "seg = (s, r)" by fastforce
  then have "s \<noteq> []" "length segs \<le> length (concat (map fst segs) @ es)" using Cons by auto
  then show ?case by (cases s) (simp_all add: seg)
qed simp

lemma kept_few: "length (kept es) \<le> length es"
proof (induction es)
  case (Cons e es)
  then show ?case by (cases e) auto
qed simp

lemma allocate_loop_length:
  "allocate_loop junk mem sc es s = Some (es', s') \<Longrightarrow> length es' = length es"
proof (induction es arbitrary: s es' s')
  case (Cons e es)
  then show ?case by (cases e; cases s) (auto simp: bind_eq_Some_conv)
qed simp

lemma batch_length:
  assumes "list_all (goes rd) (concat (map fst segs) @ es)" "chained crc sc p index segs es p' index'" "config_ok sc uuid mem"
  shows "length (batch_bytes crc segs es) \<le> items_len (items_of crc (concat (map fst segs) @ es)) + 300 * length segs"
  using assms(1,2)
proof (induction segs arbitrary: p index)
  case Nil
  then show ?case using items_len_bytes[OF items_goes[of rd es crc], of crc] by simp
next
  case (Cons seg segs)
  obtain s r where seg: "seg = (s, r)" by fastforce
  have c: "rotation_ok sc (p + sum_list (map item_wlen (items_of crc s))) (index + 1) r"
    "chained crc sc (start_pos sc (ro_next_previous_gtids r)) (index + 1) segs es p' index'"
    "list_all (goes rd) s" "list_all (goes rd) (concat (map fst segs) @ es)"
    using Cons.prems by (auto simp: seg)
  have "length (items_bytes crc (items_of crc s)) = items_len (items_of crc s)"
    by (rule items_len_bytes[OF items_goes[OF c(3)]])
  moreover have "length (item_bytes crc (rotate_item crc r)) < 300"
    using rotation_len[OF c(1) assms(3), of crc] item_bytes_length[OF rotation_item(1)[OF c(1)], of crc crc] by simp
  moreover note Cons.IH[OF c(4,2)]
  ultimately show ?case by (simp add: seg)
qed


text \<open>The store handler changes only the name and the offset of the current file.\<close>

abbreviation elsewhere :: "BinlogStorage \<Rightarrow> BinlogStorage" where
  "elsewhere st \<equiv> st\<lparr>st_file_name := [], st_offset := 0\<rparr>"

lemma elsewhereD:
  assumes "elsewhere st' = elsewhere st"
  shows "st_cur_pos st' = st_cur_pos st" "st_binlog_file_index st' = st_binlog_file_index st" "alloc_inv n st' = alloc_inv n st"
  using arg_cong[OF assms, of st_cur_pos] arg_cong[OF assms, of st_binlog_file_index] arg_cong[OF assms, of "alloc_inv n"]
  by (simp_all add: alloc_inv_def)

lemma persistent_same:
  "persistent_binlog junk um sc bs r (st, im, mg) = Some (ok, r', st', im', mg') \<Longrightarrow> elsewhere st' = elsewhere st"
  by (auto simp: persistent_binlog_def update_index_record_def bind_eq_Some_conv Let_def split: if_splits)

lemma init_next_same:
  assumes "init_next_binlog_file crc mem sc rot r (st, im, mg) = Some (ok, r', st', im', mg')"
  shows "elsewhere st' = elsewhere st"
proof -
  obtain im1 where "add_next_binlog_index r rot (st, im1, mg) = (ok, r', st', im', mg')"
    using assms by (auto simp: init_next_binlog_file_def bind_eq_Some_conv Let_def)
  then show ?thesis by (auto simp: add_next_binlog_index_def Let_def split: prod.splits if_splits)
qed

lemma store_rotations_same:
  "store_rotations junk um crc mem sc b offsets cur index (st, im, mg) = Some (cur', index', st', im', mg') \<Longrightarrow>
   elsewhere st' = elsewhere st"
proof (induction offsets arbitrary: cur index st im mg)
  case Nil
  then show ?case by simp
next
  case (Cons offset offsets)
  obtain bs r s1 r' s2 where g: "persistent_binlog junk um sc bs (se_index_records b ! index) (st, im, mg) = Some (True, r, s1)"
    "init_next_binlog_file crc mem sc (se_rotate_events b ! index) r s1 = Some (True, r', s2)"
    "store_rotations junk um crc mem sc b offsets (unat offset) (Suc index) s2 = Some (cur', index', st', im', mg')"
    by (rule store_rotations_step[OF Cons.prems])
  obtain sta ima mga stb imb mgb where s12: "s1 = (sta, ima, mga)" "s2 = (stb, imb, mgb)" by (cases s1; cases s2) blast
  show ?case using Cons.IH[OF g(3)[unfolded s12]] init_next_same[OF g(2)[unfolded s12]] persistent_same[OF g(1)[unfolded s12]]
    by (simp only:)
qed


lemma head_start:
  assumes "init_head crc mem sc r = Some bs" "rotate_wf r" "list_all message_fit (ro_next_previous_gtids r)"
    and "length (ro_next_previous_gtids r) < 2 ^ 32" "sc_binlog_checksum sc"
  shows "unat (start_pos sc (ro_next_previous_gtids r)) = length bs" "length bs \<le> 1024"
proof -
  note h = init_head_facts[OF assms(1-4)]
  then have "155 + messages_size (ro_next_previous_gtids r) < 2 ^ 32" using assms(5) by simp
  then show "unat (start_pos sc (ro_next_previous_gtids r)) = length bs" using h(2) assms(5) by (simp add: start_pos_value)
  show "length bs \<le> 1024" by (rule h(3))
qed

lemma store_segments_rest:
  assumes "store_batch junk um crc mem sc b (st, im, mg) = Some (b', st', im', mg')"
    and "se_is_rotation b = (segs \<noteq> [])" "se_rotate_offsets b = map of_nat (cuts crc 0 segs)"
    and "se_rotate_events b = map snd segs" "se_buffer b = batch_bytes crc segs es" "length (se_buffer b) < 2 ^ 64"
    and "chained crc sc p index segs es p' index'" "bounded crc sc p segs es" "list_all (goes rd) (concat (map fst segs) @ es)"
    and "files_ok rd crc sc (st_file_name st) im p index" "sc_binlog_checksum sc" "unat index + length segs < 2 ^ 64"
  shows "files_ok rd crc sc (st_file_name st') im' p' index'" "elsewhere st' = elsewhere st"
proof -
  have "\<exists>cur i st1 im1 mg1. store_rotations junk um crc mem sc b (map of_nat (cuts crc 0 segs)) 0 0 (st, im, mg) = Some (cur, i, st1, im1, mg1) \<and>
      (store_rest junk um sc b cur i (st1, im1, mg1) = Some (st', im', mg') \<or>
       \<not> cur < length (se_buffer b) \<and> (st', im', mg') = (st1, im1, mg1))"
  proof (cases "segs = []")
    case True
    then show ?thesis using assms(1,2) by (auto simp: store_batch_def bind_eq_Some_conv split: if_splits)
  next
    case False
    then show ?thesis using assms(1-3) by (auto simp: store_batch_def bind_eq_Some_conv split: if_splits)
  qed
  then obtain cur i st1 im1 mg1 where
    s: "store_rotations junk um crc mem sc b (map of_nat (cuts crc 0 segs)) 0 0 (st, im, mg) =
      Some (cur, i, st1, im1, mg1)" and
    e: "store_rest junk um sc b cur i (st1, im1, mg1) = Some (st', im', mg') \<or>
      \<not> cur < length (se_buffer b) \<and> (st', im', mg') = (st1, im1, mg1)"
    by blast
  let ?is = "items_of crc es"
  obtain q where q: "files_ok rd crc sc (st_file_name st1) im1 q index'" "drop cur (se_buffer b) = items_bytes crc ?is"
    "wplaced q ?is" "p' = q + sum_list (map item_wlen ?is)" "unat q + items_len ?is < 2 ^ 32"
    using store_segments[where pre = "[]" and ?rs0.0 = "[]", unfolded list.size append_Nil, OF s assms(7-12,4,5,6)] by blast
  have ok: "list_all (item_ok rd) ?is" using assms(9) by (intro items_goes) simp
  note same = store_rotations_same[OF s]
  have "files_ok rd crc sc (st_file_name st') im' p' index' \<and> elsewhere st' = elsewhere st1"
    using e
  proof
    assume "store_rest junk um sc b cur i (st1, im1, mg1) = Some (st', im', mg')"
    then obtain ok' r' where "persistent_binlog junk um sc (items_bytes crc ?is) (se_index_records b ! i) (st1, im1, mg1) =
        Some (ok', r', st', im', mg')"
      by (auto simp: store_rest_def q(2) bind_eq_Some_conv split: if_splits)
    from persistent_files_ok(2)[OF this q(1) ok q(3,5)] persistent_same[OF this] show ?thesis by (simp only: q(4))
  next
    assume a: "\<not> cur < length (se_buffer b) \<and> (st', im', mg') = (st1, im1, mg1)"
    then have "items_bytes crc ?is = []" using q(2) by simp
    then have "items_len ?is = 0" using items_len_bytes[OF ok, of crc] by (simp only: list.size)
    then have "p' = q" using items_wlen[OF q(5)] by (simp only: q(4) word_unat_eq_iff)
    then show ?thesis using a q(1) by simp
  qed
  then show "files_ok rd crc sc (st_file_name st') im' p' index'" "elsewhere st' = elsewhere st" using same by simp_all
qed


lemma store_batch_heads:
  assumes "store_batch junk um crc mem sc b s = Some res" "se_is_rotation b" "k < length (se_rotate_offsets b)"
  shows "init_head crc mem sc (se_rotate_events b ! k) \<noteq> None"
proof -
  obtain r where "store_rotations junk um crc mem sc b (se_rotate_offsets b) 0 0 s = Some r"
    using assms(1,2) by (auto simp: store_batch_def bind_eq_Some_conv)
  from store_rotations_heads[OF this assms(3)] show ?thesis by simp
qed

text \<open>What the handlers do with a batch, once it is allocated and every head of a new file fits.\<close>

lemma batch_plan:
  assumes alloc: "allocate_loop junk um sc es (st, mg, fresh_batch es) = Some (es1, st1, mg1, b1)"
    and rec: "SerializeEvent_update_index_record (st_index_record st1) b1 = Some b2"
    and es: "handed_over rd es" and inv: "alloc_inv (2 * length es + n) st" and cfg: "config_ok sc uuid um"
    and room: "max 1024 (unat (st_cur_pos st)) + total_len crc es + 300 * length es < 2 ^ 32"
    and heads: "\<forall>r\<in>set (se_rotate_events b2). init_head crc mem sc r \<noteq> None"
  obtains segs last where "list_all (goes rd) (concat (map fst segs) @ last)"
    "batch_view b2 = ([], map snd segs, segs \<noteq> [])"
    "chained crc sc (st_cur_pos st) (st_binlog_file_index st) segs last (st_cur_pos st1) (st_binlog_file_index st1)"
    "bounded crc sc (st_cur_pos st) segs last" "length segs \<le> length es" "alloc_inv n st1" "st_file_name st1 = st_file_name st"
    "length (batch_bytes crc segs last) < 2 ^ 64" "all_offsets (map snd segs) = Some (map (\<lambda>seg. rotation_start (snd seg)) segs)"
    "serialize_loop crc mem (segs \<noteq> []) (map snd segs) (map Some (kept es1)) 0 (map (\<lambda>seg. rotation_start (snd seg)) segs) [] =
      Some (map of_nat (cuts crc 0 segs), batch_bytes crc segs last)"
proof -
  obtain segs last where a: "kept es1 = concat (map fst segs) @ last" "list_all (goes rd) (kept es1)"
    "batch_view b1 = ([], map snd segs, segs \<noteq> [])"
    "chained crc sc (st_cur_pos st) (st_binlog_file_index st) segs last (st_cur_pos st1) (st_binlog_file_index st1)"
    "alloc_inv n st1" "st_file_name st1 = st_file_name st" "items_len (items_of crc (kept es1)) \<le> total_len crc es"
    using allocate_loop_facts[OF alloc es inv cfg, of crc] by (auto simp: fresh_batch_def)
  let ?all = "concat (map fst segs) @ last"
  have b2: "batch_view b2 = ([], map snd segs, segs \<noteq> [])"
    using rec a(3) by (auto simp: SerializeEvent_update_index_record_def split: if_splits)
  note wf = chained_rotations[OF a(4)]
  have offs: "all_offsets (map snd segs) = Some (map (\<lambda>seg. rotation_start (snd seg)) segs)"
    using wf by (intro all_offsets_rotations) blast
  have few: "length segs \<le> length es"
    using segments_few[OF a(4)] kept_few[of es1] allocate_loop_length[OF alloc] by (simp only: a(1))
  have "unat (start_pos sc (ro_next_previous_gtids (snd seg))) \<le> 1024" if seg: "seg \<in> set segs" for seg
  proof -
    obtain bs where "init_head crc mem sc (snd seg) = Some bs" using heads seg b2 by auto
    then show ?thesis using head_start[of crc mem sc "snd seg" bs] wf[OF seg] cfg by (simp add: config_ok_def)
  qed
  moreover have len: "items_len (items_of crc ?all) + 300 * length segs \<le> total_len crc es + 300 * length es"
    using a(7) few by (simp only: a(1))
  ultimately have bd: "bounded crc sc (st_cur_pos st) segs last"
    using room by (intro chained_bounded[OF a(4) cfg]) (blast | linarith)+
  have go: "list_all (goes rd) ?all" using a(1,2) by simp
  have live: "list_all (\<lambda>e. goes rd e \<and> \<not> ev_filter (event_base e)) ?all"
    using a(2) kept_live[of _ es1] by (auto simp: list_all_iff a(1)[symmetric])
  have "serialize_loop crc mem (segs \<noteq> []) (map snd segs) (map Some (kept es1)) 0 (map (\<lambda>seg. rotation_start (snd seg)) segs) [] =
      Some (map of_nat (cuts crc 0 segs), batch_bytes crc segs last)"
    using serialize_segments[OF a(4) bd live, of "segs \<noteq> []" "[]" "[]" mem "[]"]
    by (simp only: a(1) append_Nil list.size simp_thms)
  moreover have "length (batch_bytes crc segs last) < 2 ^ 32"
    using batch_length[OF go a(4) cfg] len room by linarith
  then have "length (batch_bytes crc segs last) < 2 ^ 64" by (rule less_trans) simp
  ultimately show ?thesis using that[OF go b2 a(4) bd few a(5,6)] offs by blast
qed

lemma all_offsets_length: "all_offsets rs = Some os \<Longrightarrow> length os = length rs"
  by (induction rs arbitrary: os) (auto simp: bind_eq_Some_conv)

lemma batch_files_ok:
  assumes run: "process_batch junk um crc mem sc es (st, im, mg) = Some (st', im', mg')"
    and es: "handed_over rd es" and inv: "alloc_inv (2 * length es + n) st" and cfg: "config_ok sc uuid um"
    and files: "files_ok rd crc sc (st_file_name st) im (st_cur_pos st) (st_binlog_file_index st)"
    and room: "max 1024 (unat (st_cur_pos st)) + total_len crc es + 300 * length es < 2 ^ 32"
      "unat (st_binlog_file_index st) + length es < 2 ^ 64"
  shows "files_ok rd crc sc (st_file_name st') im' (st_cur_pos st') (st_binlog_file_index st') \<and> alloc_inv n st'"
proof -
  obtain es1 st1 mg1 b1 b2 b3 b4 where r: "allocate_loop junk um sc es (st, mg, fresh_batch es) = Some (es1, st1, mg1, b1)"
    "SerializeEvent_update_index_record (st_index_record st1) b1 = Some b2"
    "serialize_batch crc mem (b2\<lparr>se_events := es1\<rparr>) = Some b3"
    "store_batch junk um crc mem sc b3 (st1, im, mg1) = Some (b4, st', im', mg')"
    using run by (auto simp: process_batch_def global_allocation_of_backfill_events_def bind_eq_Some_conv fresh_batch_def)
  obtain starts offs buf where l: "all_offsets (se_rotate_events b2) = Some starts"
    "serialize_loop crc mem (se_is_rotation b2) (se_rotate_events b2) es1 0 (se_rotate_offsets b2 @ starts) [] = Some (offs, buf)"
    and b3: "b3 = b2\<lparr>se_events := es1, se_rotate_offsets := offs, se_buffer := buf\<rparr>"
    using r(3) by (auto simp: serialize_batch_def bind_eq_Some_conv)
  have v: "se_rotate_offsets b2 = []" "se_is_rotation b2 = (se_rotate_events b2 \<noteq> [])"
    using allocate_loop_facts[OF r(1) es inv cfg, of crc] r(2)
    by (auto simp: fresh_batch_def SerializeEvent_update_index_record_def split: if_splits)
  have heads: "\<forall>ro\<in>set (se_rotate_events b2). init_head crc mem sc ro \<noteq> None"
  proof
    fix ro
    assume "ro \<in> set (se_rotate_events b2)"
    then obtain k where k: "k < length (se_rotate_events b2)" "se_rotate_events b2 ! k = ro" by (auto simp: in_set_conv_nth)
    then show "init_head crc mem sc ro \<noteq> None"
      using store_batch_heads[OF r(4), of k] serialize_loop_offsets[OF l(2)] all_offsets_length[OF l(1)] v by (auto simp: b3)
  qed
  obtain segs last where a: "list_all (goes rd) (concat (map fst segs) @ last)" "batch_view b2 = ([], map snd segs, segs \<noteq> [])"
    "chained crc sc (st_cur_pos st) (st_binlog_file_index st) segs last (st_cur_pos st1) (st_binlog_file_index st1)"
    "bounded crc sc (st_cur_pos st) segs last" "length segs \<le> length es" "alloc_inv n st1" "st_file_name st1 = st_file_name st"
    "length (batch_bytes crc segs last) < 2 ^ 64" "all_offsets (map snd segs) = Some (map (\<lambda>seg. rotation_start (snd seg)) segs)"
    "serialize_loop crc mem (segs \<noteq> []) (map snd segs) (map Some (kept es1)) 0 (map (\<lambda>seg. rotation_start (snd seg)) segs) [] =
      Some (map of_nat (cuts crc 0 segs), batch_bytes crc segs last)"
    by (rule batch_plan[OF r(1,2) es inv cfg room(1) heads])
  have "Some (offs, buf) = Some (map of_nat (cuts crc 0 segs), batch_bytes crc segs last)"
    using serialize_kept[OF l(2)] l(1) a(2,9,10) by simp
  then have b: "se_rotate_offsets b3 = map of_nat (cuts crc 0 segs)" "se_buffer b3 = batch_bytes crc segs last"
    "se_is_rotation b3 = (segs \<noteq> [])" "se_rotate_events b3 = map snd segs"
    using a(2) by (simp_all add: b3)
  note s = store_segments_rest[OF r(4) b(3,1,4,2) a(8)[folded b(2)] a(3,4,1) files[folded a(7)]]
  show ?thesis
    using s cfg room(2) a(5) elsewhereD(1,2)[of st' st1] elsewhereD(3)[of st' st1 n] a(6) by (simp add: config_ok_def)
qed

end
