(* ===== verification/Expiry.thy ===== *)
theory Expiry
  imports Storage "HOL-Library.Sublist" "HOL-Library.Multiset"
begin

text \<open>
  The purge of expired binlog files, \<^verbatim>\<open>BinlogStorage::purge_expired_binlog\<close> of \<^verbatim>\<open>binlog-instance/binlog_storage.cpp\<close>:
  by age and by total size, always without the file that is being written.
\<close>

section \<open>Expired files\<close>

text \<open>The two loops return the records that stay, the names that are purged and the largest transaction purged.
  The first one stops at the first file that is young enough; the second one goes backwards.\<close>

fun purge_by_time ::
  "u64 \<Rightarrow> u64 \<Rightarrow> BinlogIndexRecord \<Rightarrow> BinlogIndexRecord list \<Rightarrow> u64 \<Rightarrow> BinlogIndexRecord list \<times> string list \<times> u64" where
  "purge_by_time now expire cur [] seq = ([], [], seq)"
| "purge_by_time now expire cur (r # rs) seq =
     (if equal_to cur r
      then let (stay, purged, seq') = purge_by_time now expire cur rs seq in (r # stay, purged, seq')
      else if now - ir_checkpoint r < expire then (r # rs, [], seq)
      else let (stay, purged, seq') = purge_by_time now expire cur rs (max seq (snd (ir_current_mapping r)))
           in (stay, ir_file_name r # purged, seq'))"

fun purge_by_size ::
  "u64 \<Rightarrow> BinlogIndexRecord \<Rightarrow> BinlogIndexRecord list \<Rightarrow> u64 \<Rightarrow> u64 \<Rightarrow> BinlogIndexRecord list \<times> string list \<times> u64" where
  "purge_by_size limit cur [] total_size seq = ([], [], seq)"
| "purge_by_size limit cur (r # rs) total_size seq =
     (if equal_to cur r
      then let (stay, purged, seq') = purge_by_size limit cur rs total_size seq in (r # stay, purged, seq')
      else if total_size < limit
      then let (stay, purged, seq') = purge_by_size limit cur rs (total_size + ir_position r) seq in (r # stay, purged, seq')
      else let (stay, purged, seq') = purge_by_size limit cur rs total_size (max seq (snd (ir_current_mapping r)))
           in (stay, ir_file_name r # purged, seq'))"

definition purge_records ::
  "u64 \<Rightarrow> u64 \<Rightarrow> u64 \<Rightarrow> BinlogIndexRecord \<Rightarrow> BinlogIndexRecord list \<Rightarrow> BinlogIndexRecord list \<times> string list \<times> u64" where
  "purge_records now expire limit cur rs =
     (let (rs1, purged1, seq1) = (if expire > 0 then purge_by_time now expire cur rs 0 else (rs, [], 0));
          (rs2, purged2, seq2) = (if limit > 0 then purge_by_size limit cur (rev rs1) 0 seq1 else (rev rs1, [], seq1))
      in (rev rs2, purged1 @ purged2, seq2))"

definition remove_files :: "string list \<Rightarrow> BinlogIndexManager \<Rightarrow> BinlogIndexManager" where
  "remove_files names im = im\<lparr>im_binlog_files := (\<lambda>f. if f \<in> set names then None else im_binlog_files im f)\<rparr>"

text \<open>The log messages at the start and at the end read the first and the last record.\<close>

definition purge_expired_binlog ::
  "byte \<Rightarrow> byte list \<Rightarrow> storage_config \<Rightarrow> u64 \<Rightarrow> BinlogIndexRecord \<Rightarrow> BinlogIndexManager \<times> GtidManager \<Rightarrow>
   (BinlogIndexManager \<times> GtidManager) option" where
  "purge_expired_binlog junk uuid_mem sc now_s index_record s = (case s of (im, mg) \<Rightarrow> do {
     (_, rs) \<leftarrow> fetch_index_vector im;
     if rs = [] then None
     else let (stay, purged, last_gtid_seq) = purge_records now_s (cf_binlog_expire_logs_seconds (sc_gtid sc))
                 (sc_binlog_expire_logs_size sc) index_record rs
          in do {
            mg \<leftarrow> (if last_gtid_seq \<noteq> 0 then purge_gtid_before junk uuid_mem (sc_gtid sc) last_gtid_seq mg else Some mg);
            let im = remove_files purged (if purged \<noteq> [] then rewrite_index_file stay im else im);
            if stay = [] then None else Some (im, mg) } })"

text \<open>The purge after a rotation, which runs on another thread.\<close>

definition purge_latest ::
  "byte \<Rightarrow> byte list \<Rightarrow> string \<Rightarrow> storage_config \<Rightarrow> u64 \<Rightarrow> BinlogIndexManager \<times> GtidManager \<Rightarrow>
   (BinlogIndexManager \<times> GtidManager) option" where
  "purge_latest junk uuid_mem fresh sc now_s s = do {
     (_, r) \<leftarrow> get_latest_index fresh (fst s) BinlogIndexRecord_init;
     purge_expired_binlog junk uuid_mem sc now_s r s }"

section \<open>What stays\<close>

lemma purge_by_time_facts:
  "purge_by_time now expire cur rs seq = (stay, purged, seq') \<Longrightarrow>
   subseq stay rs \<and> mset (map ir_file_name rs) = mset (map ir_file_name stay) + mset purged \<and>
   (\<forall>r\<in>set rs. equal_to cur r \<longrightarrow> r \<in> set stay) \<and> (\<forall>r\<in>set rs - set stay. expire \<le> now - ir_checkpoint r)"
proof (induction rs arbitrary: seq stay purged seq')
  case (Cons r rs)
  consider (cur) "equal_to cur r" | (young) "\<not> equal_to cur r" "now - ir_checkpoint r < expire"
    | (old) "\<not> equal_to cur r" "\<not> now - ir_checkpoint r < expire" by blast
  then show ?case
  proof cases
    case cur
    obtain k p s where k: "purge_by_time now expire cur rs seq = (k, p, s)" by (metis prod.exhaust)
    then show ?thesis using Cons.IH[OF k] Cons.prems cur by auto
  next
    case young
    then show ?thesis using Cons.prems by simp
  next
    case old
    obtain k p s where k: "purge_by_time now expire cur rs (max seq (snd (ir_current_mapping r))) = (k, p, s)" by (metis prod.exhaust)
    then show ?thesis using Cons.IH[OF k] Cons.prems old by auto
  qed
qed simp

text \<open>The sizes are added up from the newest file on, until the limit is reached.\<close>

abbreviation old_sizes :: "BinlogIndexRecord \<Rightarrow> BinlogIndexRecord list \<Rightarrow> nat list" where
  "old_sizes cur rs \<equiv> map (\<lambda>r. unat (ir_position r)) (filter (\<lambda>r. \<not> equal_to cur r) rs)"

lemma purge_by_size_facts:
  "purge_by_size limit cur rs total_size seq = (stay, purged, seq') \<Longrightarrow> unat total_size + sum_list (old_sizes cur rs) < 2 ^ 64 \<Longrightarrow>
   subseq stay rs \<and> mset (map ir_file_name rs) = mset (map ir_file_name stay) + mset purged \<and>
   (\<forall>r\<in>set rs. equal_to cur r \<longrightarrow> r \<in> set stay) \<and>
   (old_sizes cur stay \<noteq> [] \<longrightarrow> unat total_size + sum_list (butlast (old_sizes cur stay)) < unat limit) \<and>
   (set rs - set stay \<noteq> {} \<longrightarrow> unat limit \<le> unat total_size + sum_list (old_sizes cur stay))"
proof (induction rs arbitrary: total_size seq stay purged seq')
  case (Cons r rs)
  consider (cur) "equal_to cur r" | (small) "\<not> equal_to cur r" "total_size < limit" | (big) "\<not> equal_to cur r" "\<not> total_size < limit" by blast
  then show ?case
  proof cases
    case cur
    obtain k p s where k: "purge_by_size limit cur rs total_size seq = (k, p, s)" by (metis prod.exhaust)
    then show ?thesis using Cons.IH[OF k] Cons.prems cur by auto
  next
    case small
    obtain k p s where k: "purge_by_size limit cur rs (total_size + ir_position r) seq = (k, p, s)" by (metis prod.exhaust)
    have u: "unat (total_size + ir_position r) = unat total_size + unat (ir_position r)"
      using Cons.prems(2) small by (intro unat_add_small) simp
    have "unat total_size < unat limit" using small(2) by (simp add: word_less_nat_alt)
    then show ?thesis using Cons.IH[OF k] Cons.prems small k u by (auto simp: add.assoc)
  next
    case big
    obtain k p s where k: "purge_by_size limit cur rs total_size (max seq (snd (ir_current_mapping r))) = (k, p, s)" by (metis prod.exhaust)
    have "unat limit \<le> unat total_size" using big(2) by (simp add: word_less_nat_alt)
    then show ?thesis using Cons.IH[OF k] Cons.prems big k by auto
  qed
qed simp

lemma sum_list_subseq: "subseq xs ys \<Longrightarrow> sum_list xs \<le> (sum_list ys :: nat)"
  by (induction rule: list_emb.induct) auto

lemma subseq_rev: "subseq xs ys \<Longrightarrow> subseq (rev xs) (rev ys)"
proof (induction rule: list_emb.induct)
  case (list_emb_Cons xs ys y)
  then show ?case by (simp add: subseq_rev_drop_many)
qed simp_all

lemma subseq_subset: "subseq xs ys \<Longrightarrow> set xs \<subseteq> set ys"
  by (induction rule: list_emb.induct) auto

lemma purge_records_facts:
  assumes "purge_records now expire limit cur rs = (stay, purged, seq)" "sum_list (old_sizes cur rs) < 2 ^ 64"
  shows "subseq stay rs \<and> mset (map ir_file_name rs) = mset (map ir_file_name stay) + mset purged \<and>
    (\<forall>r\<in>set rs. equal_to cur r \<longrightarrow> r \<in> set stay) \<and>
    (limit > 0 \<and> old_sizes cur stay \<noteq> [] \<longrightarrow> sum_list (tl (old_sizes cur stay)) < unat limit) \<and>
    (\<forall>r\<in>set rs - set stay. 0 < expire \<and> expire \<le> now - ir_checkpoint r \<or>
       0 < limit \<and> unat limit \<le> sum_list (old_sizes cur stay))"
proof -
  obtain rs1 p1 s1 where t: "(if expire > 0 then purge_by_time now expire cur rs 0 else (rs, [], 0)) = (rs1, p1, s1)" by (metis prod.exhaust)
  obtain rs2 p2 s2 where z: "(if limit > 0 then purge_by_size limit cur (rev rs1) 0 s1 else (rev rs1, [], s1)) = (rs2, p2, s2)"
    by (metis prod.exhaust)
  have k: "stay = rev rs2" "purged = p1 @ p2" using assms(1) t z by (simp_all add: purge_records_def)
  have f1: "subseq rs1 rs \<and> mset (map ir_file_name rs) = mset (map ir_file_name rs1) + mset p1 \<and>
      (\<forall>r\<in>set rs. equal_to cur r \<longrightarrow> r \<in> set rs1) \<and>
      (\<forall>r\<in>set rs - set rs1. 0 < expire \<and> expire \<le> now - ir_checkpoint r)"
    using t purge_by_time_facts[of now expire cur rs 0 rs1 p1 s1] by (simp split: if_splits)
  have "subseq (old_sizes cur rs1) (old_sizes cur rs)" using f1 by (intro subseq_map subseq_filter) simp
  then have "sum_list (old_sizes cur rs1) \<le> sum_list (old_sizes cur rs)" by (rule sum_list_subseq)
  moreover have "old_sizes cur (rev rs1) = rev (old_sizes cur rs1)" by (simp add: rev_map rev_filter)
  ultimately have "unat (0 :: u64) + sum_list (old_sizes cur (rev rs1)) < 2 ^ 64" using assms(2) by (simp add: sum_list_rev)
  then have f2: "subseq rs2 (rev rs1) \<and> mset (map ir_file_name (rev rs1)) = mset (map ir_file_name rs2) + mset p2 \<and>
      (\<forall>r\<in>set (rev rs1). equal_to cur r \<longrightarrow> r \<in> set rs2) \<and>
      (limit > 0 \<and> old_sizes cur rs2 \<noteq> [] \<longrightarrow> sum_list (butlast (old_sizes cur rs2)) < unat limit) \<and>
      (set rs1 - set rs2 \<noteq> {} \<longrightarrow> 0 < limit \<and> unat limit \<le> sum_list (old_sizes cur rs2))"
    using z purge_by_size_facts[of limit cur "rev rs1" 0 s1 rs2 p2 s2] by (cases "limit > 0") auto
  have "old_sizes cur stay = rev (old_sizes cur rs2)" by (simp add: k rev_map rev_filter)
  moreover have "subseq (rev rs2) rs1" using f2 subseq_rev[of rs2 "rev rs1"] by simp
  moreover have "tl (rev xs) = rev (butlast xs)" for xs :: "nat list" by (metis butlast_rev rev_rev_ident)
  ultimately show ?thesis using f1 f2 subseq_order.trans[of "rev rs2" rs1 rs] by (auto simp: k sum_list_rev)
qed

section \<open>Properties\<close>

text \<open>C11. A purge of expired files leaves an index whose records are some of the old ones in the old order, removes exactly
  the files of the records that are gone, and never the file that is being written.  A file goes only for a reason: its
  age has reached the configured one, or the older files that stay have together reached the configured size.  With a size
  configured, the older files that stay are smaller than it when the oldest of them is left out; that one may
  exceed it by any amount.\<close>

theorem purge_expired_safe:
  assumes "represents im rs" "list_all (\<lambda>r. 0 < ir_index r) rs" "distinct (map ir_file_name rs)" "cur \<in> set rs"
    and "sum_list (old_sizes cur rs) < 2 ^ 64" "purge_expired_binlog junk mem sc now cur (im, mg) = Some (im', mg')"
  shows "\<exists>stay. represents im' stay \<and> subseq stay rs \<and> cur \<in> set stay \<and>
    (\<forall>r\<in>set rs. im_binlog_files im' (ir_file_name r) = (if r \<in> set stay then im_binlog_files im (ir_file_name r) else None)) \<and>
    (\<forall>f. f \<notin> ir_file_name ` set rs \<longrightarrow> im_binlog_files im' f = im_binlog_files im f) \<and>
    (0 < sc_binlog_expire_logs_size sc \<and> old_sizes cur stay \<noteq> [] \<longrightarrow>
       sum_list (tl (old_sizes cur stay)) < unat (sc_binlog_expire_logs_size sc)) \<and>
    (\<forall>r\<in>set rs - set stay.
       0 < cf_binlog_expire_logs_seconds (sc_gtid sc) \<and> cf_binlog_expire_logs_seconds (sc_gtid sc) \<le> now - ir_checkpoint r \<or>
       0 < sc_binlog_expire_logs_size sc \<and> unat (sc_binlog_expire_logs_size sc) \<le> sum_list (old_sizes cur stay))"
proof -
  have "filter (\<lambda>r. ir_index r > 0) rs = rs" using assms(2) by (induction rs) simp_all
  then have f: "fetch_index_vector im = Some (True, rs)" using fetch_represented[OF assms(1)] by simp
  obtain stay purged seq where p: "purge_records now (cf_binlog_expire_logs_seconds (sc_gtid sc)) (sc_binlog_expire_logs_size sc) cur rs =
      (stay, purged, seq)" by (metis prod.exhaust)
  note k = purge_records_facts[OF p assms(5)]
  have im': "im' = remove_files purged (if purged \<noteq> [] then rewrite_index_file stay im else im)"
    using assms(6) f p by (auto simp: purge_expired_binlog_def bind_eq_Some_conv split: if_splits)
  have all: "ir_file_name ` set rs = ir_file_name ` set stay \<union> set purged" "ir_file_name ` set stay \<inter> set purged = {}"
  proof -
    have m: "mset (map ir_file_name rs) = mset (map ir_file_name stay @ purged)" using k by simp
    from arg_cong[OF this, of set_mset] show "ir_file_name ` set rs = ir_file_name ` set stay \<union> set purged" by simp
    have "distinct (map ir_file_name stay @ purged)" using assms(3) m mset_eq_imp_distinct_iff by blast
    then show "ir_file_name ` set stay \<inter> set purged = {}" by simp
  qed
  have sub: "set stay \<subseteq> set rs" using k subseq_subset[of stay rs] by blast
  have name: "ir_file_name r \<in> set purged \<longleftrightarrow> r \<notin> set stay" if "r \<in> set rs" for r
  proof -
    have "ir_file_name r \<in> ir_file_name ` set stay \<longleftrightarrow> r \<in> set stay"
      using that sub assms(3) by (auto simp: distinct_map inj_on_def)
    then show ?thesis using that all by blast
  qed
  have same: "stay = rs" if "purged = []" using that k subseq_same_length[of stay rs] by (metis add.right_neutral length_map mset.simps(1) size_mset)
  have "list_all record_ok stay" using assms(1) sub by (auto simp: represents_def list_all_iff)
  then have "represents im' stay"
    using assms(1) same by (auto simp: im' represents_def remove_files_def rewrite_index_file_def)
  moreover have "cur \<in> set stay" using k assms(4) by (simp add: equal_to_def)
  moreover have "im_binlog_files im' = (\<lambda>f. if f \<in> set purged then None else im_binlog_files im f)"
    by (auto simp: im' remove_files_def rewrite_index_file_def fun_eq_iff)
  ultimately show ?thesis using k name all(1) by (intro exI[of _ stay]) auto
qed

definition small_storage :: storage_config where
  "small_storage = \<lparr>sc_gtid = some_config, sc_binlog_checksum = True, sc_server_id = 1, sc_max_binlog_size = 200,
     sc_binlog_expire_logs_size = 0, sc_file_prefix = ''mysql-bin.'', sc_file_name_width = 6, sc_junk_index = 0, sc_junk_op = INIT\<rparr>"

theorem purge_expired_safe_witness:
  "\<exists>im' mg' stay. purge_expired_binlog 0 (replicate 16 0) small_storage 64800 (first_record\<lparr>ir_file_name := ''b2'', ir_index := 2\<rparr>)
       (two_records, new_manager) = Some (im', mg') \<and>
     represents im' stay \<and> subseq stay [first_record, first_record\<lparr>ir_file_name := ''b2'', ir_index := 2\<rparr>] \<and>
     first_record\<lparr>ir_file_name := ''b2'', ir_index := 2\<rparr> \<in> set stay"
proof -
  let ?r1 = "first_record" and ?r2 = "first_record\<lparr>ir_file_name := ''b2'', ir_index := 2\<rparr>"
  have f: "fetch_index_vector two_records = Some (True, [?r1, ?r2])"
    using fetch_represented[OF two_records_represented] by (simp add: first_record_def)
  have p: "purge_records 64800 64800 0 ?r2 [?r1, ?r2] = ([?r2], [''b1''], 7)"
    by (simp add: purge_records_def equal_to_def c_str_def first_record_def BinlogIndexRecord_init_def NUL_def)
  obtain mg' where g: "purge_gtid_before 0 (replicate 16 0) some_config 7 new_manager = Some mg'"
    using merge_empty[OF some_server, of "replicate 16 0" 7 0]
    by (auto simp: purge_gtid_before_def update_gtid_purged_def rewrite_gtid_file_def new_manager_def format_string_message)
  obtain im' where run: "purge_expired_binlog 0 (replicate 16 0) small_storage 64800 ?r2 (two_records, new_manager) = Some (im', mg')"
    using f p g by (simp add: purge_expired_binlog_def small_storage_def some_config_def)
  have "list_all (\<lambda>r. 0 < ir_index r) [?r1, ?r2]" "distinct (map ir_file_name [?r1, ?r2])" "sum_list (old_sizes ?r2 [?r1, ?r2]) < 2 ^ 64"
    by (simp_all add: first_record_def BinlogIndexRecord_init_def)
  from purge_expired_safe [OF two_records_represented this(1,2) _ this(3) run] show ?thesis using run by auto
qed

end
