(* ===== verification/StorageRun.thy ===== *)
theory StorageRun
  imports StoredFiles Expiry
begin

text \<open>
  The life of the storage of a binlog instance: \<^verbatim>\<open>BinlogStorage::init\<close> with \<^verbatim>\<open>recover_safely\<close>, \<^verbatim>\<open>rotate\<close> and
  \<^verbatim>\<open>rotate_current_binlog\<close>, all of \<^verbatim>\<open>binlog-instance/binlog_storage.cpp\<close>.  The ring
  buffer and the threads that \<^verbatim>\<open>init\<close> sets up are left out.  The times, the content of fresh memory and the fuel of
  the scan of the last file are parameters.
\<close>

section \<open>Rotation at the start\<close>

definition rotate_current_binlog ::
  "byte \<Rightarrow> byte list \<Rightarrow> crc32 \<Rightarrow> byte list \<Rightarrow> storage_config \<Rightarrow> byte list \<Rightarrow> RotateEvent \<Rightarrow> BinlogIndexRecord \<Rightarrow>
   storage_state \<Rightarrow> (BinlogIndexRecord \<times> storage_state) option" where
  "rotate_current_binlog junk uuid_mem crc mem sc buffer rotate_event r s = do {
     (r, st, im, mg) \<leftarrow> (if ro_existed rotate_event then Some (r, s)
        else (case s of (st, im, mg) \<Rightarrow> do {
          h \<leftarrow> ev_header rotate_event;
          (data, n) \<leftarrow> RotateEvent_flush crc rotate_event (block mem (unat (eh_event_length h)));
          update_index_record junk uuid_mem sc r (st, append_content (st_file_name st) (buffer @ take n data) im, mg) }));
     im \<leftarrow> clear_flags (st_file_name st) im;
     Some (r, st, im, mg) }"

definition rotate_storage ::
  "byte \<Rightarrow> byte list \<Rightarrow> crc32 \<Rightarrow> byte list \<Rightarrow> storage_config \<Rightarrow> u64 \<Rightarrow> RotateEvent \<Rightarrow> byte list \<Rightarrow> BinlogIndexRecord \<Rightarrow>
   storage_state \<Rightarrow> (bool \<times> storage_state) option" where
  "rotate_storage junk uuid_mem crc mem sc now_s rotate_event buffer r s =
     (if ro_op rotate_event \<noteq> INIT then (case s of (st, im, mg) \<Rightarrow> do {
        (im, mg) \<leftarrow> purge_expired_binlog junk uuid_mem sc now_s r (im, mg);
        (r, s) \<leftarrow> rotate_current_binlog junk uuid_mem crc mem sc buffer rotate_event r (st, im, mg);
        (ok, s) \<leftarrow> init_binlog_file crc mem sc rotate_event s;
        (case add_next_binlog_index r rotate_event s of (added, _, s) \<Rightarrow> Some (added \<and> ok, s)) })
      else init_binlog_file crc mem sc rotate_event s)"

section \<open>Start\<close>

text \<open>What the start reads besides the storage: the clock, the first transaction asked for, the settings of the
  restart point, and what the scan of the last file needs.\<close>

record start_env =
  sv_now :: u64
  sv_initial_ob_txn_id :: string
  sv_gtid_heartbeat_duration_s :: u32
  sv_fresh :: string
  sv_fuel :: nat
  sv_reader :: gtid_reader
  sv_stack :: "byte list"

abbreviation now_s :: "start_env \<Rightarrow> u64" where
  "now_s sv \<equiv> sv_now sv div 1000000"

definition first_start :: "start_env \<Rightarrow> storage_config \<Rightarrow> BinlogStorage \<Rightarrow> BinlogStorage" where
  "first_start sv sc st =
     (let g = cf_initial_ob_txn_gtid_seq (sc_gtid sc);
          st = (if g > 0 \<or> sv_initial_ob_txn_id sv \<noteq> []
                then st\<lparr>st_txn_mapping := (sv_initial_ob_txn_id sv, g), st_txn_gtid_seq := g\<rparr> else st);
          st = st\<lparr>st_filter_util_checkpoint_trx := fst (st_txn_mapping st) \<noteq> [], st_filter_checkpoint_trx := False\<rparr>
      in if st_start_timestamp st = 0 then st\<lparr>st_start_timestamp := now_s sv\<rparr> else st)"

text \<open>The continuation of the last file.  The result is false when the storage refuses to start.\<close>

definition restart ::
  "start_env \<Rightarrow> storage_config \<Rightarrow> BinlogIndexRecord \<Rightarrow> storage_state \<Rightarrow> (bool \<times> bool \<times> u8 \<times> BinlogStorage) loop_result" where
  "restart sv sc r s = (case s of (st, im, mg) \<Rightarrow>
     (case seek_gtid_event (sv_fuel sv) (sv_reader sv) (sv_stack sv) (im_binlog_files im (ir_file_name r))
        \<lparr>gs_gtid_log_events = [], gs_rotate_existed = False, gs_checksum_flag = (if sc_binlog_checksum sc then CRC32 else OFF),
          gs_last_xid = st_xid st, gs_previous_gtid_messages = st_previous_gtid_messages st\<rparr> 0 of
        Running \<Rightarrow> Running
      | Fault \<Rightarrow> Fault
      | Finished (ok, gs, offset) \<Rightarrow>
          let st = st\<lparr>st_xid := gs_last_xid gs, st_previous_gtid_messages := gs_previous_gtid_messages gs\<rparr>;
              point = init_restart_point (sv_gtid_heartbeat_duration_s sv) (cf_binlog_expire_logs_seconds (sc_gtid sc)) mg r
          in Finished
            (if \<not> ok \<or> of_nat offset \<noteq> ir_position r \<and> of_nat offset \<noteq> file_size (ir_file_name r) im
             then (False, gs_rotate_existed gs, gs_checksum_flag gs, st)
             else if gs_gtid_log_events gs = []
             then let (ok, st) = point 0 (st\<lparr>st_txn_gtid_seq := snd (ir_current_mapping r)\<rparr>) in
               (ok, gs_rotate_existed gs, gs_checksum_flag gs,
                if ok \<and> st_filter_util_checkpoint_trx st
                then st\<lparr>st_filter_util_checkpoint_trx := fst (st_txn_mapping st) \<noteq> [],
                        st_filter_checkpoint_trx := fst (ir_before_mapping r) \<noteq> []\<rparr>
                else st)
             else let e = last (gs_gtid_log_events gs);
                      (ok, st) = point (gt_last_committed e) (st\<lparr>st_txn_gtid_seq := gt_gtid_txn_id e\<rparr>)
                  in (ok, gs_rotate_existed gs, gs_checksum_flag gs, st))))"


text \<open>The rotate event of the start, and the rest of \<^verbatim>\<open>recover_safely\<close>, which both kinds of start share.\<close>

definition start_event ::
  "start_env \<Rightarrow> storage_config \<Rightarrow> BinlogIndexRecord \<Rightarrow> u64 \<Rightarrow> RotateOp \<Rightarrow> bool \<Rightarrow> u8 \<Rightarrow> u64 \<Rightarrow> GtidMessage list \<Rightarrow> RotateEvent option" where
  "start_event sv sc r bytes op existed flag timestamp previous_gtids =
     (let next_index = ir_index r + 1; index = (if op = INIT then next_index - 1 else next_index);
          e = RotateEvent_init (sc_binlog_checksum sc) (sc_server_id sc) (sc_junk_index sc) (sc_junk_op sc)
                (ucast BINLOG_MAGIC_SIZE) (ascii (file_name_of sc next_index)) (now_s sv) (ucast bytes)
      in do {
        h \<leftarrow> ev_header e;
        let h = h\<lparr>eh_timestamp := timestamp\<rparr>;
        let e = e\<lparr>ro_op := op, ro_next_previous_gtids := previous_gtids, ro_existed := existed, ro_index := index,
                  ro_next_binlog_file_name := ascii (file_name_of sc index), ev_header := Some h\<rparr>;
        let n = (ucast (get_checksum_len (ev_checksum_flag e)) :: u32);
        Some (if flag = OFF \<and> ev_checksum_flag e = CRC32
              then e\<lparr>ev_header := Some (h\<lparr>eh_event_length := eh_event_length h - n,
                                          eh_next_position := eh_next_position h - n\<rparr>),
                     ev_checksum_flag := OFF\<rparr>
              else e) })"

definition start_rotation ::
  "byte \<Rightarrow> byte list \<Rightarrow> crc32 \<Rightarrow> byte list \<Rightarrow> start_env \<Rightarrow> storage_config \<Rightarrow> BinlogIndexRecord \<Rightarrow> RotateOp \<Rightarrow> bool \<Rightarrow> u8 \<Rightarrow>
   storage_state \<Rightarrow> (bool \<times> storage_state) option" where
  "start_rotation junk uuid_mem crc mem sv sc r op existed flag s = (case s of (st, im, mg) \<Rightarrow> do {
     let last_gtid = (if st_filter_util_checkpoint_trx st \<and> st_filter_checkpoint_trx st then st_txn_gtid_seq st
                      else st_txn_gtid_seq st - 1);
     (previous_gtids, st) \<leftarrow> merge_previous_gtids junk uuid_mem sc last_gtid st;
     str \<leftarrow> join_gtids previous_gtids [];
     if c_str str \<noteq> c_str (case mg_global_var mg ''gtid_executed'' of None \<Rightarrow> [] | Some v \<Rightarrow> v) then Some (False, st, im, mg)
     else do {
       e \<leftarrow> start_event sv sc r (file_size (ir_file_name r) im) op existed flag (st_start_timestamp st) previous_gtids;
       let st = (set_start_pos sc previous_gtids (st\<lparr>st_first_gtid_seq := 0, st_binlog_file_index := ro_index e\<rparr>));
       rotate_storage junk uuid_mem crc mem sc (now_s sv) e [] r
         (st, im, init_start_timestamp (st_start_timestamp st) mg) } })"

definition recover_safely ::
  "byte \<Rightarrow> byte list \<Rightarrow> crc32 \<Rightarrow> byte list \<Rightarrow> start_env \<Rightarrow> storage_config \<Rightarrow> storage_state \<Rightarrow> (bool \<times> storage_state) loop_result" where
  "recover_safely junk uuid_mem crc mem sv sc s = (case s of (st, im, mg) \<Rightarrow>
     then_loop (get_latest_index (sv_fresh sv) im BinlogIndexRecord_init) (\<lambda>(_, r).
       if ir_file_name r = [] \<or> ir_position r = 0
       then then_loop (start_rotation junk uuid_mem crc mem sv sc r INIT False (if sc_binlog_checksum sc then CRC32 else OFF)
              (first_start sv sc st, im, mg)) Finished
       else (case restart sv sc r s of
               Running \<Rightarrow> Running
             | Fault \<Rightarrow> Fault
             | Finished (ok, existed, flag, st) \<Rightarrow>
                 if \<not> ok then Finished (False, st, im, mg)
                 else then_loop (start_rotation junk uuid_mem crc mem sv sc r ROTATE existed flag (st, im, mg)) Finished)))"

text \<open>The part of \<^verbatim>\<open>BinlogStorage::init\<close> after the ring buffer is set up: the first record of the index, and recovery.\<close>

definition first_index_record :: "start_env \<Rightarrow> storage_config \<Rightarrow> u64 \<Rightarrow> BinlogIndexRecord" where
  "first_index_record sv sc start_timestamp =
     (let g = cf_initial_ob_txn_gtid_seq (sc_gtid sc); x = sv_initial_ob_txn_id sv;
          current = (if x \<noteq> [] \<or> g > 0 then (x, if x = [] then g - 1 else g) else ([], 0))
      in BinlogIndexRecord_init\<lparr>ir_file_name := binlog_path (file_name_of sc 1), ir_index := 1, ir_current_mapping := current,
           ir_before_mapping := ([], 0), ir_checkpoint := start_timestamp, ir_position := 0\<rparr>)"

definition BinlogStorage_start ::
  "byte \<Rightarrow> byte list \<Rightarrow> crc32 \<Rightarrow> byte list \<Rightarrow> start_env \<Rightarrow> storage_config \<Rightarrow> storage_state \<Rightarrow> (bool \<times> storage_state) loop_result" where
  "BinlogStorage_start junk uuid_mem crc mem sv sc s = (case s of (st, im, mg) \<Rightarrow>
     then_loop (get_latest_index (sv_fresh sv) im BinlogIndexRecord_init) (\<lambda>(_, r).
       let first = first_index_record sv sc (st_start_timestamp st);
           (name, im) = (if ir_file_name r = [] then (ir_file_name first, snd (add_index first im)) else (ir_file_name r, im))
       in recover_safely junk uuid_mem crc mem sv sc (st\<lparr>st_file_name := name\<rparr>, im, mg)))"

text \<open>The start of \<^verbatim>\<open>BinlogStorage::run\<close>: the latest record becomes the current one; without one the storage stops.\<close>

definition run_begin :: "start_env \<Rightarrow> storage_state \<Rightarrow> (bool \<times> storage_state) option" where
  "run_begin sv s = (case s of (st, im, mg) \<Rightarrow> do {
     (_, r) \<leftarrow> get_latest_index (sv_fresh sv) im (st_index_record st);
     Some (ir_file_name r \<noteq> [], st\<lparr>st_index_record := r\<rparr>, im, mg) })"


section \<open>The files of a running storage\<close>

text \<open>The settings of a first start: the first transaction has a number, and the times fit into the headers.\<close>

definition first_ok :: "start_env \<Rightarrow> storage_config \<Rightarrow> u64 \<Rightarrow> nat \<Rightarrow> bool" where
  "first_ok sv sc ts n \<longleftrightarrow> record_ok (first_index_record sv sc ts) \<and> unat ts < 2 ^ 32 \<and> unat (now_s sv) < 2 ^ 32 \<and>
     (cf_initial_ob_txn_gtid_seq (sc_gtid sc) = 0 \<longrightarrow> sv_initial_ob_txn_id sv = []) \<and>
     unat (cf_initial_ob_txn_gtid_seq (sc_gtid sc)) + n + 1 < 2 ^ 62 \<and> n + 2 < 2 ^ 32"

lemma first_merge:
  assumes "merge_gtid_before junk um (cf_master_server_uuid cf) [] (1, b) = Some ms" "server_text cf uuid" "length um = 16"
    and "b < - 1" "n < 2 ^ 62"
  shows "list_all (message_good n) ms" "length ms \<le> 1"
proof -
  show "list_all (message_good n) ms"
  proof (cases "b = 0")
    case True
    then show ?thesis using assms(1) by (simp add: merge_gtid_before_def)
  next
    case False
    then have "valid_range (1, b)" using assms(4) unat_gt_0[of b] by (simp add: valid_range_def word_le_nat_alt)
    then show ?thesis using merge_good[OF assms(1), of n uuid] assms by simp
  qed
  show "length ms \<le> 1" using merge_length[OF assms(1)] by simp
qed

lemma first_state:
  assumes "first_ok sv sc ts n"
  shows "\<exists>seq. 0 < unat seq \<and> unat seq + n + 1 < 2 ^ 62 \<and> st_txn_gtid_seq (first_start sv sc (BinlogStorage_init ts\<lparr>st_file_name := nm\<rparr>)) = seq"
    "st_previous_gtid_messages (first_start sv sc (BinlogStorage_init ts\<lparr>st_file_name := nm\<rparr>)) = []"
    "st_first_gtid_seq (first_start sv sc (BinlogStorage_init ts\<lparr>st_file_name := nm\<rparr>)) = 1"
    "st_last_record_ts (first_start sv sc (BinlogStorage_init ts\<lparr>st_file_name := nm\<rparr>)) = 0"
    "\<not> st_filter_checkpoint_trx (first_start sv sc (BinlogStorage_init ts\<lparr>st_file_name := nm\<rparr>))"
    "unat (st_start_timestamp (first_start sv sc (BinlogStorage_init ts\<lparr>st_file_name := nm\<rparr>))) < 2 ^ 32"
  using assms by (auto simp: first_ok_def first_start_def BinlogStorage_init_def Let_def unat_gt_0)

lemma start_event_facts:
  assumes "start_event sv sc r bytes INIT existed flag ts ms = Some e" "ir_index r = 1"
  shows "\<exists>h. ev_header e = Some h \<and> eh_timestamp h = ts" "ro_next_previous_gtids e = ms" "ro_index e = 1" "ro_op e = INIT"
    "ro_next_binlog_file_name e = ascii (file_name_of sc 1)"
  using assms
  by (auto simp: start_event_def RotateEvent_init_def Let_def ObLogEvent.defs RotateEvent.defs bind_eq_Some_conv)

text \<open>The file a first start creates.\<close>

lemma init_file_facts:
  assumes "init_binlog_file crc mem sc e (st, im, mg) = Some (ok, st', im', mg')"
    and "ev_header e = Some h" "unat (eh_timestamp h) < 2 ^ 32" "ro_next_binlog_file_name e = ascii (file_name_of sc index)"
    and "list_all message_fit (ro_next_previous_gtids e)" "length (ro_next_previous_gtids e) < 2 ^ 32"
    and "sc_binlog_checksum sc" "im_binlog_files im = Map.empty"
  shows "ok" "files_ok rd crc sc (st_file_name st') im' (start_pos sc (ro_next_previous_gtids e)) index"
    "st' = st\<lparr>st_file_name := binlog_path (file_name_of sc index)\<rparr>"
proof -
  let ?name = "binlog_path (file_name_of sc index)"
  obtain bs where bs: "init_head crc mem sc e = Some bs" and run: "ok" "st' = st\<lparr>st_file_name := ?name\<rparr>"
    "im_binlog_files im' = [?name \<mapsto> bs]"
    using assms(1,4,8)
    by (auto simp: init_binlog_file_def bind_eq_Some_conv text_ascii append_content_def set_content_def content_of_def Let_def)
  note h = init_head_parts[OF bs assms(5,6,2,3)]
  obtain hs where hs: "bs = binlog_magic @ items_bytes crc hs" "file_head hs" "list_all (item_ok rd) hs" "placed 4 hs"
    using h(1)[of rd] by blast
  then have "fine_file rd crc bs" unfolding fine_file_def by (intro exI[of _ hs] exI[of _ "[]"]) simp
  moreover have "length bs = unat (start_pos sc (ro_next_previous_gtids e))"
    using h(2,3) assms(7) start_pos_value[of "ro_next_previous_gtids e" sc] by simp
  moreover have "binlog_path (file_name_of sc j) \<noteq> ?name" if "unat index < unat j" for j
    using file_names_distinct[of sc j index] that by auto
  ultimately show "files_ok rd crc sc (st_file_name st') im' (start_pos sc (ro_next_previous_gtids e)) index"
    using run by (auto simp: files_ok_def split: if_splits)
  show "ok" "st' = st\<lparr>st_file_name := ?name\<rparr>" by (fact run)+
qed


lemma first_rotation:
  assumes "start_rotation junk um crc mem sv sc r INIT False flag (st0, im, mg) = Some (True, st', im', mg')"
    and "st0 = first_start sv sc (BinlogStorage_init ts\<lparr>st_file_name := nm\<rparr>)" "first_ok sv sc ts n" "config_ok sc uuid um"
    and "im_binlog_files im = Map.empty" "ir_index r = 1"
  shows "files_ok rd crc sc (st_file_name st') im' (st_cur_pos st') (st_binlog_file_index st')" "alloc_inv n st'"
    "st_previous_gtid_messages st' =
       (if st_txn_gtid_seq st' = 1 then [] else [message uuid 1 [(1, st_txn_gtid_seq st' - 1)]])"
    "st_first_gtid_seq st' = 0" "\<not> st_filter_checkpoint_trx st'" "im_index_file im' = im_index_file im"
    "mg_gtid_executed_set mg' = mg_gtid_executed_set mg"
proof -
  note f = first_state[OF assms(3), of nm, folded assms(2)]
  obtain seq where seq: "0 < unat seq" "unat seq + n + 1 < 2 ^ 62" "st_txn_gtid_seq st0 = seq" using f(1) by blast
  obtain ms gs e where m: "merge_gtid_before junk um (cf_master_server_uuid (sc_gtid sc)) [] (1, seq - 1) = Some ms"
    "copy_messages ms = Some gs"
    and e: "start_event sv sc r (file_size (ir_file_name r) im) INIT False flag (st_start_timestamp st0) gs = Some e"
    and i: "rotate_storage junk um crc mem sc (now_s sv) e [] r (set_start_pos sc gs
      (st0\<lparr>st_previous_gtid_messages := ms, st_first_gtid_seq := 0, st_binlog_file_index := ro_index e\<rparr>), im,
      init_start_timestamp (st_start_timestamp st0) mg) = Some (True, st', im', mg')"
    using assms(1) f(2,3,5) seq(3)
    by (auto simp: start_rotation_def merge_previous_gtids_def bind_eq_Some_conv set_start_pos_def split: if_splits)
  obtain h where h: "ev_header e = Some h" "eh_timestamp h = st_start_timestamp st0"
    using start_event_facts(1)[OF e assms(6)] by blast
  note g = start_event_facts(2-5)[OF e assms(6)]
  have u: "unat (seq - 1) = unat seq - 1" using seq(1) by (simp add: unat_sub word_le_nat_alt)
  have "unat (- 1 :: u64) = 2 ^ 64 - 1" by simp
  then have "seq - 1 < - 1" using u seq(2) by (simp only: word_less_nat_alt) simp
  then have good: "list_all (message_good n) ms" "length ms \<le> 1"
    using first_merge[OF m(1), of uuid n] assms(4) seq(2) by (simp_all add: config_ok_def)
  have fit: "list_all message_fit gs \<and> map gm_txn_range gs = map gm_txn_range ms"
    using copy_messages_fit[OF m(2)] good(1) by (auto simp: list_all_iff message_good_def)
  then have "length gs = length ms" using length_map by metis
  then have few: "length gs < 2 ^ 32" using good(2) by simp
  have init: "init_binlog_file crc mem sc e (set_start_pos sc gs
      (st0\<lparr>st_previous_gtid_messages := ms, st_first_gtid_seq := 0, st_binlog_file_index := ro_index e\<rparr>), im,
      init_start_timestamp (st_start_timestamp st0) mg) = Some (True, st', im', mg')"
    using i g(3) by (simp add: rotate_storage_def)
  have ts: "unat (eh_timestamp h) < 2 ^ 32" using h(2) f(6) by simp
  note k = init_file_facts[OF init h(1) ts g(4)[unfolded g(1)] _ _ _ assms(5), unfolded g(1), OF conjunct1[OF fit] few]
  have cs: "sc_binlog_checksum sc" using assms(4) by (simp add: config_ok_def)
  show "alloc_inv n st'"
    using k(3)[OF cs] good seq f(4) assms(3) by (simp add: alloc_inv_def set_start_pos_def first_ok_def)
  show "files_ok rd crc sc (st_file_name st') im' (st_cur_pos st') (st_binlog_file_index st')" "st_first_gtid_seq st' = 0"
    "\<not> st_filter_checkpoint_trx st'"
    using k(2)[OF cs, of rd] k(3)[OF cs] g(2) f(5) by (simp_all add: set_start_pos_def)
  have "ms = (if seq = 1 then [] else [message uuid 1 [(1, seq - 1)]])"
    using m(1) merge_empty[of "sc_gtid sc" uuid um "seq - 1" junk] assms(4)
    by (auto simp: config_ok_def merge_gtid_before_def word_neq_0_conv[symmetric])
  then show "st_previous_gtid_messages st' =
       (if st_txn_gtid_seq st' = 1 then [] else [message uuid 1 [(1, st_txn_gtid_seq st' - 1)]])"
    using k(3)[OF cs] seq(3) by (simp add: set_start_pos_def)
  show "im_index_file im' = im_index_file im" "mg_gtid_executed_set mg' = mg_gtid_executed_set mg"
    using init by (auto simp: init_binlog_file_def bind_eq_Some_conv append_content_def set_content_def init_start_timestamp_def Let_def)
qed

lemma first_start_rotation:
  assumes "BinlogStorage_start junk um crc mem sv sc (BinlogStorage_init ts, im0, mg0) = Finished (True, s)"
    and "im_index_file im0 = None" "im_binlog_files im0 = Map.empty" "first_ok sv sc ts n"
  obtains im1 flag where "start_rotation junk um crc mem sv sc (first_index_record sv sc ts) INIT False flag
      (first_start sv sc (BinlogStorage_init ts\<lparr>st_file_name := ir_file_name (first_index_record sv sc ts)\<rparr>), im1, mg0) = Some (True, s)"
    "im_binlog_files im1 = Map.empty" "ir_index (first_index_record sv sc ts) = 1" "represents im1 [first_index_record sv sc ts]"
proof -
  let ?first = "first_index_record sv sc ts"
  let ?im = "snd (add_index ?first im0)" and ?st = "BinlogStorage_init ts\<lparr>st_file_name := ir_file_name ?first\<rparr>"
  have r: "record_ok ?first" "ir_index ?first = 1" "ir_position ?first = 0"
    using assms(4) by (simp_all add: first_ok_def first_index_record_def Let_def)
  have rep: "represents ?im [?first]" using r(1) assms(2) by (simp add: represents_def add_index_def)
  then have l: "get_latest_index (sv_fresh sv) ?im BinlogIndexRecord_init = Some (True, ?first)"
    using latest_represented[of ?im "[]"] by simp
  have "recover_safely junk um crc mem sv sc (?st, ?im, mg0) = Finished (True, s)"
    using assms(1,2) by (simp add: BinlogStorage_start_def get_latest_index_def BinlogIndexRecord_init_def
        BinlogStorage_init_def Let_def)
  then have "start_rotation junk um crc mem sv sc ?first INIT False (if sc_binlog_checksum sc then CRC32 else OFF)
      (first_start sv sc ?st, ?im, mg0) = Some (True, s)"
    using l r(3) by (cases "start_rotation junk um crc mem sv sc ?first INIT False (if sc_binlog_checksum sc then CRC32 else OFF)
      (first_start sv sc ?st, ?im, mg0)") (auto simp: recover_safely_def)
  moreover have "im_binlog_files ?im = Map.empty" using assms(3) by (simp add: add_index_def)
  ultimately show ?thesis using that r(2) rep by blast
qed

lemma first_start_files_ok:
  assumes "BinlogStorage_start junk um crc mem sv sc (BinlogStorage_init ts, im0, mg0) = Finished (True, st, im, mg)"
    and "im_index_file im0 = None" "im_binlog_files im0 = Map.empty" "first_ok sv sc ts n" "config_ok sc uuid um"
  shows "files_ok rd crc sc (st_file_name st) im (st_cur_pos st) (st_binlog_file_index st) \<and> alloc_inv n st"
proof (rule first_start_rotation[OF assms(1-4)])
  fix im1 flag
  assume "start_rotation junk um crc mem sv sc (first_index_record sv sc ts) INIT False flag
      (first_start sv sc (BinlogStorage_init ts\<lparr>st_file_name := ir_file_name (first_index_record sv sc ts)\<rparr>), im1, mg0) =
      Some (True, st, im, mg)" "im_binlog_files im1 = Map.empty" "ir_index (first_index_record sv sc ts) = 1"
  from first_rotation(1,2)[OF this(1) refl assms(4,5) this(2,3)] show ?thesis by blast
qed

definition uuid_ok :: "GtidMessage \<Rightarrow> bool" where
  "uuid_ok m \<longleftrightarrow> (\<exists>u. gm_gtid_uuid m = Some u \<and> length u = 16)"

text \<open>A first start on an empty directory, followed by batches.  The number is the room that is left in the counters.\<close>

inductive storing ::
  "byte \<Rightarrow> byte list \<Rightarrow> crc32 \<Rightarrow> byte list \<Rightarrow> reader \<Rightarrow> storage_config \<Rightarrow> nat \<Rightarrow> storage_state \<Rightarrow> bool"
  for junk :: byte and um :: "byte list" and crc :: crc32 and mem :: "byte list" and rd :: reader and sc :: storage_config where
  first: "im_index_file im0 = None \<Longrightarrow> im_binlog_files im0 = Map.empty \<Longrightarrow> first_ok sv sc ts n \<Longrightarrow>
    list_all uuid_ok (mg_gtid_executed_set mg0) \<Longrightarrow>
    BinlogStorage_start junk um crc mem sv sc (BinlogStorage_init ts, im0, mg0) = Finished (True, s0) \<Longrightarrow>
    run_begin sv s0 = Some (True, s) \<Longrightarrow> storing junk um crc mem rd sc n s"
| batch: "storing junk um crc mem rd sc (2 * length es + n) (st, im, mg) \<Longrightarrow> handed_over rd es \<Longrightarrow>
    max 1024 (unat (st_cur_pos st)) + total_len crc es + 300 * length es < 2 ^ 32 \<Longrightarrow>
    unat (st_binlog_file_index st) + length es < 2 ^ 64 \<Longrightarrow>
    process_batch junk um crc mem sc es (st, im, mg) = Some s \<Longrightarrow>
    storing junk um crc mem rd sc n s"

lemma storing_inv:
  "storing junk um crc mem rd sc n s \<Longrightarrow> config_ok sc uuid um \<Longrightarrow>
   files_ok rd crc sc (st_file_name (fst s)) (fst (snd s)) (st_cur_pos (fst s)) (st_binlog_file_index (fst s)) \<and> alloc_inv n (fst s)"
proof (induction rule: storing.induct)
  case (first im0 sv ts n mg0 s0 s)
  obtain st im mg where s: "s0 = (st, im, mg)" by (cases s0) auto
  have "files_ok rd crc sc (st_file_name st) im (st_cur_pos st) (st_binlog_file_index st) \<and> alloc_inv n st"
    by (rule first_start_files_ok[OF first(5)[unfolded s] first(1-3,7)])
  then show ?case using first(6) by (auto simp: s run_begin_def bind_eq_Some_conv alloc_inv_def)
next
  case (batch es n st im mg s)
  obtain st' im' mg' where s: "s = (st', im', mg')" by (cases s) auto
  have i: "files_ok rd crc sc (st_file_name st) im (st_cur_pos st) (st_binlog_file_index st)" "alloc_inv (2 * length es + n) st"
    using batch(6)[OF batch(7)] by simp_all
  show ?case using batch_files_ok[OF batch(5)[unfolded s] batch(2) i(2) batch(7) i(1) batch(3,4)] by (simp add: s)
qed


text \<open>The head is written when it fits into its block.\<close>

lemma init_head_fits:
  assumes "PreviousGtidsLogEvent_init (sc_binlog_checksum sc) (sc_server_id sc) (of_nat (length (ro_next_previous_gtids r)))
      (ro_next_previous_gtids r) (eh_timestamp h) = Some e0"
    and "list_all message_fit (ro_next_previous_gtids r)" "messages_size (ro_next_previous_gtids r) \<le> 800"
    and "unat (eh_event_length (event_hdr e0)) \<le> 831" "ev_header r = Some h" "unat (eh_timestamp h) < 2 ^ 32"
  shows "\<exists>bs. init_head crc mem sc r = Some bs"
proof -
  let ?cs = "sc_binlog_checksum sc"
  let ?fl = "if ?cs then 120 else 116 :: nat" and ?fd = "FormatDescriptionEvent_init ?cs (sc_server_id sc) (eh_timestamp h)"
  obtain hf where hf: "ev_header ?fd = Some hf" and fd: "format_wf ?fd" and flen: "unat (eh_event_length hf) = ?fl"
    using format_init_wf[OF assms(6), of ?cs "sc_server_id sc"]
    by (auto simp: FormatDescriptionEvent_init_def Let_def ObLogEvent.defs)
  have m: "emit binlog_magic (block mem 1024, 0) = Some (binlog_magic @ drop 4 (block mem 1024), 4)"
    by (simp add: emit_start binlog_magic_def eval_nat_numeral)
  have f: "FormatDescriptionEvent_flush crc ?fd (drop 4 (block mem 1024)) =
      Some (fe.file_bytes crc ?fd @ drop (?fl + 4) (block mem 1024), ?fl)"
    using fe.flush_fits[OF fd, of "drop 4 (block mem 1024)" crc] hf flen by (simp add: add.commute split: if_splits)
  have lf: "length (fe.file_bytes crc ?fd) = ?fl" using fe.file_bytes_length[OF fd, of crc] hf flen by simp
  have w: "previous_wf e0" using assms(2,3,6) by (intro previous_init_wf[OF assms(1)]) simp_all
  then obtain h0 where h0: "ev_header e0 = Some h0" by (auto simp: previous_wf_def event_ok_def)
  let ?p = "e0\<lparr>ev_header := Some (h0\<lparr>eh_next_position := eh_next_position hf + eh_event_length h0\<rparr>)\<rparr>"
  have pw: "previous_wf ?p" using w h0 by (simp add: previous_wf_def event_ok_def previous_image_def proper_header_def)
  have prev: "previous_event sc (eh_next_position hf) (ro_next_previous_gtids r) (eh_timestamp h) = Some ?p"
    using assms(1) h0 by (simp add: previous_event_def)
  let ?rest = "drop (?fl + 4) (block mem 1024)"
  have "unat (eh_event_length (event_hdr ?p)) \<le> length ?rest" using assms(4) h0 by simp
  from pe.flush_fits[OF pw this, of crc] obtain c where c: "PreviousGtidsLogEvent_flush crc ?p ?rest = Some c" by blast
  show ?thesis using assms(5) hf m f lf prev c by (simp add: init_head_def magic_length Let_def split: prod.splits)
qed

text \<open>The head of a file without earlier transactions.\<close>

lemma init_head_empty:
  assumes "ev_header r = Some h" "unat (eh_timestamp h) < 2 ^ 32" "ro_next_previous_gtids r = []"
  shows "\<exists>bs. init_head crc mem sc r = Some bs"
  using assms
  by (intro init_head_fits[where h = h])
     (auto simp: PreviousGtidsLogEvent_init_def init_simps OblogEventHeader_init_def ObLogEvent.defs PreviousGtidsLogEvent.defs
       COMMON_HEADER_LENGTH_def CRC32_def get_checksum_len_def OFF_def COMMON_CHECKSUM_LENGTH_def Let_def split: if_splits)

section \<open>A small run\<close>

definition small_env :: start_env where
  "small_env = \<lparr>sv_now = 9000000, sv_initial_ob_txn_id = [], sv_gtid_heartbeat_duration_s = 60, sv_fresh = [], sv_fuel = 10,
     sv_reader = \<lparr>gr_xid = small_xid 0, gr_gtid = small_gtid 0 0, gr_format = FormatDescriptionEvent_init True 1 0,
       gr_previous = the (PreviousGtidsLogEvent_init True 1 0 [] 0)\<rparr>, sv_stack = [0, 0, 0, 0]\<rparr>"

definition small_index :: BinlogIndexManager where
  "small_index = \<lparr>im_index_file = None, im_memory_index_record = BinlogIndexRecord_init, im_binlog_files = Map.empty\<rparr>"

definition small_batch :: "log_event option list" where
  "small_batch = [Some (GtidEv (small_gtid 0 0)), Some (XidEv (small_xid 0))]"

lemma small_first:
  "first_ok small_env small_storage 0 1000" "config_ok small_storage (replicate 16 17) (replicate 16 0)"
  using number_chars[of 1]
  by (auto simp: first_ok_def small_env_def small_storage_def some_config_def first_index_record_def config_ok_def some_server
      record_ok_def name_ok_def BinlogIndexRecord_init_def binlog_path_def fill_binlog_file_name_def TAB_def LF_def NUL_def
      Let_def server_text_def)


abbreviation small_record :: BinlogIndexRecord where
  "small_record \<equiv> first_index_record small_env small_storage 0"

definition small_storing :: "BinlogStorage" where
  "small_storing = BinlogStorage_init 0\<lparr>st_file_name := ir_file_name small_record, st_cur_pos := 155, st_binlog_file_index := 1,
     st_filter_util_checkpoint_trx := False, st_filter_checkpoint_trx := False, st_first_gtid_seq := 0, st_start_timestamp := 9\<rparr>"

lemma small_started:
  "\<exists>bs. BinlogStorage_start 0 (replicate 16 0) crc_zero [] small_env small_storage (BinlogStorage_init 0, small_index, new_manager) =
     Finished (True, small_storing, set_content (ir_file_name small_record) bs (snd (add_index small_record small_index)),
       init_start_timestamp 9 new_manager)"
proof -
  let ?im = "snd (add_index small_record small_index)" and ?st = "BinlogStorage_init 0\<lparr>st_file_name := ir_file_name small_record\<rparr>"
  have r: "record_ok small_record" "ir_position small_record = 0" "ir_index small_record = 1"
    using small_first(1) by (simp_all add: first_ok_def first_index_record_def Let_def)
  have "represents ?im ([] @ [small_record])" using r(1) by (simp add: represents_def add_index_def small_index_def)
  from latest_represented[OF this] have l: "get_latest_index (sv_fresh small_env) ?im BinlogIndexRecord_init = Some (True, small_record)" .
  let ?s = "first_start small_env small_storage ?st"
  have s: "?s = ?st\<lparr>st_filter_util_checkpoint_trx := False, st_filter_checkpoint_trx := False, st_start_timestamp := 9\<rparr>"
    by (simp add: first_start_def small_env_def small_storage_def some_config_def BinlogStorage_init_def Let_def)
  obtain e h where e: "start_event small_env small_storage small_record (file_size (ir_file_name small_record) ?im) INIT False CRC32 9 [] = Some e"
    "ev_header e = Some h" "eh_timestamp h = 9" "ro_op e = INIT" "ro_next_previous_gtids e = []" "ro_index e = 1"
    "ro_next_binlog_file_name e = ascii (file_name_of small_storage 1)"
    using r(3) by (auto simp: start_event_def RotateEvent_init_def Let_def ObLogEvent.defs RotateEvent.defs CRC32_def OFF_def)
  obtain bs where bs: "init_head crc_zero [] small_storage e = Some bs"
    using init_head_empty[OF e(2) _ e(5), of crc_zero "[]" small_storage] e(3) by auto
  have name: "ir_file_name small_record = binlog_path (file_name_of small_storage 1)" by (simp add: first_index_record_def Let_def)
  have p: "start_pos small_storage [] = 155"
    by (simp add: start_pos_def small_storage_def BINLOG_START_FIXED_POS_def COMMON_CHECKSUM_LENGTH_def)
  let ?out = "(small_storing, set_content (ir_file_name small_record) bs ?im, init_start_timestamp 9 new_manager)"
  have "rotate_storage 0 (replicate 16 0) crc_zero [] small_storage (now_s small_env) e [] small_record
      (set_start_pos small_storage [] (?s\<lparr>st_previous_gtid_messages := [], st_first_gtid_seq := 0, st_binlog_file_index := 1\<rparr>),
       ?im, init_start_timestamp 9 new_manager) = Some (True, ?out)"
    unfolding s small_storing_def using e(4,7) bs
    by (simp add: rotate_storage_def init_binlog_file_def Let_def set_start_pos_def p text_ascii name append_content_def content_of_def
        add_index_def small_index_def BinlogStorage_init_def)
  then have "start_rotation 0 (replicate 16 0) crc_zero [] small_env small_storage small_record INIT False CRC32 (?s, ?im, new_manager) =
      Some (True, ?out)"
    using e(1,6) unfolding s
    by (simp add: start_rotation_def merge_previous_gtids_def merge_gtid_before_def new_manager_def set_start_pos_def BinlogStorage_init_def)
  moreover have "get_latest_index (sv_fresh small_env) small_index BinlogIndexRecord_init = Some (False, BinlogIndexRecord_init)"
    "ir_file_name BinlogIndexRecord_init = []" "st_start_timestamp (BinlogStorage_init 0) = 0" "sc_binlog_checksum small_storage"
    by (simp_all add: get_latest_index_def small_index_def BinlogIndexRecord_init_def BinlogStorage_init_def small_storage_def)
  ultimately show ?thesis
    using l r(2) by (intro exI[of _ bs]) (simp add: BinlogStorage_start_def recover_safely_def Let_def)
qed



section \<open>Properties\<close>

text \<open>C23. The position the storage starts to count from in a new file is the length of the head of that file when
  checksums are on.  When they are off it is four bytes too large, so every position in the file is.\<close>

theorem start_position:
  assumes "init_head crc mem sc r = Some bs" "list_all message_fit (ro_next_previous_gtids r)"
    and "length (ro_next_previous_gtids r) < 2 ^ 32" "ev_header r = Some h" "unat (eh_timestamp h) < 2 ^ 32"
  shows "unat (start_pos sc (ro_next_previous_gtids r)) = length bs + (if sc_binlog_checksum sc then 0 else 4)"
  using init_head_parts(2,3)[OF assms] start_pos_value[of "ro_next_previous_gtids r" sc] by (simp split: if_splits)

definition head_event :: RotateEvent where
  "head_event = RotateEvent_init False 1 0 INIT 4 [] 7 0"

theorem start_position_witness:
  "\<exists>bs. init_head crc_zero [] (small_storage\<lparr>sc_binlog_checksum := False\<rparr>) head_event = Some bs \<and>
     unat (start_pos (small_storage\<lparr>sc_binlog_checksum := False\<rparr>) []) = length bs + 4"
proof -
  let ?sc = "small_storage\<lparr>sc_binlog_checksum := False\<rparr>"
  obtain h where h: "ev_header head_event = Some h" "eh_timestamp h = 7" "ro_next_previous_gtids head_event = []"
    by (auto simp: head_event_def RotateEvent_init_def Let_def ObLogEvent.defs RotateEvent.defs OblogEventHeader_init_def)
  obtain bs where "init_head crc_zero [] ?sc head_event = Some bs" using init_head_empty[OF h(1) _ h(3), of crc_zero "[]" ?sc] h(2) by auto
  then show ?thesis using start_position [of crc_zero "[]" ?sc head_event bs h] h by simp
qed

end
