(* ===== verification/StorageLive.thy ===== *)
theory StorageLive
  imports StorageRun
begin

text \<open>
  A storage that was started on an empty directory takes every batch: no assertion fails, no block is too small, no
  null pointer is followed and nothing is thrown.  The reasons are collected here one operation at a time: the messages of
  earlier transactions are one range of one server, the index file always has a last line, and the current file exists.
\<close>

section \<open>Messages\<close>

lemma uuid_ok_text: "uuid_ok m \<Longrightarrow> \<exists>t. uuid_hex_bin_to_str_with_delim m = Some t"
  by (auto simp: uuid_ok_def uuid_hex_bin_to_str_with_delim_def get_gtid_uuid_str_def uuid_hex_bin_to_str_def peek_def SERVER_UUID_LEN_def)

lemma uuid_ok_ranges [simp]: "uuid_ok (set_ranges rs m) = uuid_ok m"
  by (simp add: uuid_ok_def set_ranges_def)

lemma merge_existing_some:
  "list_all uuid_ok ms \<Longrightarrow> \<exists>ms' ex. merge_existing server r ms = Some (ms', ex) \<and> list_all uuid_ok ms'"
proof (induction ms)
  case (Cons m ms)
  obtain t where t: "uuid_hex_bin_to_str_with_delim m = Some t" using uuid_ok_text[of m] Cons.prems by auto
  obtain ms' ex where "merge_existing server r ms = Some (ms', ex)" "list_all uuid_ok ms'" using Cons by auto
  then show ?case using Cons.prems t by auto
qed (auto intro: exI[of _ False])

lemma merge_some:
  assumes "list_all uuid_ok ms" "server_text cf uuid" "length mem = 16"
  shows "\<exists>ms'. merge_gtid_before junk mem (cf_master_server_uuid cf) ms r = Some ms' \<and> list_all uuid_ok ms'"
proof -
  obtain ms' ex where m: "merge_existing (cf_master_server_uuid cf) r ms = Some (ms', ex)" "list_all uuid_ok ms'"
    using merge_existing_some[OF assms(1)] by blast
  have "set_gtid_uuid junk mem (cf_master_server_uuid cf) GtidMessage_init = Some (0, GtidMessage_init\<lparr>gm_gtid_uuid := Some uuid\<rparr>)"
    using assms(2,3) uuid_str_roundtrip[of uuid mem junk None] by (simp add: server_text_def set_gtid_uuid_def GtidMessage_init_def)
  moreover have "uuid_ok (GtidMessage_init\<lparr>gm_gtid_uuid := Some uuid\<rparr>)" using assms(2) by (simp add: uuid_ok_def server_text_def)
  ultimately show ?thesis using m by (simp add: merge_gtid_before_def)
qed

lemma join_some: "list_all uuid_ok ms \<Longrightarrow> \<exists>t. join_gtids ms s = Some t"
proof (induction ms arbitrary: s)
  case (Cons m ms)
  obtain t where "uuid_hex_bin_to_str_with_delim m = Some t" using uuid_ok_text[of m] Cons.prems by auto
  then show ?case using Cons by (simp add: format_string_def)
qed simp

lemma executed_some:
  assumes "list_all uuid_ok (mg_gtid_executed_set mg)" "server_text cf uuid" "length mem = 16"
  shows "\<exists>mg'. update_gtid_executed junk mem cf g mg = Some mg' \<and> list_all uuid_ok (mg_gtid_executed_set mg')"
proof -
  obtain ms where ms: "merge_gtid_before junk mem (cf_master_server_uuid cf) (mg_gtid_executed_set mg) (1, g) = Some ms"
    "list_all uuid_ok ms" using merge_some[OF assms] by blast
  then obtain t where "join_gtids ms [] = Some t" using join_some by blast
  then show ?thesis using ms by (simp add: update_gtid_executed_def)
qed

lemma merge_range:
  assumes "server_text cf uuid" "length mem = 16"
  shows "merge_gtid_before junk mem (cf_master_server_uuid cf) [] (f, l) = Some (if f > 0 \<and> l > 0 then [message uuid 1 [(f, l)]] else [])"
    "unat f \<le> unat b + 1 \<Longrightarrow> b < - 1 \<Longrightarrow>
     merge_gtid_before junk mem (cf_master_server_uuid cf) [message uuid 1 [(a, b)]] (f, l) = Some [message uuid 1 [(a, max b l)]]"
proof -
  show "merge_gtid_before junk mem (cf_master_server_uuid cf) [] (f, l) = Some (if f > 0 \<and> l > 0 then [message uuid 1 [(f, l)]] else [])"
    using assms uuid_str_roundtrip[of uuid mem junk None]
    by (simp add: merge_gtid_before_def server_text_def set_gtid_uuid_def GtidMessage_init_def set_ranges_def message_def)
  assume f: "unat f \<le> unat b + 1" "b < - 1"
  have "unat (- 1 :: u64) = 2 ^ 64 - 1" by simp
  then have "unat b + unat (1 :: u64) < 2 ^ 64" using f(2) by (simp only: word_less_nat_alt) simp
  then have "unat (b + 1) = unat b + 1" using unat_add_small[of b 1] by simp
  then have "extend_ranges (f, l) [(a, b)] = [(a, max b l)]"
    using f(1) by (auto simp: extend_ranges_def word_less_nat_alt word_le_nat_alt word_unat_eq_iff max_def)
  then show "merge_gtid_before junk mem (cf_master_server_uuid cf) [message uuid 1 [(a, b)]] (f, l) = Some [message uuid 1 [(a, max b l)]]"
    using assms(1)
    by (simp add: merge_gtid_before_def message_def set_ranges_def uuid_hex_bin_to_str_with_delim_def get_gtid_uuid_str_def
        uuid_hex_bin_to_str_def peek_def SERVER_UUID_LEN_def server_text_def strcasecmp_refl)
qed

text \<open>The transactions of the earlier files are one range of the server itself, and the next one follows it.\<close>

definition one_range :: "byte list \<Rightarrow> BinlogStorage \<Rightarrow> bool" where
  "one_range uuid st \<longleftrightarrow> \<not> st_filter_checkpoint_trx st \<and>
     (st_previous_gtid_messages st = [] \<or>
      (\<exists>a b. st_previous_gtid_messages st = [message uuid 1 [(a, b)]] \<and>
         unat (if st_first_gtid_seq st = 0 then st_txn_gtid_seq st else st_first_gtid_seq st) \<le> unat b + 1))"

lemma one_range_cong:
  "st_filter_checkpoint_trx st' = st_filter_checkpoint_trx st \<Longrightarrow> st_previous_gtid_messages st' = st_previous_gtid_messages st \<Longrightarrow>
   st_first_gtid_seq st' = st_first_gtid_seq st \<Longrightarrow> st_txn_gtid_seq st' = st_txn_gtid_seq st \<Longrightarrow> one_range uuid st \<Longrightarrow> one_range uuid st'"
  by (simp only: one_range_def simp_thms)

definition short_head :: "byte list \<Rightarrow> RotateEvent \<Rightarrow> bool" where
  "short_head uuid r \<longleftrightarrow> ro_next_previous_gtids r = [] \<or> (\<exists>a b. ro_next_previous_gtids r = [message uuid 1 [(a, b)]])"


section \<open>Allocation\<close>

lemma admit_gtid_live:
  assumes "one_range uuid st" "0 < unat (st_txn_gtid_seq st)" "cf_gtid_marking_step_size (sc_gtid sc) \<noteq> 0"
  shows "\<exists>a st' mg'. admit_gtid sc e st mg = Some (a, st', mg') \<and> one_range uuid st' \<and>
    mg_gtid_executed_set mg' = mg_gtid_executed_set mg"
proof -
  let ?e = "e\<lparr>gt_gtid_txn_id := st_txn_gtid_seq st\<rparr>"
  have np: "st_filter_checkpoint_trx st = False" using assms(1) by (simp add: one_range_def)
  obtain c1 same where c: "admit_gtid sc e st mg =
      (if c1 then Some (Skip (GtidEv ?e), st, mg) else begin_trx sc ?e (end_filter ?e same st) mg)"
    using admit_gtid_def[of sc e st mg] unfolding Let_def np simp_thms if_False by blast
  obtain mg' where m: "mark_event (sc_gtid sc) False (ev_checkpoint ?e) (ev_ob_txn ?e, gt_gtid_txn_id ?e) mg = Some mg'"
    "mg_gtid_executed_set mg' = mg_gtid_executed_set mg"
    using assms(3) by (cases "snd (ev_ob_txn ?e, gt_gtid_txn_id ?e) mod ucast (cf_gtid_marking_step_size (sc_gtid sc)) = 0")
      (simp_all add: mark_event_def Let_def)
  have "one_range uuid (end_filter ?e same st)" by (rule one_range_cong[OF _ _ _ _ assms(1)]) (simp_all add: end_filter_def)
  moreover have "st_txn_gtid_seq (end_filter ?e same st) = st_txn_gtid_seq st" by (simp add: end_filter_def)
  ultimately have "\<exists>a st'. begin_trx sc ?e (end_filter ?e same st) mg = Some (a, st', mg') \<and> one_range uuid st'"
    using m(1) assms(2) by (auto simp: begin_trx_def Let_def one_range_def unat_gt_0 split: if_splits)
  then show ?thesis using c assms(1) m(2) by (cases c1) auto
qed

lemma compress_executed [simp]:
  "mg_gtid_executed_set (compress_and_save_gtid_seq cf m mg) = mg_gtid_executed_set mg"
proof -
  have s: "mg_gtid_executed_set (save_gtid_seq cf q mg) = mg_gtid_executed_set mg" for q mg
    by (simp add: save_gtid_seq_def Let_def)
  have f: "mg_gtid_executed_set (foldl (\<lambda>mg q. save_gtid_seq cf q mg) mg qs) = mg_gtid_executed_set mg" for qs mg
    by (induction qs arbitrary: mg) (simp_all add: s)
  have r: "mg_gtid_executed_set (rewrite_gtid_file P u mg) = mg_gtid_executed_set mg" for P u mg
    by (simp add: rewrite_gtid_file_def Let_def split: option.splits)
  have c: "mg_gtid_executed_set (clear_outdated_heartbeat_gtid_seqs_periodically cf t mg) = mg_gtid_executed_set mg" for t mg
    by (simp add: clear_outdated_heartbeat_gtid_seqs_periodically_def r Let_def)
  show ?thesis by (simp add: compress_and_save_gtid_seq_def Let_def c s f)
qed

lemma admit_live:
  assumes "one_range uuid st" "0 < unat (st_txn_gtid_seq st)" "cf_gtid_marking_step_size (sc_gtid sc) \<noteq> 0" "storable rd e"
  shows "\<exists>a st' mg'. admit sc e st mg = Some (a, st', mg') \<and> one_range uuid st' \<and>
    mg_gtid_executed_set mg' = mg_gtid_executed_set mg"
proof -
  have same: "one_range uuid (st\<lparr>st_filter_util_checkpoint_trx := b\<rparr>)" "one_range uuid (st\<lparr>st_xid := x\<rparr>)" for b x
    by (rule one_range_cong[OF _ _ _ _ assms(1)]; simp)+
  show ?thesis
  proof (cases e)
    case (GtidEv g)
    then show ?thesis
      using admit_gtid_live[OF assms(1-3), of g mg] assms(4)
      by (auto simp: admit_def gtid_wf_def event_ok_def Let_def ObLogEvent.defs)
  next
    case (XidEv x)
    then show ?thesis using assms(1,4) same by (auto simp: admit_def xid_wf_def event_ok_def Let_def ObLogEvent.defs)
  next
    case (QueryEv q)
    then show ?thesis using assms(1,4) same by (auto simp: admit_def query_wf_def event_ok_def Let_def ObLogEvent.defs)
  next
    case (HeartbeatEv h)
    then show ?thesis using assms(1,4) by (auto simp: admit_def mark_event_def Let_def ObLogEvent.defs)
  next
    case (TableMapEv t)
    then show ?thesis using assms(1,4) same by (auto simp: admit_def table_map_wf_def event_ok_def Let_def ObLogEvent.defs)
  next
    case (RowsEv r)
    then show ?thesis
      using assms(1,4) same
      by (auto simp: admit_def write_rows_wf_def delete_rows_wf_def update_rows_wf_def event_ok_def Let_def ObLogEvent.defs)
  qed
qed


text \<open>The records of the index go along with the rotations of a batch.\<close>

definition records_ok :: "SerializeEvent \<Rightarrow> bool" where
  "records_ok b \<longleftrightarrow> se_index_pos b = length (se_rotate_events b) \<and>
     (length (se_index_records b) = se_index_pos b \<or> length (se_index_records b) = Suc (se_index_pos b))"

lemma record_live:
  "records_ok b \<Longrightarrow> \<exists>b'. SerializeEvent_update_index_record r b = Some b' \<and> se_index_pos b' = length (se_rotate_events b') \<and>
     length (se_index_records b') = Suc (se_index_pos b') \<and> se_rotate_events b' = se_rotate_events b"
  by (auto simp: records_ok_def SerializeEvent_update_index_record_def)

lemma copy_one: "length uuid = 16 \<Longrightarrow> copy_messages [message uuid 1 rs] = Some [message uuid 1 rs]"
  by (simp add: copy_from_def message_def GtidMessage_init_def peek_def SERVER_UUID_LEN_def)

lemma merge_previous_live:
  assumes "one_range uuid st" "alloc_inv n st" "config_ok sc uuid mem"
  shows "\<exists>ms. merge_previous_gtids junk mem sc (st_txn_gtid_seq st - 1) st = Some (ms, st\<lparr>st_previous_gtid_messages := ms\<rparr>) \<and>
    (ms = [] \<or> (\<exists>a b. ms = [message uuid 1 [(a, b)]] \<and> unat (st_txn_gtid_seq st) \<le> unat b + 1))"
proof -
  let ?l = "st_txn_gtid_seq st - 1" and ?f = "st_first_gtid_seq st"
  have s: "server_text (sc_gtid sc) uuid" "length mem = 16" "length uuid = 16" using assms(3) by (simp_all add: config_ok_def server_text_def)
  have l: "unat ?l = unat (st_txn_gtid_seq st) - 1" using assms(2) by (simp add: alloc_inv_def unat_sub word_le_nat_alt)
  consider (none) "st_previous_gtid_messages st = []" | (one) a b where "st_previous_gtid_messages st = [message uuid 1 [(a, b)]]"
    "unat (if ?f = 0 then st_txn_gtid_seq st else ?f) \<le> unat b + 1"
    using assms(1) by (auto simp: one_range_def)
  then show ?thesis
  proof cases
    case none
    show ?thesis
    proof (cases "?f > 0 \<and> ?l > 0")
      case True
      then show ?thesis
        using merge_range(1)[OF s(1,2), of junk ?f ?l] copy_one[OF s(3)] l none
        by (intro exI[of _ "[message uuid 1 [(?f, ?l)]]"]) (auto simp: merge_previous_gtids_def message_def)
    next
      case False
      then show ?thesis using merge_range(1)[OF s(1,2), of junk ?f ?l] none by (auto simp: merge_previous_gtids_def)
    qed
  next
    case one
    have b: "b < - 1" using assms(2) one(1) by (simp add: alloc_inv_def message_good_def message_fit_def message_def valid_range_def)
    have f: "unat ?f \<le> unat b + 1" using one(2) by (cases "?f = 0") simp_all
    have "unat (max b ?l) = max (unat b) (unat ?l)" by (simp add: max_def word_le_nat_alt)
    then have "unat (st_txn_gtid_seq st) \<le> unat (max b ?l) + 1" using l by simp
    then show ?thesis
      using merge_range(2)[OF s(1,2) f b, of junk a ?l] copy_one[OF s(3)] one(1)
      by (intro exI[of _ "[message uuid 1 [(a, max b ?l)]]"]) (auto simp: merge_previous_gtids_def message_def)
  qed
qed

lemma rotate_live:
  assumes "one_range uuid st" "alloc_inv n st" "config_ok sc uuid mem" "records_ok b" "length (se_index_records b) = Suc (se_index_pos b)"
    and "list_all (short_head uuid) (se_rotate_events b)" "st_cur_pos st > sc_max_binlog_size sc"
  shows "\<exists>st' b'. rotate_binlog_file junk mem sc ts st b = Some (st', b') \<and> one_range uuid st' \<and>
    records_ok (b'\<lparr>se_index_pos := Suc (se_index_pos b')\<rparr>) \<and> list_all (short_head uuid) (se_rotate_events b')"
proof -
  let ?i = "st_binlog_file_index st + 1"
  let ?st = "st\<lparr>st_binlog_file_index := ?i,
      st_index_record := (st_index_record st)\<lparr>ir_index := ?i, ir_file_name := binlog_path (file_name_of sc ?i)\<rparr>\<rparr>"
  have "one_range uuid ?st" by (rule one_range_cong[OF _ _ _ _ assms(1)]) simp_all
  moreover have "alloc_inv n ?st" using assms(2) by (simp add: alloc_inv_def)
  ultimately obtain ms where ms: "merge_previous_gtids junk mem sc (st_txn_gtid_seq ?st - 1) ?st = Some (ms, ?st\<lparr>st_previous_gtid_messages := ms\<rparr>)"
    "ms = [] \<or> (\<exists>a b. ms = [message uuid 1 [(a, b)]] \<and> unat (st_txn_gtid_seq ?st) \<le> unat b + 1)"
    using merge_previous_live[OF _ _ assms(3), of ?st n junk] by blast
  let ?st' = "?st\<lparr>st_previous_gtid_messages := ms, st_cur_pos := start_pos sc ms, st_first_gtid_seq := 0\<rparr>"
  have r: "one_range uuid ?st'" using ms(2) assms(1) by (simp add: one_range_def)
  show ?thesis
    using assms(4-7) ms r by (auto simp: rotate_binlog_file_def set_start_pos_def records_ok_def short_head_def Let_def)
qed


definition batch_ok :: "byte list \<Rightarrow> BinlogStorage \<times> GtidManager \<times> SerializeEvent \<Rightarrow> bool" where
  "batch_ok uuid s \<longleftrightarrow> (case s of (st, mg, b) \<Rightarrow> one_range uuid st \<and> list_all uuid_ok (mg_gtid_executed_set mg) \<and> records_ok b \<and>
     list_all (short_head uuid) (se_rotate_events b))"

lemma allocate_event_live:
  assumes "batch_ok uuid (st, mg, b)" "storable rd e" "ev_filter (event_base e)" "alloc_inv (Suc (Suc n)) st" "config_ok sc uuid mem"
    and "cf_gtid_marking_step_size (sc_gtid sc) \<noteq> 0"
  shows "\<exists>e' s'. allocate_event junk mem sc e (st, mg, b) = Some (e', s') \<and> batch_ok uuid s'"
proof -
  have b: "one_range uuid st" "list_all uuid_ok (mg_gtid_executed_set mg)" "records_ok b" "list_all (short_head uuid) (se_rotate_events b)"
    using assms(1) by (simp_all add: batch_ok_def)
  have seq: "0 < unat (st_txn_gtid_seq st)" using assms(4) by (simp add: alloc_inv_def)
  obtain a st1 mg1 where a: "admit sc e st mg = Some (a, st1, mg1)" "one_range uuid st1"
    "mg_gtid_executed_set mg1 = mg_gtid_executed_set mg"
    using admit_live[OF b(1) seq assms(6,2), of mg] by blast
  have f: "admitted rd crc sc e st a" "place_of st1 = place_of st" "alloc_inv (Suc n) st1" for crc
    using admit_facts[OF a(1) assms(2-4)] by auto
  show ?thesis
  proof (cases a)
    case (Skip e1)
    then show ?thesis using a b by (simp add: allocate_event_def batch_ok_def)
  next
    case (Admit e1 rot)
    let ?h = "item_hdr (stored_item crc_zero e1)"
    let ?st = "st1\<lparr>st_cur_pos := st_cur_pos st + eh_event_length ?h\<rparr>"
    have e1: "storable rd e1" "rot \<Longrightarrow> st_cur_pos st + eh_event_length ?h > sc_max_binlog_size sc"
      using f(1)[of crc_zero] by (auto simp: Admit admitted_def outgrows_def)
    have h: "ev_header (event_base e1) = Some ?h" using storable_header[OF e1(1)] by blast
    obtain b1 where b1: "SerializeEvent_update_index_record (st_index_record st1) b = Some b1" "records_ok b1"
      "length (se_index_records b1) = Suc (se_index_pos b1)" "list_all (short_head uuid) (se_rotate_events b1)"
      using record_live[OF b(3), of "st_index_record st1"] b(4) by (auto simp: records_ok_def)
    have o: "one_range uuid ?st" by (rule one_range_cong[OF _ _ _ _ a(2)]) simp_all
    have i: "alloc_inv (Suc n) ?st" using f(3) by (simp add: alloc_inv_def)
    show ?thesis
    proof (cases rot)
      case False
      then show ?thesis
        using a(1,3) b(2) b1 h o f(2) by (simp add: allocate_event_def batch_ok_def Admit Let_def)
    next
      case True
      obtain st2 b2 where "rotate_binlog_file junk mem sc (st_last_record_ts st1) ?st b1 = Some (st2, b2)" "one_range uuid st2"
        "records_ok (b2\<lparr>se_index_pos := Suc (se_index_pos b2)\<rparr>)" "list_all (short_head uuid) (se_rotate_events b2)"
        using rotate_live[OF o i assms(5) b1(2,3,4)] e1(2)[OF True] by fastforce
      then show ?thesis
        using True a(1,3) b(2) b1(1) h f(2) by (simp add: allocate_event_def batch_ok_def Admit Let_def)
    qed
  qed
qed

lemma allocate_loop_live:
  assumes "cf_gtid_marking_step_size (sc_gtid sc) \<noteq> 0" "config_ok sc uuid mem"
  shows "batch_ok uuid (st, mg, b) \<Longrightarrow> handed_over rd es \<Longrightarrow> alloc_inv (2 * length es + n) st \<Longrightarrow>
    \<exists>es' s'. allocate_loop junk mem sc es (st, mg, b) = Some (es', s') \<and> batch_ok uuid s' \<and> (None \<notin> set es \<longrightarrow> None \<notin> set es')"
proof (induction es arbitrary: st mg b)
  case (Cons o1 es)
  show ?case
  proof (cases o1)
    case None
    have "alloc_inv (2 * length es + n) st" using Cons.prems(3) by (rule alloc_inv_less) simp
    then obtain es' s' where "allocate_loop junk mem sc es (st, mg, b) = Some (es', s')" "batch_ok uuid s'"
      using Cons.IH[OF Cons.prems(1)] Cons.prems(2) by (auto simp: handed_over_def)
    then show ?thesis by (simp add: None)
  next
    case (Some e)
    have s: "storable rd e" "ev_filter (event_base e)" "handed_over rd es" and i: "alloc_inv (Suc (Suc (2 * length es + n))) st"
      using Cons.prems(2,3) Some by (auto simp: handed_over_def)
    obtain e1 st1 mg1 b1 where e1: "allocate_event junk mem sc e (st, mg, b) = Some (e1, st1, mg1, b1)" "batch_ok uuid (st1, mg1, b1)"
      using allocate_event_live[OF Cons.prems(1) s(1,2) i assms(2,1), of junk] by auto
    have "alloc_inv (2 * length es + n) st1"
      using allocate_event_facts[OF e1(1) s(1,2) i assms(2)] by blast
    then obtain es' s' where "allocate_loop junk mem sc es (st1, mg1, b1) = Some (es', s')" "batch_ok uuid s'"
      "None \<notin> set es \<longrightarrow> None \<notin> set es'"
      using Cons.IH[OF e1(2) s(3)] by blast
    then show ?thesis using e1(1) Some by simp
  qed
qed simp


section \<open>Storing\<close>

definition index_ok :: "BinlogIndexManager \<Rightarrow> bool" where
  "index_ok im \<longleftrightarrow> (\<exists>c. im_index_file im = Some c \<and> length c \<noteq> 1)"

lemma seek_back_some: "2 \<le> n \<Longrightarrow> \<exists>p. seek_back s n = Some p"
  by (induction s n rule: seek_back.induct) auto

lemma record_long: "2 \<le> length (BinlogIndexRecord_to_string r)"
  by (simp add: BinlogIndexRecord_to_string_def record_line_def)

lemma update_index_live: "index_ok im \<Longrightarrow> \<exists>im'. update_index r im = Some (True, im') \<and> index_ok im'"
proof -
  assume "index_ok im"
  then obtain c where c: "im_index_file im = Some c" "length c \<noteq> 1" by (auto simp: index_ok_def)
  then obtain p where "seekg_last_line c = Some p"
    using seek_back_some[of "length c" c] by (cases "length c = 0") (auto simp: seekg_last_line_def)
  then show ?thesis using c record_long[of r] by (auto simp: update_index_def index_ok_def)
qed

definition stores :: "BinlogIndexManager \<times> GtidManager \<Rightarrow> bool" where
  "stores s \<longleftrightarrow> index_ok (fst s) \<and> list_all uuid_ok (mg_gtid_executed_set (snd s))"

lemma persistent_live:
  assumes "st_file_name st \<noteq> []" "stores (im, mg)" "config_ok sc uuid um"
  shows "\<exists>r' st' s'. persistent_binlog junk um sc bs r (st, im, mg) = Some (True, r', st', s') \<and> stores s'"
proof -
  let ?im = "append_content (st_file_name st) bs im"
  let ?r = "r\<lparr>ir_position := file_size (st_file_name st) ?im\<rparr>"
  have "index_ok ?im" using assms(2) by (simp add: stores_def index_ok_def append_content_def set_content_def)
  then obtain im' where im': "update_index ?r ?im = Some (True, im')" "index_ok im'" using update_index_live by blast
  let ?mg = "compress_and_save_gtid_seq (sc_gtid sc) (ir_current_mapping r) mg"
  obtain mg' where mg': "update_gtid_executed junk um (sc_gtid sc) (snd (ir_current_mapping r)) ?mg = Some mg'"
    "list_all uuid_ok (mg_gtid_executed_set mg')"
    using executed_some[of ?mg "sc_gtid sc" uuid um junk] assms(2,3) by (auto simp: stores_def config_ok_def)
  show ?thesis
    using assms(1,2) im' mg'
    by (cases "st_valid_events_coming st") (auto simp: persistent_binlog_def update_index_record_def stores_def Let_def)
qed

lemma short_head_fits:
  assumes "short_head uuid r" "rotation_ok sc p index r" "sc_binlog_checksum sc"
  shows "\<exists>bs. init_head crc mem sc r = Some bs"
proof -
  have r: "rotate_wf r" "list_all message_fit (ro_next_previous_gtids r)" using assms(2) by (simp_all add: rotation_ok_def)
  obtain h where h: "ev_header r = Some h" "unat (eh_timestamp h) < 2 ^ 32"
    using r(1) by (auto simp: rotate_wf_def event_ok_def proper_header_def)
  show ?thesis
  proof (cases "ro_next_previous_gtids r = []")
    case True
    then show ?thesis using init_head_empty[OF h] by blast
  next
    case False
    then obtain a b where m: "ro_next_previous_gtids r = [message uuid 1 [(a, b)]]" using assms(1) by (auto simp: short_head_def)
    have "length uuid = 16" using r(2) m by (simp add: message_fit_def message_def)
    then obtain e0 where "PreviousGtidsLogEvent_init (sc_binlog_checksum sc) (sc_server_id sc)
        (of_nat (length (ro_next_previous_gtids r))) (ro_next_previous_gtids r) (eh_timestamp h) = Some e0"
      "unat (eh_event_length (event_hdr e0)) \<le> 831"
      using assms(3)
      by (auto simp: PreviousGtidsLogEvent_init_def m message_def init_simps OblogEventHeader_init_def ObLogEvent.defs
          PreviousGtidsLogEvent.defs COMMON_HEADER_LENGTH_def CRC32_def get_checksum_len_def OFF_def COMMON_CHECKSUM_LENGTH_def
          Let_def uuid_hex_bin_to_str_def peek_def SERVER_UUID_LEN_def omap_emplace_def)
    then show ?thesis using init_head_fits[OF _ r(2) _ _ h] m by (simp add: message_def)
  qed
qed

lemma init_next_live:
  assumes "files_ok rd crc sc (st_file_name st) im p index" "rotation_ok sc q (index + 1) r" "short_head uuid r"
    and "sc_binlog_checksum sc" "stores (im, mg)"
  shows "\<exists>rec' st' s'. init_next_binlog_file crc mem sc r rec (st, im, mg) = Some (True, rec', st', s') \<and> stores s'"
proof -
  obtain bs where bs: "init_head crc mem sc r = Some bs" using short_head_fits[OF assms(3,2,4)] by blast
  have i: "ro_index r - 1 = index" using assms(2) by (simp add: rotation_ok_def)
  obtain cur where cur: "im_binlog_files im (binlog_path (file_name_of sc index)) = Some cur" using assms(1) by (auto simp: files_ok_def)
  have long: "length (c @ BinlogIndexRecord_to_string x) \<noteq> 1" for c x using record_long[of x] by simp
  show ?thesis
    using assms(5) bs cur i long
    by (auto simp: init_next_binlog_file_def clear_flags_def add_next_binlog_index_def append_content_def set_content_def
        add_index_def stores_def index_ok_def Let_def)
qed


lemma store_rotations_live:
  assumes "chained crc sc p index segs es p' index'" "bounded crc sc p segs es" "list_all (goes rd) (concat (map fst segs) @ es)"
    and "files_ok rd crc sc (st_file_name st) im p index" "unat index + length segs < 2 ^ 64"
    and "se_rotate_events b = rs0 @ map snd segs" "se_buffer b = pre @ batch_bytes crc segs es" "stores (im, mg)"
    and fix_b: "length (se_buffer b) < 2 ^ 64" "list_all (short_head uuid) (se_rotate_events b)" "config_ok sc uuid um"
      "length (se_rotate_events b) \<le> length (se_index_records b)"
  shows "\<exists>cur st1 s1. store_rotations junk um crc mem sc b (map of_nat (cuts crc (length pre) segs)) (length pre) (length rs0)
      (st, im, mg) = Some (cur, length rs0 + length segs, st1, s1) \<and> st_file_name st1 \<noteq> [] \<and> stores s1"
  using assms(1-8)
proof (induction segs arbitrary: pre rs0 st im mg p index)
  case Nil
  then show ?case using files_ok_named by auto
next
  case (Cons seg segs)
  obtain s r where seg: "seg = (s, r)" by fastforce
  let ?is = "segment_items crc seg" and ?p = "start_pos sc (ro_next_previous_gtids r)"
  let ?cut = "length pre + length (items_bytes crc ?is)"
  have cs: "sc_binlog_checksum sc" using fix_b(3) by (simp add: config_ok_def)
  have c: "wplaced p (items_of crc s)" "rotation_ok sc (p + sum_list (map item_wlen (items_of crc s))) (index + 1) r"
    "chained crc sc ?p (index + 1) segs es p' index'"
    using Cons.prems(1) by (auto simp: seg)
  have bd: "unat p + items_len ?is < 2 ^ 32" "bounded crc sc ?p segs es" using Cons.prems(2) by (simp_all add: seg)
  have ok: "list_all (item_ok rd) ?is" "list_all (goes rd) (concat (map fst segs) @ es)"
    using Cons.prems(3) rotation_item(1)[OF c(2), of rd crc] items_goes[of rd s crc] by (simp_all add: seg)
  have wp: "wplaced p ?is" using c(1) rotation_item(2)[OF c(2), of crc] by (simp add: seg wplaced_append)
  have buf: "se_buffer b = (pre @ items_bytes crc ?is) @ batch_bytes crc segs es" using Cons.prems(7) by simp
  have lb: "?cut \<le> length (se_buffer b)" by (simp only: buf length_append)
  then have cut: "unat (of_nat ?cut :: u64) = ?cut" using fix_b(1) by (intro unat_of_nat_small) simp
  have "0 < length (items_bytes crc ?is)"
    using items_len_bytes[OF ok(1), of crc] item_long[OF rotation_item(1)[OF c(2), of rd crc]] by (simp only: seg) simp
  then have less: "length pre < ?cut" by simp
  have pk: "peek (?cut - length pre) (se_buffer b) (length pre) = Some (items_bytes crc ?is)"
    using lb by (simp add: peek_def) (simp add: buf)
  have idx: "length rs0 < length (se_index_records b)" "length rs0 < length (se_rotate_events b)" "se_rotate_events b ! length rs0 = r"
    using fix_b(4) Cons.prems(6) by (simp_all add: seg nth_append)
  obtain r1 sta ima mga where pers: "persistent_binlog junk um sc (items_bytes crc ?is) (se_index_records b ! length rs0) (st, im, mg) =
      Some (True, r1, sta, ima, mga)" "stores (ima, mga)"
    using persistent_live[OF files_ok_named[OF Cons.prems(4)] Cons.prems(8) fix_b(3)] by (metis prod.exhaust)
  note pf = persistent_files_ok[OF pers(1) Cons.prems(4) ok(1) wp bd(1)]
  have sh: "short_head uuid r" using fix_b(2) Cons.prems(6) by (simp add: seg)
  obtain r2 stb imb mgb where nxt: "init_next_binlog_file crc mem sc r r1 (sta, ima, mga) = Some (True, r2, stb, imb, mgb)"
    "stores (imb, mgb)"
    using init_next_live[OF pf(2) c(2) sh cs pers(2)] by (metis prod.exhaust)
  have rot: "unat index + 1 < 2 ^ 64" using Cons.prems(5) by simp
  note nf = init_next_facts[OF nxt(1) pf(2) c(2) cs rot]
  have i: "unat (index + 1) = unat index + 1" using rot by (intro unat_add_small[THEN trans]) simp_all
  have ih: "\<exists>cur st1 s1. store_rotations junk um crc mem sc b (map of_nat (cuts crc (length (pre @ items_bytes crc ?is)) segs))
      (length (pre @ items_bytes crc ?is)) (length (rs0 @ [r])) (stb, imb, mgb) =
      Some (cur, length (rs0 @ [r]) + length segs, st1, s1) \<and> st_file_name st1 \<noteq> [] \<and> stores s1"
    using Cons.prems(5,6) by (intro Cons.IH[OF c(3) bd(2) ok(2) nf(2)] buf nxt(2)) (simp_all add: i seg)
  have "store_rotations junk um crc mem sc b (map of_nat (cuts crc (length pre) (seg # segs))) (length pre) (length rs0) (st, im, mg) =
      store_rotations junk um crc mem sc b (map of_nat (cuts crc (length (pre @ items_bytes crc ?is)) segs))
        (length (pre @ items_bytes crc ?is)) (length (rs0 @ [r])) (stb, imb, mgb)"
    unfolding cuts.simps list.map store_rotations.simps cut pk idx(3) using less idx(1,2) pers(1) nxt(1) by simp
  then show ?case using ih by simp
qed


section \<open>Batches\<close>

lemma serialize_all:
  "None \<notin> set es \<Longrightarrow> serialize_loop crc mem rot rs (map Some (kept es)) index offs buf = Some res \<Longrightarrow>
   serialize_loop crc mem rot rs es index offs buf = Some res"
  by (induction crc mem rot rs es index offs buf rule: serialize_loop.induct)
     (auto simp: bind_eq_Some_conv Let_def split: if_splits)

lemma store_batch_live:
  assumes "se_is_rotation b = (segs \<noteq> [])" "se_rotate_offsets b = map of_nat (cuts crc 0 segs)"
    and "se_rotate_events b = map snd segs" "se_buffer b = batch_bytes crc segs es" "length (se_buffer b) < 2 ^ 64"
    and "chained crc sc p index segs es p' index'" "bounded crc sc p segs es" "list_all (goes rd) (concat (map fst segs) @ es)"
    and "files_ok rd crc sc (st_file_name st) im p index" "unat index + length segs < 2 ^ 64" "stores (im, mg)"
    and "list_all (short_head uuid) (se_rotate_events b)" "config_ok sc uuid um" "length (se_index_records b) = Suc (length segs)"
  shows "\<exists>b' st' s'. store_batch junk um crc mem sc b (st, im, mg) = Some (b', st', s') \<and> stores s'"
proof -
  obtain cur st1 s1 where s: "store_rotations junk um crc mem sc b (map of_nat (cuts crc 0 segs)) 0 0 (st, im, mg) =
      Some (cur, length segs, st1, s1)" "st_file_name st1 \<noteq> []" "stores s1"
    using store_rotations_live[OF assms(6-10) _ _ assms(11,5,12,13), where pre = "[]" and ?rs0.0 = "[]" and junk = junk and mem = mem]
      assms(3,4,14) by auto
  obtain im1 mg1 where s1: "s1 = (im1, mg1)" by fastforce
  obtain r' st2 s2 where p: "persistent_binlog junk um sc (drop cur (se_buffer b)) (se_index_records b ! length segs) (st1, im1, mg1) =
      Some (True, r', st2, s2)" "stores s2"
    using persistent_live[OF s(2) s(3)[unfolded s1] assms(13)] by blast
  have rest: "store_rest junk um sc b cur (length segs) (st1, im1, mg1) = Some (st2, s2)"
    using p(1) assms(14) by (simp add: store_rest_def)
  show ?thesis
  proof (cases "segs = []")
    case True
    then show ?thesis using rest p(2) s(1) assms(1) s1 by (auto simp: store_batch_def)
  next
    case False
    then show ?thesis using rest p(2) s(1,3) assms(1,2) s1 by (cases s2) (auto simp: store_batch_def)
  qed
qed

lemma chained_rotation_ok:
  "chained crc sc p index segs es p' index' \<Longrightarrow> seg \<in> set segs \<Longrightarrow> \<exists>q i. rotation_ok sc q i (snd seg)"
proof (induction crc sc p index segs es p' index' rule: chained.induct)
  case (2 crc sc p index s r segs es p' index')
  then show ?case by (cases "seg = (s, r)") auto
qed simp

lemma batch_live:
  assumes es: "handed_over rd es" "None \<notin> set es" and inv: "alloc_inv (2 * length es + n) st" and cfg: "config_ok sc uuid um"
    and files: "files_ok rd crc sc (st_file_name st) im (st_cur_pos st) (st_binlog_file_index st)"
    and room: "max 1024 (unat (st_cur_pos st)) + total_len crc es + 300 * length es < 2 ^ 32"
      "unat (st_binlog_file_index st) + length es < 2 ^ 64"
    and live: "one_range uuid st" "stores (im, mg)" "cf_gtid_marking_step_size (sc_gtid sc) \<noteq> 0"
  shows "\<exists>st' im' mg'. process_batch junk um crc mem sc es (st, im, mg) = Some (st', im', mg') \<and> one_range uuid st' \<and> stores (im', mg')"
proof -
  have "batch_ok uuid (st, mg, fresh_batch es)" using live by (simp add: batch_ok_def fresh_batch_def records_ok_def stores_def)
  then obtain es1 st1 mg1 b1 where a: "allocate_loop junk um sc es (st, mg, fresh_batch es) = Some (es1, st1, mg1, b1)"
    "batch_ok uuid (st1, mg1, b1)" "None \<notin> set es1"
    using allocate_loop_live[OF live(3) cfg _ es(1) inv, of mg "fresh_batch es" junk] es(2) by auto
  have ok: "one_range uuid st1" "list_all uuid_ok (mg_gtid_executed_set mg1)" "records_ok b1" "list_all (short_head uuid) (se_rotate_events b1)"
    using a(2) by (simp_all add: batch_ok_def)
  obtain b2 where b2: "SerializeEvent_update_index_record (st_index_record st1) b1 = Some b2"
    "length (se_index_records b2) = Suc (length (se_rotate_events b2))" "se_rotate_events b2 = se_rotate_events b1"
    using record_live[OF ok(3), of "st_index_record st1"] by auto
  have cs: "sc_binlog_checksum sc" using cfg by (simp add: config_ok_def)
  have heads: "\<forall>ro\<in>set (se_rotate_events b2). init_head crc mem sc ro \<noteq> None"
  proof
    fix ro
    assume ro: "ro \<in> set (se_rotate_events b2)"
    obtain segs last where f: "batch_view b1 = ([], map snd segs, segs \<noteq> [])"
      "chained crc sc (st_cur_pos st) (st_binlog_file_index st) segs last (st_cur_pos st1) (st_binlog_file_index st1)"
      using allocate_loop_facts[OF a(1) es(1) inv cfg, of crc] by (auto simp: fresh_batch_def)
    obtain seg where "seg \<in> set segs" "snd seg = ro" using ro b2(3) f(1) by auto
    then obtain q i where "rotation_ok sc q i ro" using chained_rotation_ok[OF f(2), of seg] by blast
    then show "init_head crc mem sc ro \<noteq> None"
      using short_head_fits[of uuid ro sc q i crc mem] ro b2(3) ok(4) cs by (auto simp: list_all_iff)
  qed
  obtain segs last where p: "list_all (goes rd) (concat (map fst segs) @ last)" "batch_view b2 = ([], map snd segs, segs \<noteq> [])"
    "chained crc sc (st_cur_pos st) (st_binlog_file_index st) segs last (st_cur_pos st1) (st_binlog_file_index st1)"
    "bounded crc sc (st_cur_pos st) segs last" "length segs \<le> length es" "alloc_inv n st1" "st_file_name st1 = st_file_name st"
    "length (batch_bytes crc segs last) < 2 ^ 64" "all_offsets (map snd segs) = Some (map (\<lambda>seg. rotation_start (snd seg)) segs)"
    "serialize_loop crc mem (segs \<noteq> []) (map snd segs) (map Some (kept es1)) 0 (map (\<lambda>seg. rotation_start (snd seg)) segs) [] =
      Some (map of_nat (cuts crc 0 segs), batch_bytes crc segs last)"
    by (rule batch_plan[OF a(1) b2(1) es(1) inv cfg room(1) heads])
  let ?b = "b2\<lparr>se_events := es1, se_rotate_offsets := map of_nat (cuts crc 0 segs), se_buffer := batch_bytes crc segs last\<rparr>"
  have ser: "serialize_batch crc mem (b2\<lparr>se_events := es1\<rparr>) = Some ?b"
    using serialize_all[OF a(3) p(10)] p(2,9) by (simp add: serialize_batch_def)
  have "\<exists>b' st' s'. store_batch junk um crc mem sc ?b (st1, im, mg1) = Some (b', st', s') \<and> stores s'"
    using p live(2) ok b2(2,3) cfg room(2) files
    by (intro store_batch_live[where segs = segs and es = last and rd = rd and uuid = uuid and p = "st_cur_pos st" and
          index = "st_binlog_file_index st" and p' = "st_cur_pos st1" and index' = "st_binlog_file_index st1"]) (simp_all add: stores_def)
  then obtain b' st' im' mg' where st: "store_batch junk um crc mem sc ?b (st1, im, mg1) = Some (b', st', im', mg')" "stores (im', mg')"
    by auto
  have run: "process_batch junk um crc mem sc es (st, im, mg) = Some (st', im', mg')"
    using a(1) b2(1) ser st(1) by (simp add: process_batch_def global_allocation_of_backfill_events_def fresh_batch_def)
  have e: "elsewhere st' = elsewhere st1"
    by (rule store_segments_rest(2)[OF st(1), of segs last "st_cur_pos st" "st_binlog_file_index st" "st_cur_pos st1"
          "st_binlog_file_index st1" rd]) (use p files cs room(2) in simp_all)
  have "one_range uuid st'"
    by (rule one_range_cong[OF _ _ _ _ ok(1)])
      (use arg_cong[OF e, of st_filter_checkpoint_trx] arg_cong[OF e, of st_previous_gtid_messages]
        arg_cong[OF e, of st_first_gtid_seq] arg_cong[OF e, of st_txn_gtid_seq] in simp_all)
  then show ?thesis using run st(2) by blast
qed


lemma no_null: "serialize_loop crc mem rot rs es index offs buf = Some res \<Longrightarrow> None \<notin> set es"
proof (induction es arbitrary: index offs buf)
  case (Cons o1 es)
  then obtain e where e: "o1 = Some e" by (cases o1) simp_all
  then have "\<exists>index offs buf. serialize_loop crc mem rot rs es index offs buf = Some res"
    using Cons.prems by (auto simp: bind_eq_Some_conv Let_def split: if_splits) blast
  then show ?case using Cons.IH e by auto
qed simp

lemma allocate_null: "allocate_loop junk mem sc es (st, mg, b) = Some (es', s') \<Longrightarrow> None \<in> set es \<Longrightarrow> None \<in> set es'"
proof (induction es arbitrary: st mg b es' s')
  case (Cons e es)
  then show ?case by (cases e) (auto simp: bind_eq_Some_conv)
qed simp

lemma process_no_null: "process_batch junk um crc mem sc es s = Some s' \<Longrightarrow> None \<notin> set es"
  using no_null allocate_null
  by (fastforce simp: process_batch_def global_allocation_of_backfill_events_def serialize_batch_def bind_eq_Some_conv fresh_batch_def
      split: prod.splits)

lemma storing_live:
  assumes "config_ok sc uuid um" "cf_gtid_marking_step_size (sc_gtid sc) \<noteq> 0"
  shows "storing junk um crc mem rd sc n s \<Longrightarrow> one_range uuid (fst s) \<and> stores (snd s)"
proof (induction rule: storing.induct)
  case (first im0 sv ts n mg0 s0 s)
  obtain st im mg where s0: "s0 = (st, im, mg)" by (cases s0) auto
  have "one_range uuid st \<and> stores (im, mg)"
  proof (rule first_start_rotation[OF first(5)[unfolded s0] first(1-3)])
    fix im1 flag
    assume a: "start_rotation junk um crc mem sv sc (first_index_record sv sc ts) INIT False flag
      (first_start sv sc (BinlogStorage_init ts\<lparr>st_file_name := ir_file_name (first_index_record sv sc ts)\<rparr>), im1, mg0) =
      Some (True, st, im, mg)" "im_binlog_files im1 = Map.empty" "ir_index (first_index_record sv sc ts) = 1"
      "represents im1 [first_index_record sv sc ts]"
    note f = first_rotation[OF a(1) refl first(3) assms(1) a(2,3)]
    have "unat (st_txn_gtid_seq st) \<le> unat (st_txn_gtid_seq st - 1) + 1"
      using f(2) by (simp add: alloc_inv_def unat_sub word_le_nat_alt)
    then have "one_range uuid st" using f(3-5) by (auto simp: one_range_def)
    moreover have "stores (im, mg)"
      using a(4) f(6,7) first(4) record_long[of "first_index_record sv sc ts"] by (simp add: represents_def stores_def index_ok_def)
    ultimately show ?thesis ..
  qed
  then show ?case using first(6) by (auto simp: s0 run_begin_def bind_eq_Some_conv one_range_def)
next
  case (batch es n st im mg s)
  have i: "files_ok rd crc sc (st_file_name st) im (st_cur_pos st) (st_binlog_file_index st)" "alloc_inv (2 * length es + n) st"
    using storing_inv[OF batch(1) assms(1)] by simp_all
  have "one_range uuid st" "stores (im, mg)" using batch(6) by simp_all
  from batch_live[OF batch(2) process_no_null[OF batch(5)] i(2) assms(1) i(1) batch(3,4) this assms(2), of junk mem] batch(5)
  show ?case by auto
qed

section \<open>Properties\<close>

text \<open>C1. Whatever batches a storage has taken since it was started on an empty directory, every binlog file it has
  written reads back as a head followed by complete events, each event with its own length and the position where it ends, and the
  position for the next event is the length of the current file.\<close>

theorem stored_files_readable:
  assumes "storing junk um crc mem rd sc n (st, im, mg)" "config_ok sc uuid um"
  shows "(\<forall>name bs. im_binlog_files im name = Some bs \<longrightarrow> fine_file rd crc bs) \<and>
    st_file_name st = binlog_path (file_name_of sc (st_binlog_file_index st)) \<and>
    (\<exists>bs. im_binlog_files im (st_file_name st) = Some bs \<and> length bs = unat (st_cur_pos st))"
  using storing_inv[OF assms] by (auto simp: files_ok_def)

text \<open>C2. A storage that was started on an empty directory takes every batch of storable events: the three handlers
  run to the end, with any number of rotations, without an assertion that fails, a block that overflows or an exception.\<close>

theorem batch_is_stored:
  assumes "storing junk um crc mem rd sc (2 * length es + n) (st, im, mg)" "config_ok sc uuid um"
    and "cf_gtid_marking_step_size (sc_gtid sc) \<noteq> 0" "handed_over rd es" "None \<notin> set es"
    and "max 1024 (unat (st_cur_pos st)) + total_len crc es + 300 * length es < 2 ^ 32"
    and "unat (st_binlog_file_index st) + length es < 2 ^ 64"
  shows "\<exists>s. process_batch junk um crc mem sc es (st, im, mg) = Some s \<and> storing junk um crc mem rd sc n s"
proof -
  have i: "files_ok rd crc sc (st_file_name st) im (st_cur_pos st) (st_binlog_file_index st)" "alloc_inv (2 * length es + n) st"
    using storing_inv[OF assms(1,2)] by simp_all
  have "one_range uuid st" "stores (im, mg)" using storing_live[OF assms(2,3,1)] by simp_all
  from batch_live[OF assms(4,5) i(2) assms(2) i(1) assms(6,7) this assms(3), of junk mem]
  obtain s where "process_batch junk um crc mem sc es (st, im, mg) = Some s" by blast
  then show ?thesis using storing.batch[OF assms(1,4,6,7)] by blast
qed


abbreviation small_state :: "byte list \<Rightarrow> storage_state" where
  "small_state bs \<equiv> (small_storing\<lparr>st_index_record := small_record\<rparr>,
     set_content (ir_file_name small_record) bs (snd (add_index small_record small_index)), init_start_timestamp 9 new_manager)"

lemma small_run: "\<exists>bs. storing 0 (replicate 16 0) crc_zero [] small_reader small_storage 1000 (small_state bs)"
proof -
  obtain bs where b: "BinlogStorage_start 0 (replicate 16 0) crc_zero [] small_env small_storage
      (BinlogStorage_init 0, small_index, new_manager) =
    Finished (True, small_storing, set_content (ir_file_name small_record) bs (snd (add_index small_record small_index)),
      init_start_timestamp 9 new_manager)"
    using small_started by blast
  let ?im = "set_content (ir_file_name small_record) bs (snd (add_index small_record small_index))"
  have "record_ok small_record" using small_first(1) by (simp add: first_ok_def)
  then have "represents ?im ([] @ [small_record])" by (simp add: represents_def add_index_def small_index_def set_content_def)
  from latest_represented[OF this, of "sv_fresh small_env" "st_index_record small_storing"]
  have r: "run_begin small_env (small_storing, ?im, init_start_timestamp 9 new_manager) = Some (True, small_state bs)"
    by (simp add: run_begin_def first_index_record_def binlog_path_def Let_def)
  have "im_index_file small_index = None" "im_binlog_files small_index = Map.empty" "list_all uuid_ok (mg_gtid_executed_set new_manager)"
    by (simp_all add: small_index_def new_manager_def)
  from storing.first[OF this(1,2) small_first(1) this(3) b r] show ?thesis by blast
qed

theorem stored_files_readable_witness:
  "\<exists>bs. storing 0 (replicate 16 0) crc_zero [] small_reader small_storage 1000 (small_state bs) \<and>
     fine_file small_reader crc_zero bs \<and> length bs = 155"
proof -
  obtain bs where s: "storing 0 (replicate 16 0) crc_zero [] small_reader small_storage 1000 (small_state bs)" using small_run by blast
  have "fine_file small_reader crc_zero bs" "length bs = 155"
    using stored_files_readable [OF s small_first(2)] by (auto simp: set_content_def small_storing_def split: if_splits)
  then show ?thesis using s by blast
qed

lemma small_batch_ok: "handed_over small_reader small_batch" "None \<notin> set small_batch" "length small_batch = 2" "total_len crc_zero small_batch = 96"
  using small_gtid_ok small_xid_ok
  by (simp_all add: handed_over_def small_batch_def total_len_def small_defs del: item_ok.simps)

theorem batch_is_stored_witness:
  "\<exists>bs s. storing 0 (replicate 16 0) crc_zero [] small_reader small_storage 1000 (small_state bs) \<and>
     process_batch 0 (replicate 16 0) crc_zero [] small_storage small_batch (small_state bs) = Some s \<and>
     storing 0 (replicate 16 0) crc_zero [] small_reader small_storage 996 s"
proof -
  obtain bs where s: "storing 0 (replicate 16 0) crc_zero [] small_reader small_storage 1000 (small_state bs)" using small_run by blast
  then have "storing 0 (replicate 16 0) crc_zero [] small_reader small_storage (2 * length small_batch + 996) (small_state bs)"
    by (simp add: small_batch_ok)
  from batch_is_stored [OF this small_first(2) _ small_batch_ok(1,2)] s show ?thesis
    by (auto simp: small_storage_def some_config_def small_storing_def small_batch_ok)
qed

end
