(* ===== verification/RingBuffer.thy ===== *)
theory RingBuffer
  imports Prelude
begin

text \<open>
  The ring buffer that carries batches from one thread to the next: \<^verbatim>\<open>MultiProducerSequencer\<close>,
  \<^verbatim>\<open>ProcessingSequenceBarrier\<close> with \<^verbatim>\<open>BlockingWaitStrategy\<close>, \<^verbatim>\<open>BatchEventProcessor\<close>, \<^verbatim>\<open>WorkProcessor\<close> and their wiring in
  \<^verbatim>\<open>disruptor\<close>, all in \<^verbatim>\<open>src/disruptor/\<close>.  A thread is the place in its function together with its local
  variables; one step of a thread is one access to a variable that other threads use, so that every interleaving of
  such accesses is a run.  Accesses are sequentially consistent.  The condition variable of the wait strategy
  only delays a thread, and the alerts, which end the threads, are left out.

  Sequences are \<^verbatim>\<open>std::int64_t\<close> in the code and integers here: they count events from \<^verbatim>\<open>-1\<close>, and a run that does not
  pass \<^verbatim>\<open>2 ^ 63\<close> events computes the same numbers.  The narrowing to 32 bits in the index and in the flag of a slot is
  written out.
\<close>

section \<open>Util\<close>

definition wrap32 :: "int \<Rightarrow> int" where
  "wrap32 x = signed_take_bit 31 x"

definition isPowerOf2 :: "int \<Rightarrow> bool" where
  "isPowerOf2 x \<longleftrightarrow> x > 0 \<and> x AND (x - 1) = 0"

text \<open>\<^verbatim>\<open>log2\<close> of a positive number; \<^verbatim>\<open>i\<close> is the number before the shift.\<close>

fun log2_loop :: "nat \<Rightarrow> nat \<Rightarrow> nat" where
  "log2_loop i r = (if i div 2 \<noteq> 0 then log2_loop (i div 2) (r + 1) else r)"

definition log2 :: "int \<Rightarrow> nat" where
  "log2 i = log2_loop (nat i) 0"

text \<open>\<^verbatim>\<open>None\<close> is a loop that does not end.\<close>

partial_function (option) ceiling_loop :: "int \<Rightarrow> int \<Rightarrow> int option" where
  "ceiling_loop x r = (if r < x then ceiling_loop x (wrap32 (2 * r)) else Some r)"

definition ceilingNextPowerOfTwo :: "int \<Rightarrow> int option" where
  "ceilingNextPowerOfTwo x = ceiling_loop x 2"

fun getMinimumSequence :: "int list \<Rightarrow> int \<Rightarrow> int" where
  "getMinimumSequence [] m = m"
| "getMinimumSequence (s # ss) m = getMinimumSequence ss (if s < m then s else m)"

section \<open>The sequencer\<close>

record sequencer =
  m_bufferSize :: int
  m_cursor :: int
  m_gatingSequenceCache :: int
  m_availableBuffer :: "int list"
  m_indexMask :: int
  m_indexShift :: nat

text \<open>The constructors of \<^verbatim>\<open>Sequencer\<close> and \<^verbatim>\<open>MultiProducerSequencer\<close>; \<^verbatim>\<open>None\<close> is the exception.\<close>

definition MultiProducerSequencer :: "int \<Rightarrow> sequencer option" where
  "MultiProducerSequencer bufferSize =
     (if bufferSize < 1 \<or> \<not> isPowerOf2 bufferSize then None
      else Some \<lparr>m_bufferSize = bufferSize, m_cursor = -1, m_gatingSequenceCache = -1,
                 m_availableBuffer = replicate (nat bufferSize) (-1),
                 m_indexMask = bufferSize - 1, m_indexShift = log2 bufferSize\<rparr>)"

definition calculateIndex :: "sequencer \<Rightarrow> int \<Rightarrow> int" where
  "calculateIndex q s = wrap32 s AND m_indexMask q"

definition calculateAvailabilityFlag :: "sequencer \<Rightarrow> int \<Rightarrow> int" where
  "calculateAvailabilityFlag q s = wrap32 (drop_bit (m_indexShift q) (take_bit 64 s))"

definition setAvailable :: "int \<Rightarrow> sequencer \<Rightarrow> sequencer" where
  "setAvailable s q = q\<lparr>m_availableBuffer :=
     (m_availableBuffer q)[nat (calculateIndex q s) := calculateAvailabilityFlag q s]\<rparr>"

definition isAvailable :: "sequencer \<Rightarrow> int \<Rightarrow> bool" where
  "isAvailable q s \<longleftrightarrow> m_availableBuffer q ! nat (calculateIndex q s) = calculateAvailabilityFlag q s"

text \<open>The guard of \<^verbatim>\<open>next\<close> and of \<^verbatim>\<open>hasAvailableCapacity\<close>: the cached minimum does not allow the claim.\<close>

definition cache_refuses :: "sequencer \<Rightarrow> int \<Rightarrow> int \<Rightarrow> int \<Rightarrow> bool" where
  "cache_refuses q n current cached \<longleftrightarrow> current + n - m_bufferSize q > cached \<or> cached > current"

definition hasAvailableCapacity :: "int list \<Rightarrow> int \<Rightarrow> int \<Rightarrow> sequencer \<Rightarrow> bool \<times> sequencer" where
  "hasAvailableCapacity gating required cursorValue q =
     (if cache_refuses q required cursorValue (m_gatingSequenceCache q)
      then let minSequence = getMinimumSequence gating cursorValue in
        (\<not> cursorValue + required - m_bufferSize q > minSequence, q\<lparr>m_gatingSequenceCache := minSequence\<rparr>)
      else (True, q))"

text \<open>\<^verbatim>\<open>tryNext\<close> of a thread that runs alone: the compare-and-set succeeds at once.  \<^verbatim>\<open>None\<close> is an exception.\<close>

definition tryNext :: "int list \<Rightarrow> int \<Rightarrow> sequencer \<Rightarrow> int option \<times> sequencer" where
  "tryNext gating n q =
     (if n < 1 then (None, q)
      else let current = m_cursor q in
        case hasAvailableCapacity gating n current q of
          (True, q) \<Rightarrow> (Some (current + n), q\<lparr>m_cursor := current + n\<rparr>)
        | (False, q) \<Rightarrow> (None, q))"

definition getRemainingCapacity :: "int list \<Rightarrow> sequencer \<Rightarrow> int" where
  "getRemainingCapacity gating q = m_bufferSize q - (m_cursor q - getMinimumSequence gating (m_cursor q))"

section \<open>The threads\<close>

text \<open>
  A producer calls \<^verbatim>\<open>next()\<close>, stores its event in the slot and calls \<^verbatim>\<open>publish\<close>, as \<^verbatim>\<open>Convert\<close>, \<^verbatim>\<open>SerializeHandler\<close> and the
  storage do.  The constructors are the places of \<^verbatim>\<open>next(1)\<close>: at the head of its loop, behind the load of the cursor,
  inside \<^verbatim>\<open>getMinimumSequence\<close> (\<^verbatim>\<open>i\<close> sequences are read), before the store to the cache, before the compare-and-set,
  and then before the store to the slot and before \<^verbatim>\<open>setAvailable\<close>.
\<close>

datatype 'e producer =
    Idle
  | Entering 'e
  | Loaded 'e int
  | Scanning 'e int nat int
  | Caching 'e int int
  | Swapping 'e int
  | Claimed 'e int
  | Filled int

fun producer_step :: "int list \<Rightarrow> sequencer \<Rightarrow> 'e list \<Rightarrow> 'e producer \<Rightarrow> sequencer \<times> 'e list \<times> 'e producer" where
  "producer_step gating q es Idle = (q, es, Idle)"
| "producer_step gating q es (Entering e) = (q, es, Loaded e (m_cursor q))"
| "producer_step gating q es (Loaded e current) =
     (if cache_refuses q 1 current (m_gatingSequenceCache q) then (q, es, Scanning e current 0 current)
      else (q, es, Swapping e current))"
| "producer_step gating q es (Scanning e current i m) =
     (if i < length gating then (q, es, Scanning e current (i + 1) (if gating ! i < m then gating ! i else m))
      else if current + 1 - m_bufferSize q > m then (q, es, Entering e)
      else (q, es, Caching e current m))"
| "producer_step gating q es (Caching e current m) = (q\<lparr>m_gatingSequenceCache := m\<rparr>, es, Entering e)"
| "producer_step gating q es (Swapping e current) =
     (if m_cursor q = current then (q\<lparr>m_cursor := current + 1\<rparr>, es, Claimed e (current + 1))
      else (q, es, Entering e))"
| "producer_step gating q es (Claimed e s) = (q, es[nat (calculateIndex q s) := e], Filled s)"
| "producer_step gating q es (Filled s) = (setAvailable s q, es, Idle)"

text \<open>
  \<^verbatim>\<open>ProcessingSequenceBarrier::waitFor\<close>: wait for the cursor, wait for the minimum of the sequences the barrier
  depends on, then \<^verbatim>\<open>getHighestPublishedSequence\<close> from the sequence waited for.  The step gives the next place or the
  value returned.
\<close>

datatype waiting = Gate | Minimum nat int | Highest int int

definition int64_max :: int where
  "int64_max = 2 ^ 63 - 1"

fun waitFor :: "sequencer \<Rightarrow> int list \<Rightarrow> int \<Rightarrow> waiting \<Rightarrow> waiting + int" where
  "waitFor q deps s Gate = Inl (if m_cursor q < s then Gate else Minimum 0 int64_max)"
| "waitFor q deps s (Minimum i m) =
     (if i < length deps then Inl (Minimum (i + 1) (if deps ! i < m then deps ! i else m))
      else if m < s then Inl (Minimum 0 int64_max) else Inl (Highest s m))"
| "waitFor q deps s (Highest k available) =
     (if k \<le> available then if isAvailable q k then Inl (Highest (k + 1) available) else Inr (k - 1)
      else Inr available)"

text \<open>
  \<^verbatim>\<open>BatchEventProcessor::run\<close>: before its first statement, waiting, at the head of the inner loop, and inside \<^verbatim>\<open>onEvent\<close>
  with the event it works on.  The thread sets \<^verbatim>\<open>m_running\<close> itself, some time after \<^verbatim>\<open>start\<close> has handed it to the executor.
  The handler has a state of its own and may throw; the exception handler then lets the thread go on behind the event.
\<close>

datatype 'e batch_place = Batch_run | Batch_wait waiting | Batch_loop int | Batch_event int 'e

record ('e, 'h) batch_processor =
  bp_sequence :: int
  bp_running :: bool
  bp_next :: int
  bp_handler :: 'h
  bp_place :: "'e batch_place"

type_synonym ('e, 'h) event_handler = "'h \<Rightarrow> int \<Rightarrow> 'e \<Rightarrow> 'e \<times> 'h \<times> bool"

fun batch_at :: "('e, 'h) event_handler \<Rightarrow> sequencer \<Rightarrow> int list \<Rightarrow> 'e list \<Rightarrow> ('e, 'h) batch_processor \<Rightarrow>
    'e batch_place \<Rightarrow> 'e list \<times> ('e, 'h) batch_processor" where
  "batch_at f q deps es b Batch_run =
     (es, b\<lparr>bp_running := True, bp_next := bp_sequence b + 1, bp_place := Batch_wait Gate\<rparr>)"
| "batch_at f q deps es b (Batch_wait w) =
     (case waitFor q deps (bp_next b) w of
        Inl w' \<Rightarrow> (es, b\<lparr>bp_place := Batch_wait w'\<rparr>)
      | Inr available \<Rightarrow> (es, b\<lparr>bp_place := Batch_loop available\<rparr>))"
| "batch_at f q deps es b (Batch_loop available) =
     (if bp_next b \<le> available
      then (es, b\<lparr>bp_place := Batch_event available (es ! nat (calculateIndex q (bp_next b)))\<rparr>)
      else (es, b\<lparr>bp_sequence := available, bp_place := Batch_wait Gate\<rparr>))"
| "batch_at f q deps es b (Batch_event available e) =
     (case f (bp_handler b) (bp_next b) e of (e', h, threw) \<Rightarrow>
       (es[nat (calculateIndex q (bp_next b)) := e'],
        if threw then b\<lparr>bp_sequence := bp_next b, bp_next := bp_next b + 1, bp_handler := h, bp_place := Batch_wait Gate\<rparr>
        else b\<lparr>bp_next := bp_next b + 1, bp_handler := h, bp_place := Batch_loop available\<rparr>))"

definition batch_step :: "('e, 'h) event_handler \<Rightarrow> sequencer \<Rightarrow> int list \<Rightarrow> 'e list \<Rightarrow> ('e, 'h) batch_processor \<Rightarrow>
    'e list \<times> ('e, 'h) batch_processor" where
  "batch_step f q deps es b = batch_at f q deps es b (bp_place b)"

text \<open>
  \<^verbatim>\<open>WorkProcessor::run\<close>: the three accesses of the loop that claims a sequence of the pool, the comparison with the
  cached sequence, the wait, and the work.  A worker ends its event the same way whether the handler throws or not.
\<close>

datatype 'e work_place = Work_load | Work_set | Work_swap | Work_check | Work_wait waiting | Work_event 'e

record 'e work_processor =
  wp_sequence :: int
  wp_next :: int
  wp_cached :: int
  wp_place :: "'e work_place"

type_synonym 'e work_handler = "int \<Rightarrow> 'e \<Rightarrow> 'e"

fun work_at :: "'e work_handler \<Rightarrow> sequencer \<Rightarrow> int list \<Rightarrow> 'e list \<Rightarrow> int \<Rightarrow> 'e work_processor \<Rightarrow>
    'e work_place \<Rightarrow> 'e list \<times> int \<times> 'e work_processor" where
  "work_at f q deps es ws w Work_load = (es, ws, w\<lparr>wp_next := ws + 1, wp_place := Work_set\<rparr>)"
| "work_at f q deps es ws w Work_set = (es, ws, w\<lparr>wp_sequence := wp_next w - 1, wp_place := Work_swap\<rparr>)"
| "work_at f q deps es ws w Work_swap =
     (if ws = wp_next w - 1 then (es, wp_next w, w\<lparr>wp_place := Work_check\<rparr>)
      else (es, ws, w\<lparr>wp_place := Work_load\<rparr>))"
| "work_at f q deps es ws w Work_check =
     (if wp_cached w \<ge> wp_next w
      then (es, ws, w\<lparr>wp_place := Work_event (es ! nat (calculateIndex q (wp_next w)))\<rparr>)
      else (es, ws, w\<lparr>wp_place := Work_wait Gate\<rparr>))"
| "work_at f q deps es ws w (Work_wait v) =
     (case waitFor q deps (wp_next w) v of
        Inl v' \<Rightarrow> (es, ws, w\<lparr>wp_place := Work_wait v'\<rparr>)
      | Inr available \<Rightarrow> (es, ws, w\<lparr>wp_cached := available, wp_place := Work_check\<rparr>))"
| "work_at f q deps es ws w (Work_event e) =
     (es[nat (calculateIndex q (wp_next w)) := f (wp_next w) e], ws, w\<lparr>wp_place := Work_load\<rparr>)"

definition work_step :: "'e work_handler \<Rightarrow> sequencer \<Rightarrow> int list \<Rightarrow> 'e list \<Rightarrow> int \<Rightarrow> 'e work_processor \<Rightarrow>
    'e list \<times> int \<times> 'e work_processor" where
  "work_step f q deps es ws w = work_at f q deps es ws w (wp_place w)"

section \<open>The wiring\<close>

text \<open>
  A disruptor is a chain of groups: one event handler, or a pool of workers that share a work sequence.
  Each group waits for the sequences of the one before it, the first one for the cursor, as \<^verbatim>\<open>handleEventsWith\<close>,
  \<^verbatim>\<open>thenHandleEventsWithWorkerPool\<close> and \<^verbatim>\<open>then\<close> set it up.
\<close>

datatype ('e, 'h) stage = Batch "('e, 'h) batch_processor" | Pool int "'e work_processor list"

fun stage_sequences :: "('e, 'h) stage \<Rightarrow> int list" where
  "stage_sequences (Batch b) = [bp_sequence b]"
| "stage_sequences (Pool ws xs) = map wp_sequence xs @ [ws]"

text \<open>A worker pool is running from \<^verbatim>\<open>start\<close> on, an event processor from the first statement of its thread on.\<close>

fun isRunning :: "('e, 'h) stage \<Rightarrow> bool" where
  "isRunning (Batch b) = bp_running b"
| "isRunning (Pool ws xs) = True"

text \<open>
  The sequences of the ends of the chain, of all of them or of those that are running: \<^verbatim>\<open>createEventProcessors\<close> unmarks
  the group before it as an end of the chain, \<^verbatim>\<open>createWorkerPool\<close> does not.  The ring buffer is gated by all of them.
\<close>

definition consumer_sequences :: "bool \<Rightarrow> ('e, 'h) stage \<Rightarrow> int list" where
  "consumer_sequences includeStopped st = (if includeStopped \<or> isRunning st then stage_sequences st else [])"

fun getLastSequenceInChain :: "bool \<Rightarrow> ('e, 'h) stage list \<Rightarrow> int list" where
  "getLastSequenceInChain includeStopped [] = []"
| "getLastSequenceInChain includeStopped [st] = consumer_sequences includeStopped st"
| "getLastSequenceInChain includeStopped (st # Batch b # sts) = getLastSequenceInChain includeStopped (Batch b # sts)"
| "getLastSequenceInChain includeStopped (st # Pool ws xs # sts) =
     consumer_sequences includeStopped st @ getLastSequenceInChain includeStopped (Pool ws xs # sts)"

record ('e, 'h) disruptor =
  d_sequencer :: sequencer
  d_entries :: "'e list"
  d_producers :: "'e producer list"
  d_stages :: "('e, 'h) stage list"
  d_sent :: "'e list"
  d_calls :: "(nat \<times> int \<times> 'e) list"

text \<open>
  Two fields record history and are never read by a step: \<^verbatim>\<open>d_sent\<close> the events in the order of their sequences, and
  \<^verbatim>\<open>d_calls\<close> the calls of handlers, with the number of the group, the sequence and the event the handler was given.
\<close>

definition dependents :: "('e, 'h) disruptor \<Rightarrow> nat \<Rightarrow> int list" where
  "dependents d i = (if i = 0 then [m_cursor (d_sequencer d)] else stage_sequences (d_stages d ! (i - 1)))"

abbreviation gating :: "('e, 'h) disruptor \<Rightarrow> int list" where
  "gating d \<equiv> getLastSequenceInChain True (d_stages d)"

text \<open>\<^verbatim>\<open>hasBacklog\<close> asks only the consumers that are running.  The model reads the cursor and the sequences in one state.\<close>

definition hasBacklog :: "('e, 'h) disruptor \<Rightarrow> bool" where
  "hasBacklog d \<longleftrightarrow> (\<exists>s \<in> set (getLastSequenceInChain False (d_stages d)). m_cursor (d_sequencer d) > s)"

datatype 'h group = Handler 'h | Workers nat

fun new_stage :: "'h group \<Rightarrow> ('e, 'h) stage" where
  "new_stage (Handler h) = Batch \<lparr>bp_sequence = -1, bp_running = False, bp_next = 0, bp_handler = h, bp_place = Batch_run\<rparr>"
| "new_stage (Workers n) =
     Pool (-1) (replicate n \<lparr>wp_sequence = -1, wp_next = -1, wp_cached = -(2 ^ 63), wp_place = Work_load\<rparr>)"

text \<open>
  \<^verbatim>\<open>RingBuffer\<close>, \<^verbatim>\<open>disruptor\<close> and \<^verbatim>\<open>start\<close>, with \<^verbatim>\<open>n\<close> threads that may produce.  The constructor of the ring buffer
  checks the size a second time, with \<^verbatim>\<open>ceilingNextPowerOfTwo\<close>.
\<close>

definition start_disruptor :: "int \<Rightarrow> 'e \<Rightarrow> 'h group list \<Rightarrow> nat \<Rightarrow> ('e, 'h) disruptor option" where
  "start_disruptor bufferSize e groups n = do {
     q \<leftarrow> MultiProducerSequencer bufferSize;
     c \<leftarrow> ceilingNextPowerOfTwo (m_bufferSize q);
     if c \<noteq> m_bufferSize q then None
     else Some \<lparr>d_sequencer = q, d_entries = replicate (nat bufferSize) e, d_producers = replicate n Idle,
                d_stages = map new_stage groups, d_sent = [], d_calls = []\<rparr> }"

section \<open>Runs\<close>

fun claimed_event :: "'e producer \<Rightarrow> 'e producer \<Rightarrow> 'e list" where
  "claimed_event (Swapping e current) (Claimed e' s) = [e']"
| "claimed_event p p' = []"

fun batch_call :: "nat \<Rightarrow> int \<Rightarrow> 'e batch_place \<Rightarrow> 'e batch_place \<Rightarrow> (nat \<times> int \<times> 'e) list" where
  "batch_call i s (Batch_loop a) (Batch_event a' e) = [(i, s, e)]"
| "batch_call i s p p' = []"

fun work_call :: "nat \<Rightarrow> int \<Rightarrow> 'e work_place \<Rightarrow> 'e work_place \<Rightarrow> (nat \<times> int \<times> 'e) list" where
  "work_call i s Work_check (Work_event e) = [(i, s, e)]"
| "work_call i s p p' = []"

inductive disruptor_step ::
  "(nat \<Rightarrow> ('e, 'h) event_handler) \<Rightarrow> (nat \<Rightarrow> 'e work_handler) \<Rightarrow> ('e, 'h) disruptor \<Rightarrow> ('e, 'h) disruptor \<Rightarrow> bool"
  for on_event on_work where
  submit: "i < length (d_producers d) \<Longrightarrow> d_producers d ! i = Idle \<Longrightarrow>
     disruptor_step on_event on_work d (d\<lparr>d_producers := (d_producers d)[i := Entering e]\<rparr>)"
| produce: "i < length (d_producers d) \<Longrightarrow> d_producers d ! i = p \<Longrightarrow>
     producer_step (gating d) (d_sequencer d) (d_entries d) p = (q, es, p') \<Longrightarrow>
     disruptor_step on_event on_work d (d\<lparr>d_sequencer := q, d_entries := es, d_producers := (d_producers d)[i := p'],
       d_sent := d_sent d @ claimed_event p p'\<rparr>)"
| handle: "i < length (d_stages d) \<Longrightarrow> d_stages d ! i = Batch b \<Longrightarrow>
     batch_step (on_event i) (d_sequencer d) (dependents d i) (d_entries d) b = (es, b') \<Longrightarrow>
     disruptor_step on_event on_work d (d\<lparr>d_entries := es, d_stages := (d_stages d)[i := Batch b'],
       d_calls := d_calls d @ batch_call i (bp_next b) (bp_place b) (bp_place b')\<rparr>)"
| work: "i < length (d_stages d) \<Longrightarrow> d_stages d ! i = Pool ws xs \<Longrightarrow> j < length xs \<Longrightarrow>
     work_step (on_work i) (d_sequencer d) (dependents d i) (d_entries d) ws (xs ! j) = (es, ws', x') \<Longrightarrow>
     disruptor_step on_event on_work d (d\<lparr>d_entries := es, d_stages := (d_stages d)[i := Pool ws' (xs[j := x'])],
       d_calls := d_calls d @ work_call i (wp_next (xs ! j)) (wp_place (xs ! j)) (wp_place x')\<rparr>)"

inductive disruptor_run ::
  "(nat \<Rightarrow> ('e, 'h) event_handler) \<Rightarrow> (nat \<Rightarrow> 'e work_handler) \<Rightarrow> int \<Rightarrow> 'e \<Rightarrow> 'h group list \<Rightarrow> nat \<Rightarrow>
   ('e, 'h) disruptor \<Rightarrow> bool"
  for on_event on_work bufferSize e groups n where
  started: "start_disruptor bufferSize e groups n = Some d \<Longrightarrow>
     disruptor_run on_event on_work bufferSize e groups n d"
| stepped: "disruptor_run on_event on_work bufferSize e groups n d \<Longrightarrow> disruptor_step on_event on_work d d' \<Longrightarrow>
     disruptor_run on_event on_work bufferSize e groups n d'"

section \<open>Index and flag of a slot\<close>

definition sequencer_ok :: "nat \<Rightarrow> sequencer \<Rightarrow> bool" where
  "sequencer_ok k q \<longleftrightarrow> k \<le> 30 \<and> m_bufferSize q = 2 ^ k \<and> m_indexMask q = 2 ^ k - 1 \<and> m_indexShift q = k \<and>
     length (m_availableBuffer q) = 2 ^ k"

lemma isPowerOf2_exp: "isPowerOf2 x \<Longrightarrow> \<exists>k. x = 2 ^ k"
proof (induction "nat x" arbitrary: x rule: less_induct)
  case less
  show ?case
  proof (cases "even x")
    case True
    then obtain y where y: "x = 2 * y" by blast
    with less.prems have "0 < y" by (simp add: isPowerOf2_def)
    have "(2 * y - 1) div 2 = y - 1" by presburger
    then have "x AND (x - 1) = 2 * (y AND (y - 1))" by (subst and_int_rec) (auto simp: y)
    with less.prems \<open>0 < y\<close> have "isPowerOf2 y" by (simp add: isPowerOf2_def)
    with less.hyps [of y] \<open>0 < y\<close> obtain k where "y = 2 ^ k" by (auto simp: y)
    then have "x = 2 ^ Suc k" by (simp add: y)
    then show ?thesis ..
  next
    case False
    then obtain y where y: "x = 2 * y + 1" by (blast elim: oddE)
    have "x AND (x - 1) = 2 * (y AND y)" by (subst and_int_rec) (auto simp: y)
    with less.prems have "y = 0" by (simp add: isPowerOf2_def)
    then have "x = 2 ^ 0" by (simp add: y)
    then show ?thesis ..
  qed
qed

declare log2_loop.simps [simp del]

lemma log2_loop_exp: "log2_loop (2 ^ k) r = r + k"
proof (induction k arbitrary: r)
  case 0
  then show ?case by (simp add: log2_loop.simps)
next
  case (Suc k)
  then show ?case by (subst log2_loop.simps) simp
qed

lemma log2_exp [simp]: "log2 (2 ^ k) = k"
  by (simp add: log2_def nat_power_eq log2_loop_exp)

lemma calculateIndex_mod:
  assumes "sequencer_ok k q"
  shows "calculateIndex q s = s mod 2 ^ k"
proof -
  have "m_indexMask q = mask k" using assms by (simp add: sequencer_ok_def mask_eq_exp_minus_1)
  moreover have "k \<le> 31" using assms by (simp add: sequencer_ok_def)
  ultimately have "calculateIndex q s = take_bit k s"
    by (simp add: calculateIndex_def wrap32_def take_bit_eq_mask [symmetric] take_bit_signed_take_bit)
  then show ?thesis by (simp add: take_bit_eq_mod)
qed

lemma wrap32_eq: "wrap32 x = wrap32 y \<longleftrightarrow> x mod 2 ^ 32 = y mod 2 ^ 32"
  unfolding wrap32_def signed_take_bit_eq_iff_take_bit_eq by (simp add: take_bit_eq_mod)

lemma calculateAvailabilityFlag_div:
  assumes "sequencer_ok k q"
  shows "calculateAvailabilityFlag q s = wrap32 (s div 2 ^ k)"
proof -
  have "m_indexShift q = k" "\<not> 64 - k \<le> 31" using assms by (auto simp: sequencer_ok_def)
  then have "calculateAvailabilityFlag q s = wrap32 (drop_bit k s)"
    by (simp only: calculateAvailabilityFlag_def wrap32_def drop_bit_take_bit signed_take_bit_take_bit if_False)
  then show ?thesis by (simp add: drop_bit_eq_div)
qed

lemma next_lap_flag:
  assumes "sequencer_ok k q"
  shows "calculateAvailabilityFlag q s \<noteq> calculateAvailabilityFlag q (s - 2 ^ k)"
proof
  let ?x = "s div 2 ^ k"
  assume "calculateAvailabilityFlag q s = calculateAvailabilityFlag q (s - 2 ^ k)"
  moreover have "(s - 2 ^ k) div 2 ^ k = ?x - 1"
    using div_mult_self1 [of "2 ^ k" s "-1"] by simp
  ultimately have "?x mod 2 ^ 32 = (?x - 1) mod 2 ^ 32"
    by (simp add: calculateAvailabilityFlag_div [OF assms] wrap32_eq)
  then have "(2 ^ 32 :: int) dvd 1" by (simp add: mod_eq_dvd_iff)
  then show False by simp
qed

lemma same_slot:
  fixes s t c :: int
  assumes "s mod 2 ^ k = t mod 2 ^ k" "c - 2 ^ k < s" "s \<le> c" "c - 2 ^ k < t" "t \<le> c"
  shows "s = t"
proof -
  have "(s - t) mod 2 ^ k = 0" using assms(1) by (simp add: mod_eq_dvd_iff)
  then obtain m where m: "s - t = 2 ^ k * m" by (auto elim: dvdE simp: mod_eq_0_iff_dvd)
  have "\<bar>s - t\<bar> < 2 ^ k" using assms(2-5) by arith
  then have "m = 0" by (simp add: m abs_mult)
  then show ?thesis using m by simp
qed

end
