(* ===== verification/RingRun.thy ===== *)
theory RingRun
  imports RingBuffer
begin

text \<open>
  What holds in every state of a disruptor, whatever the order in which its threads take their steps.  The
  invariant is given for one thread at a time, over the set of sequences that are published and the sequences
  the thread depends on, so that a step of another thread only has to make these larger.
\<close>

section \<open>Claimed, published, done\<close>

lemma consumer_sequences_all [simp]: "consumer_sequences True st = stage_sequences st"
  by (simp add: consumer_sequences_def)

fun claim_of :: "'e producer \<Rightarrow> int option" where
  "claim_of (Claimed e s) = Some s"
| "claim_of (Filled s) = Some s"
| "claim_of p = None"

definition pending :: "'e producer list \<Rightarrow> int \<Rightarrow> bool" where
  "pending ps s \<longleftrightarrow> (\<exists>p \<in> set ps. claim_of p = Some s)"

definition published :: "sequencer \<Rightarrow> 'e producer list \<Rightarrow> int \<Rightarrow> bool" where
  "published q ps s \<longleftrightarrow> s \<le> m_cursor q \<and> \<not> pending ps s"

definition ready :: "(int \<Rightarrow> bool) \<Rightarrow> int list \<Rightarrow> int \<Rightarrow> bool" where
  "ready P deps s \<longleftrightarrow> P s \<and> (\<forall>t \<in> set deps. s \<le> t)"

fun holds :: "'e work_place \<Rightarrow> bool" where
  "holds Work_load = False"
| "holds Work_set = False"
| "holds Work_swap = False"
| "holds p = True"

fun stage_done :: "('e, 'h) stage \<Rightarrow> int \<Rightarrow> bool" where
  "stage_done (Batch b) s = (s < bp_next b)"
| "stage_done (Pool ws xs) s = (s \<le> ws \<and> (\<forall>x \<in> set xs. holds (wp_place x) \<longrightarrow> wp_next x \<noteq> s))"

section \<open>The invariant of a consumer\<close>

fun waiting_ok :: "(int \<Rightarrow> bool) \<Rightarrow> int list \<Rightarrow> int \<Rightarrow> waiting \<Rightarrow> bool" where
  "waiting_ok P deps n Gate = True"
| "waiting_ok P deps n (Minimum i m) = (\<forall>j < i. j < length deps \<longrightarrow> m \<le> deps ! j)"
| "waiting_ok P deps n (Highest k a) =
     (n \<le> k \<and> n \<le> a \<and> (\<forall>t \<in> set deps. a \<le> t) \<and> (\<forall>s. n \<le> s \<and> s < k \<longrightarrow> P s))"

fun batch_place_ok :: "(int \<Rightarrow> bool) \<Rightarrow> int list \<Rightarrow> int \<Rightarrow> 'e batch_place \<Rightarrow> bool" where
  "batch_place_ok P deps n Batch_run = True"
| "batch_place_ok P deps n (Batch_wait w) = waiting_ok P deps n w"
| "batch_place_ok P deps n (Batch_loop a) = (n \<le> a + 1 \<and> (\<forall>s. n \<le> s \<and> s \<le> a \<longrightarrow> ready P deps s))"
| "batch_place_ok P deps n (Batch_event a e) = (n \<le> a \<and> (\<forall>s. n \<le> s \<and> s \<le> a \<longrightarrow> ready P deps s))"

fun work_place_ok :: "(int \<Rightarrow> bool) \<Rightarrow> int list \<Rightarrow> int \<Rightarrow> 'e work_processor \<Rightarrow> 'e work_place \<Rightarrow> bool" where
  "work_place_ok P deps ws x Work_load = (wp_next x \<le> ws)"
| "work_place_ok P deps ws x Work_set = (wp_sequence x \<le> wp_next x - 1 \<and> 0 \<le> wp_next x)"
| "work_place_ok P deps ws x Work_swap = (wp_sequence x = wp_next x - 1 \<and> 0 \<le> wp_next x)"
| "work_place_ok P deps ws x Work_check = (wp_sequence x = wp_next x - 1 \<and> 0 \<le> wp_next x \<and> wp_next x \<le> ws)"
| "work_place_ok P deps ws x (Work_wait v) =
     (wp_sequence x = wp_next x - 1 \<and> 0 \<le> wp_next x \<and> wp_next x \<le> ws \<and> waiting_ok P deps (wp_next x) v)"
| "work_place_ok P deps ws x (Work_event e) =
     (wp_sequence x = wp_next x - 1 \<and> 0 \<le> wp_next x \<and> wp_next x \<le> ws \<and> wp_next x \<le> wp_cached x)"

definition worker_ok :: "(int \<Rightarrow> bool) \<Rightarrow> int list \<Rightarrow> int \<Rightarrow> 'e work_processor \<Rightarrow> bool" where
  "worker_ok P deps ws x \<longleftrightarrow> wp_sequence x \<le> ws \<and> wp_next x \<le> ws + 1 \<and>
     (\<forall>s. wp_next x \<le> s \<and> s \<le> wp_cached x \<longrightarrow> ready P deps s) \<and> work_place_ok P deps ws x (wp_place x)"

definition one_holder :: "'e work_processor list \<Rightarrow> bool" where
  "one_holder xs \<longleftrightarrow> (\<forall>i < length xs. \<forall>j < length xs. i \<noteq> j \<longrightarrow> holds (wp_place (xs ! i)) \<longrightarrow>
     holds (wp_place (xs ! j)) \<longrightarrow> wp_next (xs ! i) \<noteq> wp_next (xs ! j))"

fun stage_ok :: "(int \<Rightarrow> bool) \<Rightarrow> int list \<Rightarrow> ('e, 'h) stage \<Rightarrow> bool" where
  "stage_ok P deps (Batch b) \<longleftrightarrow> 0 \<le> bp_next b \<and> bp_sequence b < bp_next b \<and>
     (\<forall>s < bp_next b. ready P deps s) \<and> batch_place_ok P deps (bp_next b) (bp_place b) \<and>
     (bp_place b = Batch_run \<longrightarrow> bp_next b = bp_sequence b + 1)"
| "stage_ok P deps (Pool ws xs) \<longleftrightarrow> -1 \<le> ws \<and> (\<forall>x \<in> set xs. worker_ok P deps ws x) \<and> one_holder xs \<and>
     (\<forall>s. stage_done (Pool ws xs :: ('e, 'h) stage) s \<longrightarrow> ready P deps s)"

subsection \<open>More is published, more is behind the others\<close>

lemma all_le_mono:
  fixes s :: int
  assumes "list_all2 (\<le>) deps deps'" "\<forall>t \<in> set deps. s \<le> t"
  shows "\<forall>t \<in> set deps'. s \<le> t"
  using assms by (induction rule: list_all2_induct) auto

lemma ready_mono:
  assumes "P \<le> P'" "list_all2 (\<le>) deps deps'" "ready P deps s"
  shows "ready P' deps' s"
  using assms all_le_mono unfolding ready_def by blast

lemma waiting_ok_mono:
  assumes "P \<le> P'" "list_all2 (\<le>) deps deps'" "waiting_ok P deps n w"
  shows "waiting_ok P' deps' n w"
proof (cases w)
  case (Minimum i m)
  have "m \<le> deps' ! j" if "j < i" "j < length deps'" for j
    using that assms(2,3) Minimum by (force simp: list_all2_conv_all_nth)
  then show ?thesis by (simp add: Minimum)
next
  case (Highest k a)
  then show ?thesis using assms(1,3) all_le_mono [OF assms(2)] by auto
qed simp

lemma batch_place_ok_mono:
  assumes "P \<le> P'" "list_all2 (\<le>) deps deps'" "batch_place_ok P deps n p"
  shows "batch_place_ok P' deps' n p"
  using assms(3) waiting_ok_mono [OF assms(1,2)] ready_mono [OF assms(1,2)] by (cases p) auto

lemma work_place_ok_mono:
  assumes "P \<le> P'" "list_all2 (\<le>) deps deps'" "work_place_ok P deps ws x p"
  shows "work_place_ok P' deps' ws x p"
  using assms(3) waiting_ok_mono [OF assms(1,2)] by (cases p) auto

lemma worker_ok_mono:
  assumes "P \<le> P'" "list_all2 (\<le>) deps deps'" "worker_ok P deps ws x"
  shows "worker_ok P' deps' ws x"
  using assms(3) ready_mono [OF assms(1,2)] work_place_ok_mono [OF assms(1,2)] unfolding worker_ok_def by blast

lemma stage_ok_mono:
  assumes "P \<le> P'" "list_all2 (\<le>) deps deps'" "stage_ok P deps st"
  shows "stage_ok P' deps' st"
  using assms(3)
  by (cases st) (auto intro: ready_mono [OF assms(1,2)] batch_place_ok_mono [OF assms(1,2)] worker_ok_mono [OF assms(1,2)])

subsection \<open>Steps of a consumer\<close>

text \<open>\<^verbatim>\<open>stage_le\<close>: the group is the same and none of its sequences went back.\<close>

fun is_batch :: "('e, 'h) stage \<Rightarrow> bool" where
  "is_batch (Batch b) = True"
| "is_batch (Pool ws xs) = False"

definition stage_le :: "('e, 'h) stage \<Rightarrow> ('e, 'h) stage \<Rightarrow> bool" where
  "stage_le st st' \<longleftrightarrow> list_all2 (\<le>) (stage_sequences st) (stage_sequences st') \<and> stage_done st \<le> stage_done st' \<and>
     is_batch st = is_batch st'"

lemma holder_facts:
  assumes "worker_ok P deps ws x" "holds (wp_place x)"
  shows "wp_sequence x = wp_next x - 1" "0 \<le> wp_next x" "wp_next x \<le> ws"
  using assms by (cases "wp_place x"; simp add: worker_ok_def)+

lemma sequences_done:
  assumes "stage_ok P deps st" "\<forall>t \<in> set (stage_sequences st). s \<le> t"
  shows "stage_done st s"
proof (cases st)
  case (Batch b)
  then show ?thesis using assms by auto
next
  case (Pool ws xs)
  have "wp_next x \<noteq> s" if "x \<in> set xs" "holds (wp_place x)" for x
  proof -
    have "worker_ok P deps ws x" using that(1) assms(1) Pool by simp
    then have "wp_sequence x = wp_next x - 1" using that(2) by (rule holder_facts)
    moreover have "s \<le> wp_sequence x" using that(1) assms(2) Pool by simp
    ultimately show ?thesis by simp
  qed
  then show ?thesis using assms(2) Pool by simp
qed

lemma done_ready: "stage_ok P deps st \<Longrightarrow> stage_done st s \<Longrightarrow> ready P deps s"
  by (cases st) auto

lemma waitFor_ok:
  assumes "waiting_ok P deps n w"
    and "\<And>k. n \<le> k \<Longrightarrow> \<forall>t \<in> set deps. k \<le> t \<Longrightarrow> isAvailable q k \<Longrightarrow> P k"
  shows "case waitFor q deps n w of Inl w' \<Rightarrow> waiting_ok P deps n w'
     | Inr a \<Rightarrow> n \<le> a + 1 \<and> (\<forall>s. n \<le> s \<and> s \<le> a \<longrightarrow> ready P deps s)"
proof (cases w)
  case (Minimum i m)
  show ?thesis
  proof (cases "i < length deps")
    case True
    then show ?thesis using assms(1) Minimum by (auto simp: less_Suc_eq)
  next
    case False
    then have "\<forall>t \<in> set deps. m \<le> t" using assms(1) Minimum by (auto simp: in_set_conv_nth)
    then show ?thesis using False Minimum by auto
  qed
next
  case (Highest k a)
  show ?thesis
  proof (cases "k \<le> a \<and> isAvailable q k")
    case True
    moreover have "P k" using True assms Highest by (meson order.trans waiting_ok.simps(3))
    moreover have "P s" if "n \<le> s" "s < k + 1" for s
      using that \<open>P k\<close> assms(1) Highest by (cases "s = k") auto
    ultimately show ?thesis using assms(1) Highest by simp
  next
    case False
    then show ?thesis using assms(1) Highest by (force simp: ready_def)
  qed
qed simp

lemma batch_step_ok:
  fixes b :: "('e, 'h) batch_processor"
  assumes ok: "stage_ok P deps (Batch b :: ('e, 'h) stage)"
    and avail: "\<And>k. bp_next b \<le> k \<Longrightarrow> \<forall>t \<in> set deps. k \<le> t \<Longrightarrow> isAvailable q k \<Longrightarrow> P k"
    and step: "batch_step f q deps es b = (es', b')"
  shows "stage_ok P deps (Batch b' :: ('e, 'h) stage) \<and> stage_le (Batch b) (Batch b')"
proof (cases "bp_place b")
  case Batch_run
  then show ?thesis using ok step by (auto simp: batch_step_def stage_le_def)
next
  case (Batch_wait w)
  have "waiting_ok P deps (bp_next b) w" using ok Batch_wait by simp
  note * = waitFor_ok [of P deps "bp_next b" w q, OF this avail]
  show ?thesis
  proof (cases "waitFor q deps (bp_next b) w")
    case (Inl w')
    then have "b' = b\<lparr>bp_place := Batch_wait w'\<rparr>" using step Batch_wait by (simp add: batch_step_def)
    then show ?thesis using ok * Inl by (auto simp: stage_le_def)
  next
    case (Inr a)
    then have "b' = b\<lparr>bp_place := Batch_loop a\<rparr>" using step Batch_wait by (simp add: batch_step_def)
    then show ?thesis using ok * Inr by (auto simp: stage_le_def)
  qed
next
  case (Batch_loop a)
  show ?thesis
  proof (cases "bp_next b \<le> a")
    case True
    then show ?thesis using ok step Batch_loop by (auto simp: batch_step_def stage_le_def)
  next
    case False
    then show ?thesis using ok step Batch_loop by (auto simp: batch_step_def stage_le_def)
  qed
next
  case (Batch_event a e)
  obtain e' h threw where f: "f (bp_handler b) (bp_next b) e = (e', h, threw)" by (metis prod_cases3)
  have "ready P deps (bp_next b)" using ok Batch_event by simp
  then have "ready P deps s" if "s < bp_next b + 1" for s using that ok by (cases "s = bp_next b") auto
  then show ?thesis using ok step Batch_event f
    by (cases threw) (auto simp: batch_step_def stage_le_def)
qed

text \<open>
  A step of a worker keeps what it holds, takes the next sequence of the pool, or ends the sequence it holds.
\<close>

inductive hold_step :: "(int \<Rightarrow> bool) \<Rightarrow> int list \<Rightarrow> int \<Rightarrow> 'e work_processor \<Rightarrow> int \<Rightarrow> 'e work_processor \<Rightarrow> bool"
  for P deps ws x where
  hold_same: "holds (wp_place x') = holds (wp_place x) \<Longrightarrow> (holds (wp_place x) \<Longrightarrow> wp_next x' = wp_next x) \<Longrightarrow>
     hold_step P deps ws x ws x'"
| hold_take: "\<not> holds (wp_place x) \<Longrightarrow> holds (wp_place x') \<Longrightarrow> wp_next x' = ws + 1 \<Longrightarrow>
     hold_step P deps ws x (ws + 1) x'"
| hold_end: "holds (wp_place x) \<Longrightarrow> \<not> holds (wp_place x') \<Longrightarrow> ready P deps (wp_next x) \<Longrightarrow>
     hold_step P deps ws x ws x'"

lemma worker_step_ok:
  assumes ok: "worker_ok P deps ws x" and ws: "-1 \<le> ws"
    and avail: "\<And>k. holds (wp_place x) \<Longrightarrow> wp_next x \<le> k \<Longrightarrow> \<forall>t \<in> set deps. k \<le> t \<Longrightarrow> isAvailable q k \<Longrightarrow> P k"
    and step: "work_step f q deps es ws x = (es', ws', x')"
  shows "worker_ok P deps ws' x' \<and> wp_sequence x \<le> wp_sequence x' \<and> hold_step P deps ws x ws' x'"
proof (cases "wp_place x")
  case Work_load
  then show ?thesis using ok ws step by (auto simp: work_step_def worker_ok_def intro!: hold_same)
next
  case Work_set
  then show ?thesis using ok step by (auto simp: work_step_def worker_ok_def intro!: hold_same)
next
  case Work_swap
  show ?thesis
  proof (cases "ws = wp_next x - 1")
    case True
    then have "ws' = ws + 1" "x' = x\<lparr>wp_place := Work_check\<rparr>" using Work_swap step by (auto simp: work_step_def)
    moreover from this have "hold_step P deps ws x (ws + 1) x'"
      by (intro hold_take) (use True Work_swap in auto)
    ultimately show ?thesis using ok True Work_swap by (auto simp: worker_ok_def)
  next
    case False
    then show ?thesis using ok Work_swap step by (auto simp: work_step_def worker_ok_def intro!: hold_same)
  qed
next
  case Work_check
  then show ?thesis using ok step
    by (cases "wp_next x \<le> wp_cached x") (auto simp: work_step_def worker_ok_def intro!: hold_same)
next
  case (Work_wait v)
  have "waiting_ok P deps (wp_next x) v" using ok Work_wait by (simp add: worker_ok_def)
  moreover have "P k" if "wp_next x \<le> k" "\<forall>t \<in> set deps. k \<le> t" "isAvailable q k" for k
    using that avail [of k] Work_wait by simp
  ultimately have *: "case waitFor q deps (wp_next x) v of Inl w' \<Rightarrow> waiting_ok P deps (wp_next x) w'
     | Inr a \<Rightarrow> wp_next x \<le> a + 1 \<and> (\<forall>s. wp_next x \<le> s \<and> s \<le> a \<longrightarrow> ready P deps s)"
    by (rule waitFor_ok)
  show ?thesis
  proof (cases "waitFor q deps (wp_next x) v")
    case (Inl v')
    then have "ws' = ws" "x' = x\<lparr>wp_place := Work_wait v'\<rparr>" using step Work_wait by (auto simp: work_step_def)
    then show ?thesis using ok * Inl Work_wait by (simp add: worker_ok_def hold_same)
  next
    case (Inr a)
    then have "ws' = ws" "x' = x\<lparr>wp_cached := a, wp_place := Work_check\<rparr>"
      using step Work_wait by (auto simp: work_step_def)
    then show ?thesis using ok * Inr Work_wait by (simp add: worker_ok_def hold_same)
  qed
next
  case (Work_event e)
  then have "ws' = ws" "x' = x\<lparr>wp_place := Work_load\<rparr>" "ready P deps (wp_next x)"
    using ok step by (auto simp: work_step_def worker_ok_def)
  then show ?thesis using ok Work_event by (simp add: worker_ok_def hold_end)
qed

lemma worker_ok_pool: "worker_ok P deps ws x \<Longrightarrow> ws \<le> ws' \<Longrightarrow> worker_ok P deps ws' x"
  by (cases "wp_place x") (auto simp: worker_ok_def)

lemma one_holder_update:
  assumes one: "one_holder xs" and j: "j < length xs"
    and others: "\<And>i. i < length xs \<Longrightarrow> i \<noteq> j \<Longrightarrow> holds (wp_place (xs ! i)) \<Longrightarrow> holds (wp_place x') \<Longrightarrow>
      wp_next (xs ! i) \<noteq> wp_next x'"
  shows "one_holder (xs[j := x'])"
  unfolding one_holder_def
proof (intro allI impI)
  fix i k
  assume *: "i < length (xs[j := x'])" "k < length (xs[j := x'])" "i \<noteq> k"
    "holds (wp_place (xs[j := x'] ! i))" "holds (wp_place (xs[j := x'] ! k))"
  consider "i = j" | "k = j" | "i \<noteq> j" "k \<noteq> j" by blast
  then show "wp_next (xs[j := x'] ! i) \<noteq> wp_next (xs[j := x'] ! k)"
  proof cases
    case 1
    then show ?thesis using * j others [of k] by simp
  next
    case 2
    then show ?thesis using * j others [of i] by simp
  next
    case 3
    then show ?thesis using * one by (simp add: one_holder_def)
  qed
qed

lemma pool_done_update:
  fixes ws ws' :: int
  assumes hold: "hold_step P deps ws (xs ! j) ws' x'" and one: "one_holder xs" and j: "j < length xs"
    and below: "\<And>i. i < length xs \<Longrightarrow> holds (wp_place (xs ! i)) \<Longrightarrow> wp_next (xs ! i) \<le> ws"
  shows "stage_done (Pool ws' (xs[j := x']) :: ('e, 'h) stage) s \<longleftrightarrow>
    stage_done (Pool ws xs :: ('e, 'h) stage) s \<or> (holds (wp_place (xs ! j)) \<and> \<not> holds (wp_place x') \<and> s = wp_next (xs ! j))"
proof -
  have "(\<forall>y \<in> set (xs[j := x']). holds (wp_place y) \<longrightarrow> wp_next y \<noteq> s) \<longleftrightarrow> (holds (wp_place x') \<longrightarrow> wp_next x' \<noteq> s) \<and>
      (\<forall>i < length xs. i \<noteq> j \<longrightarrow> holds (wp_place (xs ! i)) \<longrightarrow> wp_next (xs ! i) \<noteq> s)"
    using j by (auto simp: all_set_conv_all_nth nth_list_update)
  then have new_iff: "stage_done (Pool ws' (xs[j := x']) :: ('e, 'h) stage) s \<longleftrightarrow> s \<le> ws' \<and> (holds (wp_place x') \<longrightarrow> wp_next x' \<noteq> s) \<and>
      (\<forall>i < length xs. i \<noteq> j \<longrightarrow> holds (wp_place (xs ! i)) \<longrightarrow> wp_next (xs ! i) \<noteq> s)" by simp
  have done_iff: "stage_done (Pool ws xs :: ('e, 'h) stage) s \<longleftrightarrow> s \<le> ws \<and> (holds (wp_place (xs ! j)) \<longrightarrow> wp_next (xs ! j) \<noteq> s) \<and>
      (\<forall>i < length xs. i \<noteq> j \<longrightarrow> holds (wp_place (xs ! i)) \<longrightarrow> wp_next (xs ! i) \<noteq> s)"
    using j by (auto simp: all_set_conv_all_nth)
  show ?thesis
    using hold
  proof cases
    case hold_same
    then show ?thesis unfolding new_iff done_iff by auto
  next
    case hold_take
    then show ?thesis unfolding new_iff done_iff by auto
  next
    case hold_end
    have "wp_next (xs ! i) \<noteq> wp_next (xs ! j)" if "i < length xs" "i \<noteq> j" "holds (wp_place (xs ! i))" for i
      using that one j hold_end(2) by (simp add: one_holder_def)
    then show ?thesis unfolding new_iff done_iff using hold_end below [OF j] by auto
  qed
qed

lemma pool_worker_step:
  fixes st :: "('e, 'h) stage"
  assumes ok: "stage_ok P deps st" and st: "st = Pool ws xs" and j: "j < length xs"
    and avail: "\<And>n k. \<not> stage_done st n \<Longrightarrow> n \<le> k \<Longrightarrow> \<forall>t \<in> set deps. k \<le> t \<Longrightarrow> isAvailable q k \<Longrightarrow> P k"
    and step: "work_step f q deps es ws (xs ! j) = (es', ws', x')"
  shows "worker_ok P deps ws' x' \<and> wp_sequence (xs ! j) \<le> wp_sequence x' \<and> hold_step P deps ws (xs ! j) ws' x'"
proof -
  let ?x = "xs ! j"
  have x: "?x \<in> set xs" using j by simp
  have xok: "worker_ok P deps ws ?x" and ws: "-1 \<le> ws" using ok x by (auto simp: st)
  have nd: "\<not> stage_done st (wp_next ?x)" if "holds (wp_place ?x)" using that x by (auto simp: st)
  have "P k" if "holds (wp_place ?x)" "wp_next ?x \<le> k" "\<forall>t \<in> set deps. k \<le> t" "isAvailable q k" for k
    by (rule avail [OF nd [OF that(1)] that(2-4)])
  from worker_step_ok [OF xok ws this step] show ?thesis .
qed

lemma pool_holders:
  assumes "stage_ok P deps (Pool ws xs)" "i < length xs" "holds (wp_place (xs ! i))"
  shows "wp_next (xs ! i) \<le> ws"
  using assms by (auto intro: holder_facts(3))

lemma pool_step_ok:
  fixes st :: "('e, 'h) stage"
  assumes ok: "stage_ok P deps st" and st: "st = Pool ws xs" and j: "j < length xs"
    and avail: "\<And>n k. \<not> stage_done st n \<Longrightarrow> n \<le> k \<Longrightarrow> \<forall>t \<in> set deps. k \<le> t \<Longrightarrow> isAvailable q k \<Longrightarrow> P k"
    and step: "work_step f q deps es ws (xs ! j) = (es', ws', x')"
  shows "stage_ok P deps (Pool ws' (xs[j := x']) :: ('e, 'h) stage) \<and> stage_le st (Pool ws' (xs[j := x']))"
proof -
  let ?x = "xs ! j" and ?xs = "xs[j := x']"
  have ws: "-1 \<le> ws" and one: "one_holder xs" using ok by (auto simp: st)
  have "worker_ok P deps ws' x' \<and> wp_sequence ?x \<le> wp_sequence x' \<and> hold_step P deps ws ?x ws' x'"
    by (rule pool_worker_step [OF ok st j _ step]) (fact avail)
  then have new: "worker_ok P deps ws' x'" and seq: "wp_sequence ?x \<le> wp_sequence x'"
    and hold: "hold_step P deps ws ?x ws' x'" by blast+
  have le: "ws \<le> ws'" using hold by cases auto
  have "\<forall>y \<in> set xs. worker_ok P deps ws' y" using ok le by (auto simp: st intro: worker_ok_pool)
  then have workers: "\<forall>y \<in> set ?xs. worker_ok P deps ws' y"
    using new set_update_subset_insert [of xs j x'] by blast
  have below: "wp_next (xs ! i) \<le> ws" if "i < length xs" "holds (wp_place (xs ! i))" for i
    using pool_holders ok that unfolding st by blast
  have others: "wp_next (xs ! i) \<noteq> wp_next x'"
    if "i < length xs" "i \<noteq> j" "holds (wp_place (xs ! i))" "holds (wp_place x')" for i
    using hold
  proof cases
    case hold_same
    then show ?thesis using that one j by (simp add: one_holder_def)
  next
    case hold_take
    then show ?thesis using below [OF that(1,3)] by simp
  qed (use that in simp)
  then have holder: "one_holder ?xs" by (rule one_holder_update [OF one j])
  have done_iff: "stage_done (Pool ws' ?xs :: ('e, 'h) stage) s \<longleftrightarrow>
      stage_done st s \<or> (holds (wp_place ?x) \<and> \<not> holds (wp_place x') \<and> s = wp_next ?x)" for s
    using pool_done_update [OF hold one j below] by (simp add: st)
  have "ready P deps (wp_next ?x)" if "holds (wp_place ?x)" "\<not> holds (wp_place x')"
    using hold by cases (use that in auto)
  then have done_new: "stage_done st s \<or> ready P deps s" if "stage_done (Pool ws' ?xs :: ('e, 'h) stage) s" for s
    using that unfolding done_iff by blast
  have "list_all2 (\<le>) (map wp_sequence xs) (map wp_sequence ?xs)"
    using seq j by (auto simp: list_all2_conv_all_nth nth_list_update)
  then have "stage_le st (Pool ws' ?xs)"
    using le done_iff by (auto simp: stage_le_def st list_all2_appendI simp del: stage_done.simps)
  moreover have "stage_ok P deps (Pool ws' ?xs :: ('e, 'h) stage)"
    using ws le workers holder done_new done_ready [OF ok] by (simp del: stage_done.simps) blast
  ultimately show ?thesis by blast
qed

section \<open>The invariant of a disruptor\<close>

fun producer_ok :: "nat \<Rightarrow> int list \<Rightarrow> int \<Rightarrow> 'e producer \<Rightarrow> bool" where
  "producer_ok k G c (Loaded e current) = (current \<le> c)"
| "producer_ok k G c (Scanning e current i m) = (current \<le> c \<and> (\<forall>j < i. j < length G \<longrightarrow> m \<le> G ! j))"
| "producer_ok k G c (Caching e current m) = (\<forall>t \<in> set G. m \<le> t)"
| "producer_ok k G c (Swapping e current) = (current \<le> c \<and> (\<forall>t \<in> set G. current + 1 - 2 ^ k \<le> t))"
| "producer_ok k G c (Claimed e s) = (0 \<le> s \<and> s \<le> c)"
| "producer_ok k G c (Filled s) = (0 \<le> s \<and> s \<le> c)"
| "producer_ok k G c p = True"

definition one_claim :: "'e producer list \<Rightarrow> bool" where
  "one_claim ps \<longleftrightarrow> (\<forall>i < length ps. \<forall>j < length ps. i \<noteq> j \<longrightarrow> claim_of (ps ! i) \<noteq> None \<longrightarrow> claim_of (ps ! i) \<noteq> claim_of (ps ! j))"

definition flags_ok :: "nat \<Rightarrow> sequencer \<Rightarrow> 'e producer list \<Rightarrow> bool" where
  "flags_ok k q ps \<longleftrightarrow> (\<forall>s. m_cursor q - 2 ^ k < s \<and> s \<le> m_cursor q \<longrightarrow>
     m_availableBuffer q ! nat (s mod 2 ^ k) = calculateAvailabilityFlag q (if pending ps s then s - 2 ^ k else s))"

definition ring_inv :: "nat \<Rightarrow> ('e, 'h) disruptor \<Rightarrow> bool" where
  "ring_inv k d \<longleftrightarrow> sequencer_ok k (d_sequencer d) \<and> length (d_entries d) = 2 ^ k \<and> d_stages d \<noteq> [] \<and>
     m_cursor (d_sequencer d) = int (length (d_sent d)) - 1 \<and>
     (\<forall>p \<in> set (d_producers d). producer_ok k (gating d) (m_cursor (d_sequencer d)) p) \<and> one_claim (d_producers d) \<and>
     (\<forall>t \<in> set (gating d). m_gatingSequenceCache (d_sequencer d) \<le> t \<and> m_cursor (d_sequencer d) - 2 ^ k \<le> t) \<and>
     flags_ok k (d_sequencer d) (d_producers d) \<and>
     (\<forall>i < length (d_stages d). stage_ok (published (d_sequencer d) (d_producers d)) (dependents d i) (d_stages d ! i))"

lemma ring_inv_parts:
  assumes "ring_inv k d"
  shows ri_sequencer: "sequencer_ok k (d_sequencer d)"
    and ri_entries: "length (d_entries d) = 2 ^ k"
    and ri_stages: "d_stages d \<noteq> []"
    and ri_sent: "m_cursor (d_sequencer d) = int (length (d_sent d)) - 1"
    and ri_producers: "p \<in> set (d_producers d) \<Longrightarrow> producer_ok k (gating d) (m_cursor (d_sequencer d)) p"
    and ri_claims: "one_claim (d_producers d)"
    and ri_cache: "t \<in> set (gating d) \<Longrightarrow> m_gatingSequenceCache (d_sequencer d) \<le> t"
    and ri_gating: "t \<in> set (gating d) \<Longrightarrow> m_cursor (d_sequencer d) - 2 ^ k \<le> t"
    and ri_flags: "flags_ok k (d_sequencer d) (d_producers d)"
    and ri_stage: "i < length (d_stages d) \<Longrightarrow>
      stage_ok (published (d_sequencer d) (d_producers d)) (dependents d i) (d_stages d ! i)"
  using assms unfolding ring_inv_def by blast+

subsection \<open>Groups in the order of the chain\<close>

lemma last_is_gating:
  "sts \<noteq> [] \<Longrightarrow> set (consumer_sequences all (last sts)) \<subseteq> set (getLastSequenceInChain all sts)"
  by (induction all sts rule: getLastSequenceInChain.induct) auto

lemma done_before:
  assumes inv: "ring_inv k d" and "Suc i < length (d_stages d)" "stage_done (d_stages d ! Suc i) s"
  shows "stage_done (d_stages d ! i) s"
proof -
  have "ready (published (d_sequencer d) (d_producers d)) (dependents d (Suc i)) s"
    using done_ready ri_stage [OF inv] assms(2,3) by blast
  then have "\<forall>t \<in> set (stage_sequences (d_stages d ! i)). s \<le> t" by (simp add: ready_def dependents_def)
  then show ?thesis using sequences_done ri_stage [OF inv] assms(2) by (metis Suc_lessD)
qed

lemma done_earlier:
  assumes inv: "ring_inv k d" and "j < length (d_stages d)" "stage_done (d_stages d ! j) s" "i \<le> j"
  shows "stage_done (d_stages d ! i) s"
  using assms(4,2,3)
proof (induction j rule: dec_induct)
  case (step j)
  then show ?case using done_before [OF inv, of j s] by simp
qed

lemma last_done:
  assumes inv: "ring_inv k d" and "\<forall>t \<in> set (stage_sequences (last (d_stages d))). s \<le> t" "i < length (d_stages d)"
  shows "stage_done (d_stages d ! i) s"
proof -
  let ?n = "length (d_stages d) - 1"
  have n: "?n < length (d_stages d)" and l: "last (d_stages d) = d_stages d ! ?n"
    using ri_stages [OF inv] by (auto simp: last_conv_nth)
  then have "stage_done (d_stages d ! ?n) s" using assms(2) sequences_done ri_stage [OF inv n] by auto
  then show ?thesis using done_earlier [OF inv n] assms(3) by auto
qed

lemma gating_done:
  assumes inv: "ring_inv k d" and "\<forall>t \<in> set (gating d). s \<le> t" "i < length (d_stages d)"
  shows "stage_done (d_stages d ! i) s"
  using assms(2) last_is_gating [OF ri_stages [OF inv], of True] by (intro last_done [OF inv _ assms(3)]) auto

lemma done_published:
  assumes "ring_inv k d" "i < length (d_stages d)" "stage_done (d_stages d ! i) s"
  shows "published (d_sequencer d) (d_producers d) s"
  using done_ready [OF ri_stage [OF assms(1,2)] assms(3)] by (simp add: ready_def)

lemma undone_in_window:
  assumes "ring_inv k d" "i < length (d_stages d)" "\<not> stage_done (d_stages d ! i) s"
  shows "m_cursor (d_sequencer d) - 2 ^ k < s"
  using gating_done [OF assms(1) _ assms(2)] ri_gating [OF assms(1)] assms(3) by (meson not_le order.trans)

lemma old_published:
  assumes inv: "ring_inv k d" and "\<forall>t \<in> set (gating d). s \<le> t"
  shows "published (d_sequencer d) (d_producers d) s"
  using done_published [OF inv] gating_done [OF assms] ri_stages [OF inv] by blast

lemma pending_in_window:
  assumes "ring_inv k d" "pending (d_producers d) s"
  shows "m_cursor (d_sequencer d) - 2 ^ k < s"
  using old_published [OF assms(1)] ri_gating [OF assms(1)] assms(2)
  by (meson not_le order.trans published_def)

lemma available_published:
  assumes inv: "ring_inv k d" and i: "i < length (d_stages d)" and n: "\<not> stage_done (d_stages d ! i) n" "n \<le> s"
    and deps: "\<forall>t \<in> set (dependents d i). s \<le> t" and avail: "isAvailable (d_sequencer d) s"
  shows "published (d_sequencer d) (d_producers d) s"
proof (cases i)
  case 0
  let ?q = "d_sequencer d"
  have s: "m_cursor ?q - 2 ^ k < s" "s \<le> m_cursor ?q"
    using undone_in_window [OF inv i n(1)] n(2) deps by (auto simp: dependents_def 0)
  have "m_availableBuffer ?q ! nat (s mod 2 ^ k) = calculateAvailabilityFlag ?q (if pending (d_producers d) s then s - 2 ^ k else s)"
    using ri_flags [OF inv] s by (simp add: flags_ok_def)
  moreover have "m_availableBuffer ?q ! nat (s mod 2 ^ k) = calculateAvailabilityFlag ?q s"
    using avail by (simp add: isAvailable_def calculateIndex_mod [OF ri_sequencer [OF inv]])
  ultimately have "\<not> pending (d_producers d) s"
    using next_lap_flag [OF ri_sequencer [OF inv], of s] by auto
  then show ?thesis using s by (simp add: published_def)
next
  case (Suc j)
  then have "\<forall>t \<in> set (stage_sequences (d_stages d ! j)). s \<le> t" using deps by (simp add: dependents_def)
  then have "stage_done (d_stages d ! j) s" using sequences_done ri_stage [OF inv, of j] i Suc by auto
  then show ?thesis using done_published [OF inv, of j] i Suc by simp
qed

subsection \<open>Steps of the consumers\<close>

lemma gating_mono:
  "list_all2 stage_le sts sts' \<Longrightarrow> list_all2 (\<le>) (getLastSequenceInChain True sts) (getLastSequenceInChain True sts')"
proof (induction True sts arbitrary: sts' rule: getLastSequenceInChain.induct)
  case (3 st b sts)
  obtain st' x sts'' where s: "sts' = st' # x # sts''" and le: "list_all2 stage_le (Batch b # sts) (x # sts'')"
    using "3.prems" by (auto simp: list_all2_Cons1)
  then obtain b' where "x = Batch b'" by (cases x) (auto simp: stage_le_def)
  then show ?case using "3.hyps" [OF le] by (simp add: s)
next
  case (4 st ws xs sts)
  obtain st' x sts'' where s: "sts' = st' # x # sts''" and st: "stage_le st st'"
    and le: "list_all2 stage_le (Pool ws xs # sts) (x # sts'')"
    using "4.prems" by (auto simp: list_all2_Cons1)
  then obtain ws' xs' where "x = Pool ws' xs'" by (cases x) (auto simp: stage_le_def)
  then show ?case using "4.hyps" [OF le] st by (simp add: s stage_le_def list_all2_appendI)
qed (auto simp: list_all2_Cons1 stage_le_def)

lemma producer_ok_mono:
  assumes "producer_ok k G c p" "list_all2 (\<le>) G G'" "c \<le> c'"
  shows "producer_ok k G' c' p"
proof (cases p)
  case (Scanning e current i m)
  have "m \<le> G' ! j" if "j < i" "j < length G'" for j
    using that assms(1,2) Scanning by (force simp: list_all2_conv_all_nth)
  then show ?thesis using assms Scanning by simp
qed (use assms all_le_mono [OF assms(2)] in auto)

lemma stage_le_refl: "stage_le st st"
  by (simp add: stage_le_def list_all2_refl)

lemma stage_replaced:
  assumes inv: "ring_inv k d" and i: "i < length (d_stages d)" and len: "length es = length (d_entries d)"
    and ok: "stage_ok (published (d_sequencer d) (d_producers d)) (dependents d i) st"
    and le: "stage_le (d_stages d ! i) st"
  shows "ring_inv k (d\<lparr>d_entries := es, d_stages := (d_stages d)[i := st], d_calls := cs\<rparr>)"
proof -
  let ?d = "d\<lparr>d_entries := es, d_stages := (d_stages d)[i := st], d_calls := cs\<rparr>"
  have "list_all2 stage_le (d_stages d) (d_stages ?d)"
    using le i by (simp add: list_all2_conv_all_nth nth_list_update stage_le_refl)
  then have G: "list_all2 (\<le>) (gating d) (gating ?d)" by (rule gating_mono)
  have "stage_ok (published (d_sequencer d) (d_producers d)) (dependents ?d j) (d_stages ?d ! j)"
    if j: "j < length (d_stages d)" for j
  proof (cases "j = i")
    case True
    then have "dependents ?d j = dependents d i" by (auto simp: dependents_def)
    then show ?thesis using ok i True by simp
  next
    case False
    have "list_all2 (\<le>) (dependents d j) (dependents ?d j)"
      using le j i by (cases "j - 1 = i") (auto simp: dependents_def stage_le_def list_all2_refl nth_list_update)
    then show ?thesis using stage_ok_mono [OF order.refl _ ri_stage [OF inv j]] False by simp
  qed
  moreover have "producer_ok k (gating ?d) (m_cursor (d_sequencer d)) p" if "p \<in> set (d_producers d)" for p
    by (rule producer_ok_mono [OF ri_producers [OF inv that] G order.refl])
  moreover have "m_gatingSequenceCache (d_sequencer d) \<le> t \<and> m_cursor (d_sequencer d) - 2 ^ k \<le> t" if "t \<in> set (gating ?d)" for t
    using that all_le_mono [OF G] ri_cache [OF inv] ri_gating [OF inv] by blast
  ultimately show ?thesis
    using inv len unfolding ring_inv_def by simp
qed

lemma batch_keeps_length: "batch_step f q deps es b = (es', b') \<Longrightarrow> length es' = length es"
  by (cases "bp_place b") (auto simp: batch_step_def split: sum.splits if_splits prod.splits)

lemma work_keeps_length: "work_step f q deps es ws x = (es', ws', x') \<Longrightarrow> length es' = length es"
  by (cases "wp_place x") (auto simp: work_step_def split: sum.splits if_splits)

lemma handle_keeps_inv:
  assumes inv: "ring_inv k d" and i: "i < length (d_stages d)" and b: "d_stages d ! i = Batch b"
    and step: "batch_step f (d_sequencer d) (dependents d i) (d_entries d) b = (es, b')"
  shows "ring_inv k (d\<lparr>d_entries := es, d_stages := (d_stages d)[i := Batch b'], d_calls := cs\<rparr>)"
proof -
  have nd: "\<not> stage_done (d_stages d ! i) (bp_next b)" by (simp add: b)
  have ok: "stage_ok (published (d_sequencer d) (d_producers d)) (dependents d i) (Batch b)"
    using ri_stage [OF inv i] by (simp add: b)
  from batch_step_ok [OF ok available_published [OF inv i nd] step] batch_keeps_length [OF step]
  show ?thesis by (intro stage_replaced [OF inv i]) (auto simp: b)
qed

lemma work_keeps_inv:
  assumes inv: "ring_inv k d" and i: "i < length (d_stages d)" and st: "d_stages d ! i = Pool ws xs" and j: "j < length xs"
    and step: "work_step f (d_sequencer d) (dependents d i) (d_entries d) ws (xs ! j) = (es, ws', x')"
  shows "ring_inv k (d\<lparr>d_entries := es, d_stages := (d_stages d)[i := Pool ws' (xs[j := x'])], d_calls := cs\<rparr>)"
proof -
  from pool_step_ok [OF ri_stage [OF inv i] st j available_published [OF inv i] step] work_keeps_length [OF step]
  show ?thesis by (intro stage_replaced [OF inv i]) (auto simp del: stage_ok.simps)
qed

subsection \<open>Steps of the producers\<close>

lemma pending_update:
  assumes "i < length ps"
  shows "pending (ps[i := p]) s \<longleftrightarrow> claim_of p = Some s \<or> (\<exists>j < length ps. j \<noteq> i \<and> claim_of (ps ! j) = Some s)"
proof -
  have "pending (ps[i := p]) s \<longleftrightarrow> (\<exists>j < length ps. claim_of (ps[i := p] ! j) = Some s)"
    unfolding pending_def by (metis in_set_conv_nth length_list_update)
  also have "\<dots> \<longleftrightarrow> claim_of p = Some s \<or> (\<exists>j < length ps. j \<noteq> i \<and> claim_of (ps ! j) = Some s)"
    using assms by (metis nth_list_update_eq nth_list_update_neq)
  finally show ?thesis .
qed

lemma pending_split:
  "i < length ps \<Longrightarrow>
   pending ps s \<longleftrightarrow> claim_of (ps ! i) = Some s \<or> (\<exists>j < length ps. j \<noteq> i \<and> claim_of (ps ! j) = Some s)"
  using pending_update [of i ps "ps ! i" s] by simp

lemma claim_bounds: "producer_ok k G c p \<Longrightarrow> claim_of p = Some s \<Longrightarrow> 0 \<le> s \<and> s \<le> c"
  by (cases p) auto

lemma one_claimD:
  "one_claim ps \<Longrightarrow> i < length ps \<Longrightarrow> j < length ps \<Longrightarrow> i \<noteq> j \<Longrightarrow> claim_of (ps ! i) = Some s \<Longrightarrow>
   claim_of (ps ! j) \<noteq> Some s"
  unfolding one_claim_def by (metis option.distinct(1))

lemma pending_same: "i < length ps \<Longrightarrow> claim_of p = claim_of (ps ! i) \<Longrightarrow> pending (ps[i := p]) = pending ps"
  by (simp add: fun_eq_iff pending_update pending_split [of i ps])

lemma one_claim_update:
  assumes one: "one_claim ps" and i: "i < length ps"
    and others: "\<And>j. j < length ps \<Longrightarrow> j \<noteq> i \<Longrightarrow> claim_of p \<noteq> None \<Longrightarrow> claim_of (ps ! j) \<noteq> claim_of p"
  shows "one_claim (ps[i := p])"
  unfolding one_claim_def
proof (intro allI impI)
  fix a b
  assume *: "a < length (ps[i := p])" "b < length (ps[i := p])" "a \<noteq> b" "claim_of (ps[i := p] ! a) \<noteq> None"
  consider "a = i" | "b = i" | "a \<noteq> i" "b \<noteq> i" by blast
  then show "claim_of (ps[i := p] ! a) \<noteq> claim_of (ps[i := p] ! b)"
  proof cases
    case 1
    then show ?thesis using * i others [of b] by (metis length_list_update nth_list_update_eq nth_list_update_neq)
  next
    case 2
    then show ?thesis using * i others [of a] by (metis length_list_update nth_list_update_eq nth_list_update_neq)
  next
    case 3
    then show ?thesis using * one by (simp add: one_claim_def)
  qed
qed

lemma producers_update:
  assumes "\<forall>p \<in> set ps. Q p" "Q p'"
  shows "\<forall>p \<in> set (ps[i := p']). Q p"
  using assms set_update_subset_insert [of ps i p'] by blast

lemma producer_replaced:
  assumes inv: "ring_inv k d" and i: "i < length (d_producers d)" and claim: "claim_of p = claim_of (d_producers d ! i)"
    and p: "producer_ok k (gating d) (m_cursor (d_sequencer d)) p" and len: "length es = length (d_entries d)"
    and m: "\<forall>t \<in> set (gating d). m \<le> t"
  shows "ring_inv k (d\<lparr>d_sequencer := (d_sequencer d)\<lparr>m_gatingSequenceCache := m\<rparr>, d_entries := es,
    d_producers := (d_producers d)[i := p]\<rparr>)"
proof -
  have eq: "pending ((d_producers d)[i := p]) = pending (d_producers d)" by (rule pending_same [OF i claim])
  have pub: "published ((d_sequencer d)\<lparr>m_gatingSequenceCache := m\<rparr>) ((d_producers d)[i := p]) =
      published (d_sequencer d) (d_producers d)" by (simp add: published_def eq fun_eq_iff)
  have "one_claim ((d_producers d)[i := p])"
    using claim one_claimD [OF ri_claims [OF inv] i] by (intro one_claim_update [OF ri_claims [OF inv] i]) fastforce
  moreover have "flags_ok k ((d_sequencer d)\<lparr>m_gatingSequenceCache := m\<rparr>) ((d_producers d)[i := p])"
    using ri_flags [OF inv] by (simp add: flags_ok_def eq calculateAvailabilityFlag_def)
  moreover have "\<forall>p' \<in> set ((d_producers d)[i := p]). producer_ok k (gating d) (m_cursor (d_sequencer d)) p'"
    using ri_producers [OF inv] p by (intro producers_update) auto
  moreover have "dependents (d\<lparr>d_sequencer := (d_sequencer d)\<lparr>m_gatingSequenceCache := m\<rparr>, d_entries := es,
    d_producers := (d_producers d)[i := p]\<rparr>) = dependents d" by (auto simp: dependents_def fun_eq_iff)
  moreover have "sequencer_ok k ((d_sequencer d)\<lparr>m_gatingSequenceCache := m\<rparr>)"
    using ri_sequencer [OF inv] by (simp add: sequencer_ok_def)
  moreover have "\<forall>t \<in> set (gating d). m \<le> t \<and> m_cursor (d_sequencer d) - 2 ^ k \<le> t"
    using m ri_gating [OF inv] by blast
  ultimately show ?thesis
    using ri_entries [OF inv] ri_stages [OF inv] ri_sent [OF inv] ri_stage [OF inv] len
    unfolding ring_inv_def by (simp add: pub)
qed

lemma cache_unchanged: "q\<lparr>m_gatingSequenceCache := m_gatingSequenceCache q\<rparr> = q"
  by simp

lemma claim_keeps_inv:
  assumes inv: "ring_inv k d" and i: "i < length (d_producers d)" and p: "d_producers d ! i = Swapping e current"
    and c: "m_cursor (d_sequencer d) = current"
  shows "ring_inv k (d\<lparr>d_sequencer := (d_sequencer d)\<lparr>m_cursor := current + 1\<rparr>,
    d_producers := (d_producers d)[i := Claimed e (current + 1)], d_sent := d_sent d @ [e]\<rparr>)" (is "ring_inv k ?d")
proof -
  let ?ps = "d_producers d" and ?q = "d_sequencer d" and ?q' = "(d_sequencer d)\<lparr>m_cursor := current + 1\<rparr>"
  let ?ps' = "?ps[i := Claimed e (current + 1)]"
  have room: "\<forall>t \<in> set (gating d). current + 1 - 2 ^ k \<le> t"
    using ri_producers [OF inv nth_mem [OF i]] by (simp add: p)
  have old: "s \<le> current" if "pending ?ps s" for s
  proof -
    obtain x where "x \<in> set ?ps" "claim_of x = Some s" using \<open>pending ?ps s\<close> by (auto simp: pending_def)
    then show ?thesis using claim_bounds [OF ri_producers [OF inv]] c by blast
  qed
  have pend: "pending ?ps' s \<longleftrightarrow> s = current + 1 \<or> pending ?ps s" for s
    using pending_update [OF i, of "Claimed e (current + 1)" s] pending_split [OF i, of s] by (auto simp: p)
  have fresh: "published ?q ?ps (current + 1 - 2 ^ k)" by (rule old_published [OF inv room])
  have pub: "published ?q ?ps \<le> published ?q' ?ps'" by (simp add: published_def pend le_fun_def c)
  have deps: "list_all2 (\<le>) (dependents d j) (dependents ?d j)" for j
    by (cases "j = 0") (simp_all add: dependents_def list_all2_refl c)
  have stages: "stage_ok (published ?q' ?ps') (dependents ?d j) (d_stages d ! j)" if "j < length (d_stages d)" for j
    by (rule stage_ok_mono [OF pub deps ri_stage [OF inv that]])
  have "m_availableBuffer ?q ! nat (s mod 2 ^ k) = calculateAvailabilityFlag ?q (if pending ?ps' s then s - 2 ^ k else s)"
    if s: "current + 1 - 2 ^ k < s" "s \<le> current + 1" for s
  proof (cases "s = current + 1")
    case True
    have "(current + 1) mod 2 ^ k = (current + 1 - 2 ^ k) mod 2 ^ k" by (simp add: mod_diff_right_eq [symmetric])
    moreover have "m_availableBuffer ?q ! nat ((current + 1 - 2 ^ k) mod 2 ^ k) = calculateAvailabilityFlag ?q (current + 1 - 2 ^ k)"
      using ri_flags [OF inv, unfolded flags_ok_def, rule_format, of "current + 1 - 2 ^ k"] fresh c
      by (simp add: published_def)
    ultimately show ?thesis using True by (simp add: pend)
  next
    case False
    then show ?thesis using s c ri_flags [OF inv] by (auto simp: flags_ok_def pend)
  qed
  then have flags: "flags_ok k ?q' ?ps'" by (simp add: flags_ok_def calculateAvailabilityFlag_def)
  have claims: "one_claim ?ps'"
    using old pending_split [OF i] by (intro one_claim_update [OF ri_claims [OF inv] i]) force
  have "producer_ok k (gating d) (current + 1) x" if "x \<in> set ?ps" for x
    using producer_ok_mono [OF ri_producers [OF inv that], of "gating d" "current + 1"] c by (simp add: list_all2_refl)
  moreover have "0 \<le> current + 1" using ri_sent [OF inv] c by simp
  ultimately have "\<forall>x \<in> set ?ps'. producer_ok k (gating d) (current + 1) x"
    by (intro producers_update) auto
  moreover have "\<forall>t \<in> set (gating d). m_gatingSequenceCache ?q \<le> t \<and> current + 1 - 2 ^ k \<le> t"
    using ri_cache [OF inv] room by blast
  moreover have "sequencer_ok k ?q'" using ri_sequencer [OF inv] by (simp add: sequencer_ok_def)
  ultimately show ?thesis
    using ri_entries [OF inv] ri_stages [OF inv] ri_sent [OF inv] stages flags claims c
    unfolding ring_inv_def by simp
qed

lemma publish_keeps_inv:
  assumes inv: "ring_inv k d" and i: "i < length (d_producers d)" and p: "d_producers d ! i = Filled s"
  shows "ring_inv k (d\<lparr>d_sequencer := setAvailable s (d_sequencer d), d_producers := (d_producers d)[i := Idle]\<rparr>)"
    (is "ring_inv k ?d")
proof -
  let ?ps = "d_producers d" and ?q = "d_sequencer d" and ?q' = "setAvailable s (d_sequencer d)" and ?ps' = "(d_producers d)[i := Idle]"
  have pend_s: "pending ?ps s" using i p by (auto simp: pending_def in_set_conv_nth intro!: bexI [of _ "?ps ! i"])
  have win: "m_cursor ?q - 2 ^ k < s" by (rule pending_in_window [OF inv pend_s])
  have le: "s \<le> m_cursor ?q" using ri_producers [OF inv nth_mem [OF i]] by (simp add: p)
  have pend: "pending ?ps' t \<longleftrightarrow> pending ?ps t \<and> t \<noteq> s" for t
    using pending_update [OF i, of Idle t] pending_split [OF i, of t] one_claimD [OF ri_claims [OF inv] i]
    by (auto simp: p)
  have cur: "m_cursor ?q' = m_cursor ?q" by (simp add: setAvailable_def)
  have idx: "calculateIndex ?q s = s mod 2 ^ k" by (rule calculateIndex_mod [OF ri_sequencer [OF inv]])
  have "m_availableBuffer ?q' ! nat (t mod 2 ^ k) = calculateAvailabilityFlag ?q (if pending ?ps' t then t - 2 ^ k else t)"
    if t: "m_cursor ?q - 2 ^ k < t" "t \<le> m_cursor ?q" for t
  proof (cases "t = s")
    case True
    have "nat (s mod 2 ^ k) < 2 ^ k" by (simp add: nat_less_iff)
    then show ?thesis
      using True ri_sequencer [OF inv] by (simp add: setAvailable_def idx pend sequencer_ok_def)
  next
    case False
    then have "nat (s mod 2 ^ k) \<noteq> nat (t mod 2 ^ k)" using same_slot [of s k t "m_cursor ?q"] win le t
      by (auto simp: eq_nat_nat_iff)
    then show ?thesis
      using False t ri_flags [OF inv] by (simp add: setAvailable_def idx pend flags_ok_def)
  qed
  then have flags: "flags_ok k ?q' ?ps'" by (simp add: flags_ok_def cur) (simp add: setAvailable_def calculateAvailabilityFlag_def)
  have pub: "published ?q ?ps \<le> published ?q' ?ps'" by (simp add: published_def pend le_fun_def cur)
  have deps: "list_all2 (\<le>) (dependents d j) (dependents ?d j)" for j
    by (cases "j = 0") (simp_all add: dependents_def list_all2_refl cur)
  have stages: "stage_ok (published ?q' ?ps') (dependents ?d j) (d_stages d ! j)" if "j < length (d_stages d)" for j
    by (rule stage_ok_mono [OF pub deps ri_stage [OF inv that]])
  have claims: "one_claim ?ps'" using i by (intro one_claim_update [OF ri_claims [OF inv]]) auto
  have "\<forall>x \<in> set ?ps'. producer_ok k (gating d) (m_cursor ?q) x"
    using ri_producers [OF inv] by (intro producers_update) auto
  moreover have "sequencer_ok k ?q'" using ri_sequencer [OF inv] by (simp add: sequencer_ok_def setAvailable_def)
  moreover have "\<forall>t \<in> set (gating d). m_gatingSequenceCache ?q' \<le> t \<and> m_cursor ?q' - 2 ^ k \<le> t"
    using ri_cache [OF inv] ri_gating [OF inv] cur by (simp add: setAvailable_def)
  ultimately show ?thesis
    using ri_entries [OF inv] ri_stages [OF inv] ri_sent [OF inv] stages flags claims cur
    unfolding ring_inv_def by simp
qed

lemma produce_keeps_inv:
  assumes inv: "ring_inv k d" and i: "i < length (d_producers d)" and p: "d_producers d ! i = p"
    and step: "producer_step (gating d) (d_sequencer d) (d_entries d) p = (q, es, p')"
  shows "ring_inv k (d\<lparr>d_sequencer := q, d_entries := es, d_producers := (d_producers d)[i := p'],
    d_sent := d_sent d @ claimed_event p p'\<rparr>)"
proof -
  have ok: "producer_ok k (gating d) (m_cursor (d_sequencer d)) p" using ri_producers [OF inv nth_mem [OF i]] by (simp add: p)
  have size: "m_bufferSize (d_sequencer d) = 2 ^ k" using ri_sequencer [OF inv] by (simp add: sequencer_ok_def)
  have keep: "ring_inv k (d\<lparr>d_sequencer := (d_sequencer d)\<lparr>m_gatingSequenceCache := m\<rparr>, d_entries := es',
      d_producers := (d_producers d)[i := x]\<rparr>)"
    if "claim_of x = claim_of p" "producer_ok k (gating d) (m_cursor (d_sequencer d)) x" "length es' = length (d_entries d)"
      "\<forall>t \<in> set (gating d). m \<le> t" for x es' m
    using producer_replaced [OF inv i _ that(2,3,4)] that(1) by (simp add: p)
  have same: "ring_inv k (d\<lparr>d_producers := (d_producers d)[i := x]\<rparr>)"
    if "claim_of x = claim_of p" "producer_ok k (gating d) (m_cursor (d_sequencer d)) x" for x
    using keep [OF that refl, of "m_gatingSequenceCache (d_sequencer d)"] ri_cache [OF inv] by simp
  show ?thesis
  proof (cases p)
    case Idle
    then show ?thesis using step same [of Idle] by auto
  next
    case (Entering e)
    then show ?thesis using step same [of "Loaded e (m_cursor (d_sequencer d))"] by auto
  next
    case (Loaded e current)
    show ?thesis
    proof (cases "cache_refuses (d_sequencer d) 1 current (m_gatingSequenceCache (d_sequencer d))")
      case True
      then show ?thesis using step same [of "Scanning e current 0 current"] ok Loaded by auto
    next
      case False
      then have "current + 1 - 2 ^ k \<le> m_gatingSequenceCache (d_sequencer d)" by (simp add: cache_refuses_def size)
      then have "\<forall>t \<in> set (gating d). current + 1 - 2 ^ k \<le> t" using ri_cache [OF inv] by (meson order.trans)
      then show ?thesis using step same [of "Swapping e current"] ok Loaded False by auto
    qed
  next
    case (Scanning e current j m)
    show ?thesis
    proof (cases "j < length (gating d)")
      case True
      let ?m = "if gating d ! j < m then gating d ! j else m"
      have eq: "q = d_sequencer d" "es = d_entries d" "p' = Scanning e current (j + 1) ?m"
        using step by (simp_all add: Scanning True)
      have "?m \<le> gating d ! a" if "a < j + 1" "a < length (gating d)" for a
      proof (cases "a = j")
        case False
        then have "m \<le> gating d ! a" using that ok Scanning by simp
        then show ?thesis by simp
      qed simp
      then have "producer_ok k (gating d) (m_cursor (d_sequencer d)) p'" using ok Scanning by (simp add: eq(3))
      then show ?thesis using same [of p'] by (simp add: eq Scanning)
    next
      case False
      then have m: "\<forall>t \<in> set (gating d). m \<le> t" using ok Scanning by (auto simp: in_set_conv_nth)
      have "q = d_sequencer d" "es = d_entries d" "p' = Entering e \<or> p' = Caching e current m"
        using step False by (auto simp: Scanning split: if_splits)
      then show ?thesis using same [of "Entering e"] same [of "Caching e current m"] m by (auto simp: Scanning)
    qed
  next
    case (Caching e current m)
    then have "q = (d_sequencer d)\<lparr>m_gatingSequenceCache := m\<rparr>" "es = d_entries d" "p' = Entering e" using step by auto
    then show ?thesis using keep [of "Entering e" "d_entries d" m] ok by (simp add: Caching)
  next
    case (Swapping e current)
    show ?thesis
    proof (cases "m_cursor (d_sequencer d) = current")
      case True
      then have "q = (d_sequencer d)\<lparr>m_cursor := current + 1\<rparr>" "es = d_entries d" "p' = Claimed e (current + 1)"
        using step by (auto simp: Swapping)
      then show ?thesis using claim_keeps_inv [OF inv i _ True] p by (simp add: Swapping)
    next
      case False
      then have "q = d_sequencer d" "es = d_entries d" "p' = Entering e" using step by (auto simp: Swapping)
      then show ?thesis using same [of "Entering e"] by (simp add: Swapping)
    qed
  next
    case (Claimed e s)
    let ?es = "(d_entries d)[nat (calculateIndex (d_sequencer d) s) := e]"
    have "q = d_sequencer d" "es = ?es" "p' = Filled s" using step by (auto simp: Claimed)
    then show ?thesis
      using ok ri_cache [OF inv] keep [of "Filled s" ?es "m_gatingSequenceCache (d_sequencer d)"] by (simp add: Claimed)
  next
    case (Filled s)
    then have "q = setAvailable s (d_sequencer d)" "es = d_entries d" "p' = Idle" using step by auto
    then show ?thesis using publish_keeps_inv [OF inv i, of s] p by (simp add: Filled)
  qed
qed

lemma submit_keeps_inv:
  assumes inv: "ring_inv k d" and i: "i < length (d_producers d)" and p: "d_producers d ! i = Idle"
  shows "ring_inv k (d\<lparr>d_producers := (d_producers d)[i := Entering e]\<rparr>)"
proof -
  have "ring_inv k (d\<lparr>d_sequencer := (d_sequencer d)\<lparr>m_gatingSequenceCache := m_gatingSequenceCache (d_sequencer d)\<rparr>,
      d_entries := d_entries d, d_producers := (d_producers d)[i := Entering e]\<rparr>)"
    using ri_cache [OF inv] by (intro producer_replaced [OF inv i]) (auto simp: p)
  then show ?thesis by simp
qed

lemma step_keeps_inv:
  assumes "disruptor_step on_event on_work d d'" "ring_inv k d"
  shows "ring_inv k d'"
  using assms(1)
proof cases
  case (submit i e)
  show ?thesis unfolding submit(1) by (rule submit_keeps_inv [OF assms(2) submit(2,3)])
next
  case (produce i p q es p')
  show ?thesis unfolding produce(1) by (rule produce_keeps_inv [OF assms(2) produce(2-4)])
next
  case (handle i b es b')
  show ?thesis unfolding handle(1) by (rule handle_keeps_inv [OF assms(2) handle(2-4)])
next
  case (work i ws xs j es ws' x')
  show ?thesis unfolding work(1) by (rule work_keeps_inv [OF assms(2) work(2-5)])
qed

subsection \<open>The start\<close>

lemma new_stage_facts:
  "stage_sequences (new_stage g :: ('e, 'h) stage) \<noteq> []"
  "\<forall>t \<in> set (stage_sequences (new_stage g :: ('e, 'h) stage)). t = -1"
  by (cases g; simp)+

lemma new_stage_ok:
  assumes "\<And>s. s < 0 \<Longrightarrow> P s" "\<forall>t \<in> set deps. -1 \<le> t"
  shows "stage_ok P deps (new_stage g)"
proof -
  have "ready P deps s" if "s < 0" for s using assms that by (fastforce simp: ready_def)
  then show ?thesis by (cases g) (auto simp: worker_ok_def one_holder_def)
qed

lemma start_gating:
  "t \<in> set (getLastSequenceInChain True (map new_stage gs :: ('e, 'h) stage list)) \<Longrightarrow> t = -1"
proof (induction gs)
  case (Cons g gs)
  show ?case
  proof (cases gs)
    case Nil
    then show ?thesis using Cons.prems new_stage_facts(2) [where ?'e = 'e and ?'h = 'h] by auto
  next
    case (Cons g' gs')
    have "t \<in> set (stage_sequences (new_stage g :: ('e, 'h) stage)) \<or>
        t \<in> set (getLastSequenceInChain True (map new_stage gs :: ('e, 'h) stage list))"
      using Cons.prems Cons by (cases g') auto
    then show ?thesis using Cons.IH new_stage_facts(2) [where ?'e = 'e and ?'h = 'h] by blast
  qed
qed simp

lemma start_inv:
  assumes "start_disruptor bufferSize e groups n = Some (d :: ('e, 'h) disruptor)" "groups \<noteq> []" "bufferSize < 2 ^ 31"
  shows "\<exists>k. ring_inv k d \<and> bufferSize = 2 ^ k"
proof -
  from assms(1) have power: "isPowerOf2 bufferSize"
    by (auto simp: start_disruptor_def MultiProducerSequencer_def bind_eq_Some_conv split: if_splits)
  then obtain k where k: "bufferSize = 2 ^ k" using isPowerOf2_exp by blast
  have "(2 :: int) ^ k < 2 ^ 31" using assms(3) by (simp only: k)
  then have k30: "k \<le> 30" using power_less_imp_less_exp [of "2 :: int" k 31] by simp
  let ?q = "\<lparr>m_bufferSize = 2 ^ k, m_cursor = -1, m_gatingSequenceCache = -1,
    m_availableBuffer = replicate (2 ^ k) (-1), m_indexMask = 2 ^ k - 1, m_indexShift = k\<rparr>"
  have d: "d = \<lparr>d_sequencer = ?q, d_entries = replicate (2 ^ k) e, d_producers = replicate n Idle,
      d_stages = map new_stage groups, d_sent = [], d_calls = []\<rparr>"
    using assms(1) k by (auto simp: start_disruptor_def MultiProducerSequencer_def bind_eq_Some_conv nat_power_eq split: if_splits)
  have q: "sequencer_ok k ?q" using k30 by (simp add: sequencer_ok_def)
  let ?ps = "replicate n Idle :: 'e producer list"
  have none: "\<not> pending ?ps s" for s by (auto simp: pending_def)
  have "m_availableBuffer ?q ! nat (s mod 2 ^ k) = calculateAvailabilityFlag ?q s" if "-1 - 2 ^ k < s" "s \<le> -1" for s
  proof -
    have "s div 2 ^ k = -1" using that by (intro int_div_pos_eq [where r = "s + 2 ^ k"]) auto
    moreover have "nat (s mod 2 ^ k) < 2 ^ k" by (simp add: nat_less_iff)
    ultimately show ?thesis by (simp add: calculateAvailabilityFlag_div [OF q] wrap32_def)
  qed
  then have flags: "flags_ok k ?q ?ps" by (simp add: flags_ok_def none)
  have deps: "\<forall>t \<in> set (dependents d i). -1 \<le> t" if "i < length groups" for i
    using that new_stage_facts(2) [where ?'e = 'e and ?'h = 'h, of "groups ! (i - 1)"]
    by (cases "i = 0") (simp_all add: d dependents_def)
  have "stage_ok (published ?q ?ps) (dependents d i) (d_stages d ! i)" if "i < length groups" for i
    using new_stage_ok [OF _ deps [OF that], of "published ?q ?ps" "groups ! i"] that
    by (simp add: d published_def none)
  then have stages: "\<forall>i < length (d_stages d). stage_ok (published (d_sequencer d) (d_producers d)) (dependents d i) (d_stages d ! i)"
    by (simp add: d)
  have "t = -1" if "t \<in> set (gating d)" for t using that start_gating by (simp add: d)
  then have "\<forall>t \<in> set (gating d). m_gatingSequenceCache (d_sequencer d) \<le> t \<and> m_cursor (d_sequencer d) - 2 ^ k \<le> t"
    by (force simp: d)
  moreover have "one_claim (d_producers d)" by (simp add: d one_claim_def)
  ultimately have "ring_inv k d"
    using q flags assms(2) stages unfolding ring_inv_def by (simp add: d)
  then show ?thesis using k by blast
qed

end
