(* ===== verification/RingPipeline.thy ===== *)
theory RingPipeline
  imports RingRun
begin

text \<open>
  What the handlers of a disruptor see.  The reference is a single thread that gives the events one after the
  other to the first group, then all results to the second group, and so on.  Every call of a handler in a run of the
  disruptor gets the event the reference gives it, once, after the group before it, and a group with one
  handler gets them in the order of their sequences.
\<close>

section \<open>The reference\<close>

primrec handler_states :: "('e, 'h) event_handler \<Rightarrow> 'h \<Rightarrow> (nat \<Rightarrow> 'e) \<Rightarrow> nat \<Rightarrow> 'h" where
  "handler_states f h input 0 = h"
| "handler_states f h input (Suc n) = fst (snd (f (handler_states f h input n) (int n) (input n)))"

fun group_output :: "('e, 'h) event_handler \<Rightarrow> 'e work_handler \<Rightarrow> 'h group \<Rightarrow> (nat \<Rightarrow> 'e) \<Rightarrow> nat \<Rightarrow> 'e" where
  "group_output f g (Handler h) input n = fst (f (handler_states f h input n) (int n) (input n))"
| "group_output f g (Workers m) input n = g (int n) (input n)"

primrec group_input :: "(nat \<Rightarrow> ('e, 'h) event_handler) \<Rightarrow> (nat \<Rightarrow> 'e work_handler) \<Rightarrow> 'h group list \<Rightarrow> (nat \<Rightarrow> 'e) \<Rightarrow>
    nat \<Rightarrow> nat \<Rightarrow> 'e" where
  "group_input on_event on_work groups sent 0 = sent"
| "group_input on_event on_work groups sent (Suc i) =
     group_output (on_event i) (on_work i) (groups ! i) (group_input on_event on_work groups sent i)"

lemma handler_states_cong: "(\<And>m. m < n \<Longrightarrow> x m = y m) \<Longrightarrow> handler_states f h x n = handler_states f h y n"
  by (induction n) auto

lemma group_output_cong:
  assumes "\<And>m. m \<le> n \<Longrightarrow> x m = y m"
  shows "group_output f g gr x n = group_output f g gr y n"
proof (cases gr)
  case (Handler h)
  have "handler_states f h x n = handler_states f h y n" by (rule handler_states_cong) (simp add: assms)
  then show ?thesis by (simp add: Handler assms)
qed (simp add: assms)

lemma group_input_cong:
  "(\<And>m. m \<le> n \<Longrightarrow> x m = y m) \<Longrightarrow> group_input oe ow gs x i n = group_input oe ow gs y i n"
proof (induction i arbitrary: n)
  case (Suc i)
  have "group_input oe ow gs x i m = group_input oe ow gs y i m" if "m \<le> n" for m
    using Suc.prems that by (intro Suc.IH) auto
  then show ?case by (simp only: group_input.simps) (rule group_output_cong)
qed simp

section \<open>What a step of a consumer does to its group\<close>

fun working :: "('e, 'h) stage \<Rightarrow> (int \<times> 'e) set" where
  "working (Batch b) = {(s, e). s = bp_next b \<and> (\<exists>a. bp_place b = Batch_event a e)}"
| "working (Pool ws xs) = {(s, e). \<exists>x \<in> set xs. s = wp_next x \<and> wp_place x = Work_event e}"

text \<open>
  A step is quiet, calls a handler, or ends a call; \<^verbatim>\<open>out\<close> is the result of the handler.
\<close>

inductive stage_change :: "(int \<Rightarrow> bool) \<Rightarrow> (int \<Rightarrow> nat) \<Rightarrow> (int \<Rightarrow> 'e \<Rightarrow> 'e) \<Rightarrow> ('e, 'h) stage \<Rightarrow> 'e list \<Rightarrow>
    'e list \<Rightarrow> ('e, 'h) stage \<Rightarrow> (int \<times> 'e) list \<Rightarrow> bool"
  for R slot out st es where
  quiet: "working st' = working st \<Longrightarrow> stage_done st' = stage_done st \<Longrightarrow> stage_change R slot out st es es st' []"
| begins: "R s \<Longrightarrow> 0 \<le> s \<Longrightarrow> \<not> stage_done st s \<Longrightarrow> (\<And>e. (s, e) \<notin> working st) \<Longrightarrow> e = es ! slot s \<Longrightarrow>
     working st' = insert (s, e) (working st) \<Longrightarrow> stage_done st' = stage_done st \<Longrightarrow>
     stage_change R slot out st es es st' [(s, e)]"
| finishes: "(s, e) \<in> working st \<Longrightarrow> R s \<Longrightarrow> 0 \<le> s \<Longrightarrow> \<not> stage_done st s \<Longrightarrow>
     working st' = {w \<in> working st. fst w \<noteq> s} \<Longrightarrow> stage_done st' = (\<lambda>t. stage_done st t \<or> t = s) \<Longrightarrow>
     es' = es[slot s := out s e] \<Longrightarrow> stage_change R slot out st es es' st' []"

lemma batch_change:
  fixes b :: "('e, 'h) batch_processor"
  assumes ok: "stage_ok P deps (Batch b :: ('e, 'h) stage)"
    and step: "batch_step f q deps es b = (es', b')"
  shows "stage_change (ready P deps) (\<lambda>s. nat (calculateIndex q s)) (\<lambda>s e. fst (f (bp_handler b) s e))
    (Batch b :: ('e, 'h) stage) es es' (Batch b') (map snd (batch_call i (bp_next b) (bp_place b) (bp_place b')))"
proof (cases "bp_place b")
  case Batch_run
  then show ?thesis using ok step by (auto simp: batch_step_def fun_eq_iff intro!: quiet)
next
  case (Batch_wait w)
  then show ?thesis using step
    by (auto simp: batch_step_def fun_eq_iff split: sum.splits intro!: quiet)
next
  case (Batch_loop a)
  show ?thesis
  proof (cases "bp_next b \<le> a")
    case True
    then have "es' = es" "b' = b\<lparr>bp_place := Batch_event a (es ! nat (calculateIndex q (bp_next b)))\<rparr>"
      using step Batch_loop by (auto simp: batch_step_def)
    moreover have "ready P deps (bp_next b)" "0 \<le> bp_next b" using ok Batch_loop True by auto
    ultimately show ?thesis using Batch_loop by (auto simp: fun_eq_iff intro!: begins)
  next
    case False
    then show ?thesis using step Batch_loop by (auto simp: batch_step_def fun_eq_iff intro!: quiet)
  qed
next
  case (Batch_event a e)
  obtain e' h threw where f: "f (bp_handler b) (bp_next b) e = (e', h, threw)" by (metis prod_cases3)
  have r: "ready P deps (bp_next b)" "0 \<le> bp_next b" using ok Batch_event by auto
  have new: "es' = es[nat (calculateIndex q (bp_next b)) := e']" "bp_next b' = bp_next b + 1"
    "\<And>a e. bp_place b' \<noteq> Batch_event a e"
    using step Batch_event f by (auto simp: batch_step_def split: if_splits)
  have "map snd (batch_call i (bp_next b) (bp_place b) (bp_place b')) = []" by (simp add: Batch_event)
  moreover have "stage_change (ready P deps) (\<lambda>s. nat (calculateIndex q s)) (\<lambda>s e. fst (f (bp_handler b) s e))
      (Batch b :: ('e, 'h) stage) es es' (Batch b') []"
    using r new Batch_event f by (intro finishes [of "bp_next b" e]) auto
  ultimately show ?thesis by simp
qed

lemma working_split:
  assumes "j < length xs"
  shows "(s, e) \<in> working (Pool ws xs) \<longleftrightarrow> s = wp_next (xs ! j) \<and> wp_place (xs ! j) = Work_event e \<or>
     (\<exists>i < length xs. i \<noteq> j \<and> s = wp_next (xs ! i) \<and> wp_place (xs ! i) = Work_event e)"
proof -
  have "(s, e) \<in> working (Pool ws xs) \<longleftrightarrow> (\<exists>i < length xs. s = wp_next (xs ! i) \<and> wp_place (xs ! i) = Work_event e)"
    by (simp add: in_set_conv_nth Bex_def) metis
  then show ?thesis using assms by metis
qed

lemma working_update:
  assumes "j < length xs"
  shows "(s, e) \<in> working (Pool ws (xs[j := x'])) \<longleftrightarrow> s = wp_next x' \<and> wp_place x' = Work_event e \<or>
     (\<exists>i < length xs. i \<noteq> j \<and> s = wp_next (xs ! i) \<and> wp_place (xs ! i) = Work_event e)"
  using assms working_split [of j "xs[j := x']" s e ws] by (auto simp del: working.simps)

lemma quiet_worker:
  fixes ws ws' :: int
  assumes hold: "hold_step P deps ws (xs ! j) ws' x'" and ok: "stage_ok P deps (Pool ws xs :: ('e, 'h) stage)"
    and j: "j < length xs" and keep: "\<not> (holds (wp_place (xs ! j)) \<and> \<not> holds (wp_place x'))"
    and idle: "\<And>e. wp_place (xs ! j) \<noteq> Work_event e" "\<And>e. wp_place x' \<noteq> Work_event e"
  shows "stage_change R slot out (Pool ws xs :: ('e, 'h) stage) es es (Pool ws' (xs[j := x'])) []"
proof (rule quiet)
  let ?old = "Pool ws xs :: ('e, 'h) stage" and ?new = "Pool ws' (xs[j := x']) :: ('e, 'h) stage"
  have one: "one_holder xs" using ok by simp
  have "stage_done ?new s \<longleftrightarrow> stage_done ?old s" for s
    using pool_done_update [where ?'h = 'h, OF hold one j pool_holders [OF ok], of s] keep by blast
  then show "stage_done ?new = stage_done ?old" by (rule ext)
  show "working ?new = working ?old"
    by (rule set_eqI, rule prod.induct, subst working_update [OF j], subst working_split [OF j]) (use idle in blast)
qed

lemma work_change:
  assumes ok: "stage_ok P deps (Pool ws xs :: ('e, 'h) stage)" and j: "j < length xs"
    and hold: "hold_step P deps ws (xs ! j) ws' x'"
    and step: "work_step f q deps es ws (xs ! j) = (es', ws', x')"
  shows "stage_change (ready P deps) (\<lambda>s. nat (calculateIndex q s)) f
    (Pool ws xs :: ('e, 'h) stage) es es' (Pool ws' (xs[j := x'])) (map snd (work_call i (wp_next (xs ! j)) (wp_place (xs ! j)) (wp_place x')))"
proof -
  let ?x = "xs ! j" and ?R = "ready P deps" and ?slot = "\<lambda>s. nat (calculateIndex q s)"
  let ?old = "Pool ws xs :: ('e, 'h) stage" and ?new = "Pool ws' (xs[j := x']) :: ('e, 'h) stage"
  have xok: "worker_ok P deps ws ?x" and one: "one_holder xs" using ok j by auto
  note quiet' = quiet_worker [OF hold ok j, of ?R ?slot f es]
  have update: "stage_done ?new s \<longleftrightarrow>
      stage_done ?old s \<or> (holds (wp_place ?x) \<and> \<not> holds (wp_place x') \<and> s = wp_next ?x)" for s
    by (rule pool_done_update [OF hold one j pool_holders [OF ok]])
  have others: "wp_next (xs ! i) \<noteq> wp_next ?x" if "i < length xs" "i \<noteq> j" "wp_place (xs ! i) = Work_event e" "holds (wp_place ?x)" for i e
    using one that j by (simp add: one_holder_def)
  have undone: "\<not> stage_done ?old (wp_next ?x)" if "holds (wp_place ?x)" using that j by auto
  show ?thesis
  proof (cases "wp_place ?x")
    case Work_load
    then show ?thesis using quiet' step by (auto simp: work_step_def)
  next
    case Work_set
    then show ?thesis using quiet' step by (auto simp: work_step_def)
  next
    case Work_swap
    then show ?thesis using quiet' step by (auto simp: work_step_def split: if_splits)
  next
    case (Work_wait v)
    then show ?thesis using quiet' step by (auto simp: work_step_def split: sum.splits)
  next
    case Work_check
    show ?thesis
    proof (cases "wp_next ?x \<le> wp_cached ?x")
      case False
      then show ?thesis using quiet' step Work_check by (auto simp: work_step_def)
    next
      case True
      let ?e = "es ! nat (calculateIndex q (wp_next ?x))"
      have eq: "es' = es" "ws' = ws" "x' = ?x\<lparr>wp_place := Work_event ?e\<rparr>"
        using step Work_check True by (auto simp: work_step_def)
      have new: "wp_next x' = wp_next ?x" "wp_place x' = Work_event ?e" by (simp_all add: eq)
      have r: "ready P deps (wp_next ?x)" "0 \<le> wp_next ?x" using xok True Work_check by (auto simp: worker_ok_def)
      have fresh: "(wp_next ?x, e) \<notin> working ?old" for e
        by (subst working_split [OF j]) (use others Work_check in force)
      have "working ?new = insert (wp_next ?x, ?e) (working ?old)"
        by (rule set_eqI, rule prod.induct, subst working_update [OF j], subst insert_iff, subst working_split [OF j])
          (use Work_check new in auto)
      moreover have "stage_done ?new = stage_done ?old"
        by (rule ext, subst update) (use new in simp)
      moreover have "\<not> stage_done ?old (wp_next ?x)" using undone Work_check by simp
      ultimately have "stage_change ?R ?slot f ?old es es ?new [(wp_next ?x, ?e)]"
        using r fresh by (intro begins [where R = ?R and s = "wp_next ?x"] refl)
      then show ?thesis using Work_check new eq(1) by simp
    qed
  next
    case (Work_event e)
    have eq: "es' = es[nat (calculateIndex q (wp_next ?x)) := f (wp_next ?x) e]" "ws' = ws" "x' = ?x\<lparr>wp_place := Work_load\<rparr>"
      using step Work_event by (auto simp: work_step_def)
    have new: "wp_place x' = Work_load" by (simp add: eq)
    have r: "ready P deps (wp_next ?x)" "0 \<le> wp_next ?x" using xok Work_event by (auto simp: worker_ok_def)
    have w: "(wp_next ?x, e) \<in> working ?old" by (subst working_split [OF j]) (use Work_event in simp)
    have "working ?new = {w \<in> working ?old. fst w \<noteq> wp_next ?x}"
      by (rule set_eqI, rule prod.induct, subst working_update [OF j], subst mem_Collect_eq, subst working_split [OF j])
        (use Work_event new others in fastforce)
    moreover have "stage_done ?new = (\<lambda>t. stage_done ?old t \<or> t = wp_next ?x)"
      by (rule ext, subst update) (use Work_event new in simp)
    moreover have "\<not> stage_done ?old (wp_next ?x)" using undone Work_event by simp
    ultimately have "stage_change ?R ?slot f ?old es es' ?new []"
      using w r eq(1) by (intro finishes [where R = ?R and s = "wp_next ?x"])
    then show ?thesis using Work_event by simp
  qed
qed

section \<open>Events in the slots\<close>

definition level :: "('e, 'h) stage list \<Rightarrow> int \<Rightarrow> nat \<Rightarrow> bool" where
  "level sts s i \<longleftrightarrow> i \<le> length sts \<and> (\<forall>j < i. stage_done (sts ! j) s) \<and> (i < length sts \<longrightarrow> \<not> stage_done (sts ! i) s)"

definition unwritten :: "'e producer list \<Rightarrow> int \<Rightarrow> bool" where
  "unwritten ps s \<longleftrightarrow> (\<exists>e. Claimed e s \<in> set ps)"

fun group_ok :: "('e, 'h) event_handler \<Rightarrow> 'h group \<Rightarrow> (nat \<Rightarrow> 'e) \<Rightarrow> ('e, 'h) stage \<Rightarrow> bool" where
  "group_ok f (Handler h) input (Batch b) = (bp_handler b = handler_states f h input (nat (bp_next b)))"
| "group_ok f (Workers n) input (Pool ws xs) = True"
| "group_ok f g input st = False"

definition slots_ok :: "nat \<Rightarrow> (nat \<Rightarrow> nat \<Rightarrow> 'e) \<Rightarrow> ('e, 'h) disruptor \<Rightarrow> bool" where
  "slots_ok k inputs d \<longleftrightarrow> (\<forall>s i. 0 \<le> s \<and> m_cursor (d_sequencer d) - 2 ^ k < s \<and> s \<le> m_cursor (d_sequencer d) \<and>
     \<not> unwritten (d_producers d) s \<and> level (d_stages d) s i \<longrightarrow> d_entries d ! nat (s mod 2 ^ k) = inputs i (nat s))"

definition data_inv :: "(nat \<Rightarrow> ('e, 'h) event_handler) \<Rightarrow> (nat \<Rightarrow> 'e work_handler) \<Rightarrow> 'h group list \<Rightarrow> nat \<Rightarrow>
    ('e, 'h) disruptor \<Rightarrow> bool" where
  "data_inv on_event on_work groups k d \<longleftrightarrow>
    (let inputs = group_input on_event on_work groups (nth (d_sent d)) in
     length (d_stages d) = length groups \<and>
     (\<forall>i < length groups. group_ok (on_event i) (groups ! i) (inputs i) (d_stages d ! i) \<and>
        (\<forall>(s, e) \<in> working (d_stages d ! i). e = inputs i (nat s))) \<and>
     (\<forall>e s. Claimed e s \<in> set (d_producers d) \<longrightarrow> e = d_sent d ! nat s) \<and> slots_ok k inputs d)"

lemma data_inv_parts:
  assumes "data_inv oe ow gs k d"
  shows di_length: "length (d_stages d) = length gs"
    and di_group: "i < length gs \<Longrightarrow> group_ok (oe i) (gs ! i) (group_input oe ow gs (nth (d_sent d)) i) (d_stages d ! i)"
    and di_working: "i < length gs \<Longrightarrow> (s, e) \<in> working (d_stages d ! i) \<Longrightarrow> e = group_input oe ow gs (nth (d_sent d)) i (nat s)"
    and di_claim: "Claimed e s \<in> set (d_producers d) \<Longrightarrow> e = d_sent d ! nat s"
    and di_slots: "slots_ok k (group_input oe ow gs (nth (d_sent d))) d"
  using assms unfolding data_inv_def Let_def by blast+

lemma unwritten_pending: "unwritten ps s \<Longrightarrow> pending ps s"
  by (force simp: unwritten_def pending_def)

lemma ready_level:
  assumes inv: "ring_inv k d" and i: "i < length (d_stages d)" and undone: "\<not> stage_done (d_stages d ! i) s"
    and r: "ready (published (d_sequencer d) (d_producers d)) (dependents d i) s"
  shows "level (d_stages d) s i" "m_cursor (d_sequencer d) - 2 ^ k < s" "s \<le> m_cursor (d_sequencer d)"
    "\<not> unwritten (d_producers d) s"
proof -
  have "stage_done (d_stages d ! j) s" if j: "j < i" for j
  proof -
    have "\<forall>t \<in> set (stage_sequences (d_stages d ! (i - 1))). s \<le> t" using r j by (simp add: ready_def dependents_def)
    then have "stage_done (d_stages d ! (i - 1)) s" using sequences_done ri_stage [OF inv] i by (metis less_imp_diff_less)
    then show ?thesis using done_earlier [OF inv, of "i - 1" s j] i j by simp
  qed
  then show "level (d_stages d) s i" using i undone by (simp add: level_def)
  show "m_cursor (d_sequencer d) - 2 ^ k < s" by (rule undone_in_window [OF inv i undone])
  show "s \<le> m_cursor (d_sequencer d)" "\<not> unwritten (d_producers d) s"
    using r unwritten_pending by (auto simp: ready_def published_def)
qed

lemma level_done:
  assumes inv: "ring_inv k d" and "level (d_stages d) s i" "j < length (d_stages d)"
  shows "stage_done (d_stages d ! j) s \<longleftrightarrow> j < i"
proof (cases "j < i")
  case True
  then show ?thesis using assms(2) by (simp add: level_def)
next
  case False
  then have "\<not> stage_done (d_stages d ! i) s" using assms(2,3) by (auto simp: level_def)
  then show ?thesis using done_earlier [OF inv assms(3), of s i] False by auto
qed

lemma level_unique:
  assumes "level sts s i" "level sts s i'"
  shows "i = i'"
proof -
  have "\<not> i < i'" "\<not> i' < i" using assms unfolding level_def by auto
  then show ?thesis by simp
qed

lemma level_cong:
  assumes "length sts' = length sts" "\<And>j. j < length sts \<Longrightarrow> stage_done (sts' ! j) s = stage_done (sts ! j) s"
  shows "level sts' s i = level sts s i"
  using assms unfolding level_def by (metis order.strict_trans2)

lemma level_same:
  assumes "i < length sts" "stage_done st = stage_done (sts ! i)"
  shows "level (sts[i := st]) s j = level sts s j"
  by (rule level_cong) (use assms in \<open>auto simp: nth_list_update\<close>)

lemma level_after:
  assumes inv: "ring_inv k d" and i: "i < length (d_stages d)" and l: "level (d_stages d) s i"
    and done_new: "stage_done st = (\<lambda>t. stage_done (d_stages d ! i) t \<or> t = s)"
    and l': "level ((d_stages d)[i := st]) t i'"
  shows "if t = s then i' = Suc i else level (d_stages d) t i'"
proof (cases "t = s")
  case True
  have "stage_done ((d_stages d)[i := st] ! j) s \<longleftrightarrow> j < Suc i" if "j < length (d_stages d)" for j
    using level_done [OF inv l that] i by (cases "j = i") (auto simp: done_new)
  then have "level ((d_stages d)[i := st]) s (Suc i)"
    using i unfolding level_def length_list_update by (meson Suc_leI less_irrefl order.strict_trans2)
  then show ?thesis using level_unique l' True by auto
next
  case False
  have "level ((d_stages d)[i := st]) t i' = level (d_stages d) t i'"
    by (rule level_cong) (use False i in \<open>auto simp: done_new nth_list_update\<close>)
  then show ?thesis using l' False by simp
qed

lemma consumer_data:
  assumes inv: "ring_inv k d" and data: "data_inv oe ow gs k d" and i: "i < length (d_stages d)"
    and change: "stage_change (ready (published (d_sequencer d) (d_producers d)) (dependents d i))
      (\<lambda>s. nat (calculateIndex (d_sequencer d) s)) out (d_stages d ! i) (d_entries d) es st call"
    and inputs: "inputs = group_input oe ow gs (nth (d_sent d))"
    and out: "\<And>s e. (s, e) \<in> working (d_stages d ! i) \<Longrightarrow> out s e = inputs (Suc i) (nat s)"
    and group: "group_ok (oe i) (gs ! i) (inputs i) st"
  shows "data_inv oe ow gs k (d\<lparr>d_entries := es, d_stages := (d_stages d)[i := st], d_calls := cs\<rparr>) \<and>
    (\<forall>(s, e) \<in> set call. e = inputs i (nat s))"
proof -
  let ?d = "d\<lparr>d_entries := es, d_stages := (d_stages d)[i := st], d_calls := cs\<rparr>"
  have idx: "calculateIndex (d_sequencer d) s = s mod 2 ^ k" for s by (rule calculateIndex_mod [OF ri_sequencer [OF inv]])
  note len = di_length [OF data] and slots = di_slots [OF data, folded inputs] and works = di_working [OF data, folded inputs]
    and groups = di_group [OF data, folded inputs] and claims = di_claim [OF data]
  have result: "slots_ok k inputs ?d \<and> (\<forall>(s, e) \<in> working st. e = inputs i (nat s)) \<and> (\<forall>(s, e) \<in> set call. e = inputs i (nat s))"
    using change
  proof cases
    case quiet
    have "level ((d_stages d)[i := st]) s j \<longleftrightarrow> level (d_stages d) s j" for s j
      using level_same [OF i] quiet by blast
    then show ?thesis using slots works i quiet by (auto simp: slots_ok_def len)
  next
    case (begins s e)
    have "level ((d_stages d)[i := st]) s j \<longleftrightarrow> level (d_stages d) s j" for s j
      using level_same [OF i] begins by blast
    moreover have "e = inputs i (nat s)"
      using slots ready_level [OF inv i begins(5,3)] begins(4,7) by (auto simp: slots_ok_def idx)
    ultimately show ?thesis using slots works i begins by (auto simp: slots_ok_def len)
  next
    case (finishes s e)
    note at = ready_level [OF inv i finishes(5,3)]
    have "es ! nat (t mod 2 ^ k) = inputs j (nat t)"
      if t: "0 \<le> t" "m_cursor (d_sequencer d) - 2 ^ k < t" "t \<le> m_cursor (d_sequencer d)" "\<not> unwritten (d_producers d) t"
        and l: "level ((d_stages d)[i := st]) t j" for t j
    proof (cases "t = s")
      case True
      then have "j = Suc i" using level_after [OF inv i at(1) finishes(7) l] by simp
      moreover have "nat (s mod 2 ^ k) < length (d_entries d)" using ri_entries [OF inv] by (simp add: nat_less_iff)
      ultimately show ?thesis using True out [OF finishes(2)] by (simp add: finishes(8) idx)
    next
      case False
      then have "nat (s mod 2 ^ k) \<noteq> nat (t mod 2 ^ k)"
        using same_slot [of s k t "m_cursor (d_sequencer d)"] at t by (auto simp: eq_nat_nat_iff)
      moreover have "level (d_stages d) t j" using level_after [OF inv i at(1) finishes(7) l] False by simp
      ultimately show ?thesis using slots t by (simp add: finishes(8) idx slots_ok_def)
    qed
    then show ?thesis using works i finishes by (auto simp: slots_ok_def len)
  qed
  have "group_ok (oe j) (gs ! j) (inputs j) ((d_stages d)[i := st] ! j) \<and> (\<forall>(s, e) \<in> working ((d_stages d)[i := st] ! j). e = inputs j (nat s))"
    if "j < length gs" for j
    using that result group groups works i by (cases "j = i") (auto simp: len)
  then show ?thesis
    using result claims len unfolding data_inv_def Let_def by (auto simp: inputs)
qed

lemma batch_group_ok:
  assumes "stage_ok P deps (Batch b :: ('e, 'h) stage)" "group_ok f (Handler h) input (Batch b)"
    and work: "\<And>s e. (s, e) \<in> working (Batch b :: ('e, 'h) stage) \<Longrightarrow> e = input (nat s)"
    and step: "batch_step f q deps es b = (es', b')"
  shows "group_ok f (Handler h) input (Batch b')"
proof (cases "bp_place b")
  case Batch_run
  then show ?thesis using assms(1,2) step by (auto simp: batch_step_def)
next
  case (Batch_wait w)
  then show ?thesis using assms(2) step by (auto simp: batch_step_def split: sum.splits)
next
  case (Batch_loop a)
  then show ?thesis using assms(2) step by (auto simp: batch_step_def split: if_splits)
next
  case (Batch_event a e)
  obtain e' h' threw where f: "f (bp_handler b) (bp_next b) e = (e', h', threw)" by (metis prod_cases3)
  have new: "bp_handler b' = h'" "bp_next b' = bp_next b + 1" using step Batch_event f by (auto simp: batch_step_def)
  have pos: "0 \<le> bp_next b" using assms(1) by simp
  have "e = input (nat (bp_next b))" using work Batch_event by simp
  then have "handler_states f h input (Suc (nat (bp_next b))) = h'" using assms(2) f pos by simp
  then show ?thesis using pos by (simp add: new nat_add_distrib)
qed

lemma handle_data:
  assumes inv: "ring_inv k d" and data: "data_inv oe ow gs k d" and i: "i < length (d_stages d)"
    and b: "d_stages d ! i = Batch b"
    and step: "batch_step (oe i) (d_sequencer d) (dependents d i) (d_entries d) b = (es, b')"
  shows "data_inv oe ow gs k (d\<lparr>d_entries := es, d_stages := (d_stages d)[i := Batch b'], d_calls := cs\<rparr>) \<and>
    (\<forall>(s, e) \<in> set (map snd (batch_call i (bp_next b) (bp_place b) (bp_place b'))).
       e = group_input oe ow gs (nth (d_sent d)) i (nat s))"
proof -
  let ?in = "group_input oe ow gs (nth (d_sent d))"
  note ok = ri_stage [OF inv i, unfolded b]
  have g: "group_ok (oe i) (gs ! i) (?in i) (Batch b)" and work: "\<And>s e. (s, e) \<in> working (Batch b) \<Longrightarrow> e = ?in i (nat s)"
    using di_group [OF data, of i] di_working [OF data, of i] i di_length [OF data] by (auto simp: b simp del: working.simps)
  then obtain h where h: "gs ! i = Handler h" by (cases "gs ! i") auto
  have out: "fst (oe i (bp_handler b) s e) = ?in (Suc i) (nat s)" if "(s, e) \<in> working (d_stages d ! i)" for s e
    using that work [of s e] g ok by (auto simp: b h)
  have "group_ok (oe i) (gs ! i) (?in i) (Batch b')"
    using batch_group_ok [OF ok g [unfolded h] work step] by (simp add: h)
  note * = consumer_data [OF inv data i batch_change [OF ok step, of i, folded b] refl _ this]
  show ?thesis by (rule *) (rule out)
qed

lemma work_data:
  assumes inv: "ring_inv k d" and data: "data_inv oe ow gs k d" and i: "i < length (d_stages d)"
    and st: "d_stages d ! i = Pool ws xs" and j: "j < length xs"
    and step: "work_step (ow i) (d_sequencer d) (dependents d i) (d_entries d) ws (xs ! j) = (es, ws', x')"
  shows "data_inv oe ow gs k (d\<lparr>d_entries := es, d_stages := (d_stages d)[i := Pool ws' (xs[j := x'])], d_calls := cs\<rparr>) \<and>
    (\<forall>(s, e) \<in> set (map snd (work_call i (wp_next (xs ! j)) (wp_place (xs ! j)) (wp_place x'))).
       e = group_input oe ow gs (nth (d_sent d)) i (nat s))"
proof -
  let ?in = "group_input oe ow gs (nth (d_sent d))" and ?P = "published (d_sequencer d) (d_producers d)"
  note ok = ri_stage [OF inv i, unfolded st]
  have "worker_ok ?P (dependents d i) ws' x' \<and> wp_sequence (xs ! j) \<le> wp_sequence x' \<and>
      hold_step ?P (dependents d i) ws (xs ! j) ws' x'"
    by (rule pool_worker_step [OF ri_stage [OF inv i] st j _ step]) (rule available_published [OF inv i])
  then have hold: "hold_step ?P (dependents d i) ws (xs ! j) ws' x'" by blast
  have g: "group_ok (oe i) (gs ! i) (?in i) (Pool ws xs)" and work: "\<And>s e. (s, e) \<in> working (d_stages d ! i) \<Longrightarrow> e = ?in i (nat s)"
    using di_group [OF data, of i] di_working [OF data, of i] i di_length [OF data] by (auto simp: st simp del: working.simps)
  then obtain n where n: "gs ! i = Workers n" by (cases "gs ! i") auto
  have pos: "0 \<le> s" if "(s, e) \<in> working (d_stages d ! i)" for s e
    using that ok by (auto simp: st worker_ok_def dest!: bspec)
  have out: "ow i s e = ?in (Suc i) (nat s)" if "(s, e) \<in> working (d_stages d ! i)" for s e
    using work [OF that] pos [OF that] by (simp add: n)
  have "group_ok (oe i) (gs ! i) (?in i) (Pool ws' (xs[j := x']))" by (simp add: n)
  note * = consumer_data [OF inv data i work_change [OF ok j hold step, of i, folded st] refl _ this]
  show ?thesis by (rule *) (rule out)
qed

text \<open>
  Producers.  The sequence a producer claims is behind all that was ever handled, so a new event changes no input
  that a handler has seen.
\<close>

lemma batch_reached:
  assumes inv: "ring_inv k d" and i: "i < length (d_stages d)" and b: "d_stages d ! i = Batch b"
  shows "bp_next b \<le> int (length (d_sent d))"
proof -
  have "published (d_sequencer d) (d_producers d) (bp_next b - 1)" using done_published [OF inv i] by (simp add: b)
  then show ?thesis using ri_sent [OF inv] by (simp add: published_def)
qed

lemma working_reached:
  assumes inv: "ring_inv k d" and i: "i < length (d_stages d)" and w: "(s, e) \<in> working (d_stages d ! i)"
  shows "0 \<le> s" "s < int (length (d_sent d))" "ready (published (d_sequencer d) (d_producers d)) (dependents d i) s"
    "\<not> stage_done (d_stages d ! i) s"
proof -
  have "0 \<le> s \<and> ready (published (d_sequencer d) (d_producers d)) (dependents d i) s \<and> \<not> stage_done (d_stages d ! i) s"
  proof (cases "d_stages d ! i")
    case (Batch b)
    then show ?thesis using w ri_stage [OF inv i] by auto
  next
    case (Pool ws xs)
    then obtain x where x: "x \<in> set xs" "s = wp_next x" "wp_place x = Work_event e" using w by auto
    then have "worker_ok (published (d_sequencer d) (d_producers d)) (dependents d i) ws x"
      using ri_stage [OF inv i] Pool by auto
    moreover have "\<not> stage_done (d_stages d ! i) s" using x Pool by (auto intro!: bexI [of _ x])
    ultimately show ?thesis using x by (auto simp: worker_ok_def)
  qed
  moreover from this have "s < int (length (d_sent d))" using ri_sent [OF inv] by (simp add: ready_def published_def)
  ultimately show "0 \<le> s" "s < int (length (d_sent d))" "ready (published (d_sequencer d) (d_producers d)) (dependents d i) s"
    "\<not> stage_done (d_stages d ! i) s" by blast+
qed

lemma sent_extended:
  assumes inv: "ring_inv k d" and data: "data_inv oe ow gs k d" and i: "i < length gs"
    and inputs: "inputs = group_input oe ow gs (nth (d_sent d @ es))"
  shows "group_ok (oe i) (gs ! i) (inputs i) (d_stages d ! i)" "(s, e) \<in> working (d_stages d ! i) \<Longrightarrow> e = inputs i (nat s)"
proof -
  let ?old = "group_input oe ow gs (nth (d_sent d))"
  have same: "inputs i n = ?old i n" if "n < length (d_sent d)" for i n
    unfolding inputs using that by (intro group_input_cong) (simp add: nth_append)
  have il: "i < length (d_stages d)" using i di_length [OF data] by simp
  show "group_ok (oe i) (gs ! i) (inputs i) (d_stages d ! i)"
  proof (cases "d_stages d ! i")
    case (Batch b)
    obtain h where h: "gs ! i = Handler h" "bp_handler b = handler_states (oe i) h (?old i) (nat (bp_next b))"
      using di_group [OF data i] Batch by (cases "gs ! i") auto
    have "handler_states (oe i) h (inputs i) (nat (bp_next b)) = handler_states (oe i) h (?old i) (nat (bp_next b))"
      using batch_reached [OF inv il Batch] by (intro handler_states_cong same) simp
    then show ?thesis by (simp add: Batch h)
  next
    case (Pool ws xs)
    then show ?thesis using di_group [OF data i] by (cases "gs ! i") auto
  qed
  show "e = inputs i (nat s)" if "(s, e) \<in> working (d_stages d ! i)"
    using di_working [OF data i that] working_reached [OF inv il that] same [of "nat s" i] by simp
qed

lemma unwritten_update:
  assumes "i < length ps"
  shows "unwritten (ps[i := p]) s \<longleftrightarrow> (\<exists>e. p = Claimed e s) \<or> (\<exists>j < length ps. j \<noteq> i \<and> (\<exists>e. ps ! j = Claimed e s))"
proof -
  have "unwritten (ps[i := p]) s \<longleftrightarrow> (\<exists>j < length ps. \<exists>e. ps[i := p] ! j = Claimed e s)"
    unfolding unwritten_def by (metis in_set_conv_nth length_list_update)
  also have "\<dots> \<longleftrightarrow> (\<exists>e. p = Claimed e s) \<or> (\<exists>j < length ps. j \<noteq> i \<and> (\<exists>e. ps ! j = Claimed e s))"
    using assms by (metis nth_list_update_eq nth_list_update_neq)
  finally show ?thesis .
qed

lemma unwritten_split:
  "i < length ps \<Longrightarrow>
   unwritten ps s \<longleftrightarrow> (\<exists>e. ps ! i = Claimed e s) \<or> (\<exists>j < length ps. j \<noteq> i \<and> (\<exists>e. ps ! j = Claimed e s))"
  using unwritten_update [of i ps "ps ! i" s] by simp

lemma quiet_producer_data:
  assumes data: "data_inv oe ow gs k d" and i: "i < length (d_producers d)"
    and p: "\<And>e s. d_producers d ! i \<noteq> Claimed e s" "\<And>e s. p \<noteq> Claimed e s" and q: "m_cursor q = m_cursor (d_sequencer d)"
  shows "data_inv oe ow gs k (d\<lparr>d_sequencer := q, d_producers := (d_producers d)[i := p]\<rparr>)"
proof -
  have "unwritten ((d_producers d)[i := p]) s = unwritten (d_producers d) s" for s
    using p by (simp add: unwritten_update [OF i] unwritten_split [OF i])
  moreover have "Claimed e s \<in> set (d_producers d)" if "Claimed e s \<in> set ((d_producers d)[i := p])" for e s
    using that p(2) set_update_subset_insert [of "d_producers d" i p] by blast
  ultimately show ?thesis
    using data q unfolding data_inv_def Let_def slots_ok_def by simp
qed

lemma claim_data:
  assumes inv: "ring_inv k d" and data: "data_inv oe ow gs k d" and i: "i < length (d_producers d)"
    and p: "d_producers d ! i = Swapping e current" and c: "m_cursor (d_sequencer d) = current"
  shows "data_inv oe ow gs k (d\<lparr>d_sequencer := (d_sequencer d)\<lparr>m_cursor := current + 1\<rparr>,
    d_producers := (d_producers d)[i := Claimed e (current + 1)], d_sent := d_sent d @ [e]\<rparr>)" (is "data_inv oe ow gs k ?d")
proof -
  let ?in = "group_input oe ow gs (nth (d_sent d @ [e]))"
  have c': "current + 1 = int (length (d_sent d))" using ri_sent [OF inv] c by simp
  have uw: "unwritten ((d_producers d)[i := Claimed e (current + 1)]) s \<longleftrightarrow> s = current + 1 \<or> unwritten (d_producers d) s" for s
    by (auto simp: unwritten_update [OF i] unwritten_split [OF i] p)
  have "e' = (d_sent d @ [e]) ! nat s" if "Claimed e' s \<in> set ((d_producers d)[i := Claimed e (current + 1)])" for e' s
  proof (cases "e' = e \<and> s = current + 1")
    case True
    then show ?thesis by (simp add: c')
  next
    case False
    then have m: "Claimed e' s \<in> set (d_producers d)" using that set_update_subset_insert by fastforce
    then have "0 \<le> s" "s < int (length (d_sent d))" using claim_bounds [OF ri_producers [OF inv m]] ri_sent [OF inv] by auto
    then show ?thesis using di_claim [OF data m] by (simp add: nth_append nat_less_iff)
  qed
  moreover have "slots_ok k ?in ?d"
    unfolding slots_ok_def
  proof (intro allI impI, elim conjE)
    fix s j
    assume s: "0 \<le> s" "m_cursor (d_sequencer ?d) - 2 ^ k < s" "s \<le> m_cursor (d_sequencer ?d)" "\<not> unwritten (d_producers ?d) s"
      and l: "level (d_stages ?d) s j"
    then have s': "m_cursor (d_sequencer d) - 2 ^ k < s" "s \<le> m_cursor (d_sequencer d)" "\<not> unwritten (d_producers d) s"
      using c uw by auto
    then have "d_entries d ! nat (s mod 2 ^ k) = group_input oe ow gs (nth (d_sent d)) j (nat s)"
      using di_slots [OF data] s(1) l by (simp add: slots_ok_def)
    also have "\<dots> = ?in j (nat s)" using s(1) s'(2) ri_sent [OF inv] by (intro group_input_cong) (auto simp: nth_append)
    finally show "d_entries ?d ! nat (s mod 2 ^ k) = ?in j (nat s)" by simp
  qed
  ultimately show ?thesis
    using sent_extended [OF inv data _ refl, where es = "[e]"] di_length [OF data] unfolding data_inv_def Let_def by auto
qed

lemma fill_data:
  assumes inv: "ring_inv k d" and data: "data_inv oe ow gs k d" and i: "i < length (d_producers d)"
    and p: "d_producers d ! i = Claimed e s"
  shows "data_inv oe ow gs k (d\<lparr>d_entries := (d_entries d)[nat (calculateIndex (d_sequencer d) s) := e],
    d_producers := (d_producers d)[i := Filled s]\<rparr>)" (is "data_inv oe ow gs k ?d")
proof -
  let ?in = "group_input oe ow gs (nth (d_sent d))"
  have idx: "calculateIndex (d_sequencer d) s = s mod 2 ^ k" by (rule calculateIndex_mod [OF ri_sequencer [OF inv]])
  have m: "Claimed e s \<in> set (d_producers d)" using i p by (metis nth_mem)
  then have pend: "pending (d_producers d) s" by (force simp: pending_def)
  have s: "m_cursor (d_sequencer d) - 2 ^ k < s" "s \<le> m_cursor (d_sequencer d)"
    using pending_in_window [OF inv pend] claim_bounds [OF ri_producers [OF inv m]] by auto
  have e: "e = d_sent d ! nat s" by (rule di_claim [OF data m])
  have undone: "\<not> stage_done (d_stages d ! j) s" if "j < length (d_stages d)" for j
    using done_published [OF inv that] pend by (auto simp: published_def)
  have "slots_ok k ?in ?d"
    unfolding slots_ok_def
  proof (intro allI impI, elim conjE)
    fix t j
    assume t: "0 \<le> t" "m_cursor (d_sequencer ?d) - 2 ^ k < t" "t \<le> m_cursor (d_sequencer ?d)" "\<not> unwritten (d_producers ?d) t"
      and l: "level (d_stages ?d) t j"
    show "d_entries ?d ! nat (t mod 2 ^ k) = ?in j (nat t)"
    proof (cases "t = s")
      case True
      then have "j = 0" using l undone [of 0] ri_stages [OF inv] by (cases j) (auto simp: level_def)
      moreover have "nat (s mod 2 ^ k) < length (d_entries d)" using ri_entries [OF inv] by (simp add: nat_less_iff)
      ultimately show ?thesis using True e by (simp add: idx)
    next
      case False
      then have "nat (s mod 2 ^ k) \<noteq> nat (t mod 2 ^ k)"
        using same_slot [of s k t "m_cursor (d_sequencer d)"] s t by (auto simp: eq_nat_nat_iff)
      moreover have "\<not> unwritten (d_producers d) t"
        using t(4) False p by (auto simp: unwritten_update [OF i] unwritten_split [OF i])
      ultimately show ?thesis using di_slots [OF data] t l by (simp add: slots_ok_def idx)
    qed
  qed
  moreover have "Claimed e s \<in> set (d_producers d)" if "Claimed e s \<in> set ((d_producers d)[i := Filled s'])" for e s s'
    using that set_update_subset_insert [of "d_producers d" i "Filled s'"] by blast
  ultimately show ?thesis
    using data unfolding data_inv_def Let_def by auto
qed

lemma produce_data:
  assumes inv: "ring_inv k d" and data: "data_inv oe ow gs k d" and i: "i < length (d_producers d)" and p: "d_producers d ! i = p"
    and step: "producer_step (gating d) (d_sequencer d) (d_entries d) p = (q, es, p')"
  shows "data_inv oe ow gs k (d\<lparr>d_sequencer := q, d_entries := es, d_producers := (d_producers d)[i := p'],
    d_sent := d_sent d @ claimed_event p p'\<rparr>)"
proof -
  have quiet: "data_inv oe ow gs k (d\<lparr>d_sequencer := q', d_producers := (d_producers d)[i := x]\<rparr>)"
    if "\<And>e s. p \<noteq> Claimed e s" "\<And>e s. x \<noteq> Claimed e s" "m_cursor q' = m_cursor (d_sequencer d)" for q' x
    by (rule quiet_producer_data [OF data i]) (use that p in auto)
  show ?thesis
  proof (cases p)
    case (Swapping e current)
    show ?thesis
    proof (cases "m_cursor (d_sequencer d) = current")
      case True
      then have "q = (d_sequencer d)\<lparr>m_cursor := current + 1\<rparr>" "es = d_entries d" "p' = Claimed e (current + 1)"
        using step by (auto simp: Swapping)
      then show ?thesis using claim_data [OF inv data i _ True] p by (simp add: Swapping)
    next
      case False
      then have "q = d_sequencer d" "es = d_entries d" "p' = Entering e" using step by (auto simp: Swapping)
      then show ?thesis using quiet [of "Entering e" "d_sequencer d"] by (simp add: Swapping)
    qed
  next
    case (Claimed e s)
    then have "q = d_sequencer d" "es = (d_entries d)[nat (calculateIndex (d_sequencer d) s) := e]" "p' = Filled s"
      using step by auto
    then show ?thesis using fill_data [OF inv data i] p by (simp add: Claimed)
  next
    case Idle
    then show ?thesis using step quiet [of Idle "d_sequencer d"] by auto
  next
    case (Entering e)
    then show ?thesis using step quiet [of "Loaded e (m_cursor (d_sequencer d))" "d_sequencer d"] by auto
  next
    case (Loaded e current)
    then have "q = d_sequencer d" "es = d_entries d" "\<And>e s. p' \<noteq> Claimed e s" using step by (auto split: if_splits)
    then show ?thesis using quiet [of p' "d_sequencer d"] by (simp add: Loaded)
  next
    case (Scanning e current j m)
    then have "q = d_sequencer d" "es = d_entries d" "\<And>e s. p' \<noteq> Claimed e s" using step by (auto split: if_splits)
    then show ?thesis using quiet [of p' "d_sequencer d"] by (simp add: Scanning)
  next
    case (Caching e current m)
    then have "q = (d_sequencer d)\<lparr>m_gatingSequenceCache := m\<rparr>" "es = d_entries d" "p' = Entering e" using step by auto
    then show ?thesis using quiet [of p' q] by (simp add: Caching)
  next
    case (Filled s)
    then have "q = setAvailable s (d_sequencer d)" "es = d_entries d" "p' = Idle" using step by auto
    then show ?thesis using quiet [of p' q] by (simp add: Filled setAvailable_def)
  qed
qed

section \<open>The calls of the handlers\<close>

definition stage_started :: "('e, 'h) stage \<Rightarrow> int \<Rightarrow> bool" where
  "stage_started st s \<longleftrightarrow> stage_done st s \<or> (\<exists>e. (s, e) \<in> working st)"

definition calls_of :: "nat \<Rightarrow> (nat \<times> int \<times> 'e) list \<Rightarrow> int list" where
  "calls_of i cs = map (fst \<circ> snd) (filter (\<lambda>c. fst c = i) cs)"

definition after_previous :: "(nat \<times> int \<times> 'e) list \<Rightarrow> bool" where
  "after_previous cs \<longleftrightarrow> (\<forall>m < length cs. \<forall>i s e. cs ! m = (Suc i, s, e) \<longrightarrow> s \<in> set (calls_of i (take m cs)))"

definition calls_inv :: "(nat \<Rightarrow> nat \<Rightarrow> 'e) \<Rightarrow> ('e, 'h) disruptor \<Rightarrow> bool" where
  "calls_inv inputs d \<longleftrightarrow>
     (\<forall>(i, s, e) \<in> set (d_calls d). i < length (d_stages d) \<and> e = inputs i (nat s)) \<and>
     (\<forall>i < length (d_stages d). distinct (calls_of i (d_calls d)) \<and>
        (\<forall>s. s \<in> set (calls_of i (d_calls d)) \<longleftrightarrow> 0 \<le> s \<and> stage_started (d_stages d ! i) s) \<and>
        (is_batch (d_stages d ! i) \<longrightarrow> sorted (calls_of i (d_calls d)))) \<and>
     after_previous (d_calls d)"

lemma calls_of_append: "calls_of i (xs @ ys) = calls_of i xs @ calls_of i ys"
  by (simp add: calls_of_def)

lemma calls_of_call: "calls_of j [(i, s, e)] = (if i = j then [s] else [])"
  by (simp add: calls_of_def)

lemma started_reached:
  assumes inv: "ring_inv k d" and i: "i < length (d_stages d)" and "stage_started (d_stages d ! i) s"
  shows "s < int (length (d_sent d))"
  using assms(3) done_published [OF inv i] working_reached(2) [OF inv i] ri_sent [OF inv]
  unfolding stage_started_def published_def by fastforce

lemma call_reached:
  assumes inv: "ring_inv k d" and calls: "calls_inv inputs d" and m: "(i, s, e) \<in> set (d_calls d)"
  shows "i < length (d_stages d)" "0 \<le> s" "s < int (length (d_sent d))"
proof -
  show i: "i < length (d_stages d)" using calls m unfolding calls_inv_def by fast
  have "s \<in> set (calls_of i (d_calls d))" using m by (force simp: calls_of_def)
  then have "0 \<le> s \<and> stage_started (d_stages d ! i) s" using calls i unfolding calls_inv_def by blast
  then show "0 \<le> s" "s < int (length (d_sent d))" using started_reached [OF inv i] by auto
qed

lemma calls_extended:
  assumes inv: "ring_inv k d" and calls: "calls_inv (group_input oe ow gs (nth (d_sent d))) d"
  shows "calls_inv (group_input oe ow gs (nth (d_sent d @ es))) (d\<lparr>d_sequencer := q, d_entries := ent, d_producers := ps, d_sent := d_sent d @ es\<rparr>)"
proof -
  have "e = group_input oe ow gs (nth (d_sent d @ es)) i (nat s)" if m: "(i, s, e) \<in> set (d_calls d)" for i s e
  proof -
    have "e = group_input oe ow gs (nth (d_sent d)) i (nat s)" using calls m unfolding calls_inv_def by fast
    also have "\<dots> = group_input oe ow gs (nth (d_sent d @ es)) i (nat s)"
      using call_reached [OF inv calls m] by (intro group_input_cong) (auto simp: nth_append)
    finally show ?thesis .
  qed
  then show ?thesis using calls unfolding calls_inv_def by fastforce
qed

lemma calls_quiet:
  assumes calls: "calls_inv inputs d" and i: "i < length (d_stages d)"
    and started: "stage_started st = stage_started (d_stages d ! i)" and b: "is_batch st = is_batch (d_stages d ! i)"
  shows "calls_inv inputs (d\<lparr>d_entries := es, d_stages := (d_stages d)[i := st], d_calls := d_calls d @ []\<rparr>)"
proof -
  have "stage_started ((d_stages d)[i := st] ! j) = stage_started (d_stages d ! j)"
    "is_batch ((d_stages d)[i := st] ! j) = is_batch (d_stages d ! j)" for j
    using started b i by (cases "j = i"; simp)+
  then show ?thesis using calls unfolding calls_inv_def by simp
qed

lemma batch_calls_end:
  assumes done_new: "stage_done st = stage_done st'" and w: "(s, e) \<in> working st'" and b: "is_batch st'" "is_batch st"
    and t: "0 \<le> t" "stage_started st t"
  shows "t \<le> s"
proof -
  obtain b b' where bb: "st = Batch b" "st' = Batch b'" using b by (metis is_batch.elims(2))
  have "bp_next b = bp_next b'"
    using fun_cong [OF done_new, of "bp_next b"] fun_cong [OF done_new, of "bp_next b'"] by (simp add: bb)
  then show ?thesis using w t(2) by (auto simp: bb stage_started_def)
qed

lemma calls_new:
  assumes inv: "ring_inv k d" and calls: "calls_inv inputs d" and i: "i < length (d_stages d)"
    and s: "0 \<le> s" "\<not> stage_started (d_stages d ! i) s" "e = inputs i (nat s)"
    and prev: "\<And>j. i = Suc j \<Longrightarrow> stage_done (d_stages d ! j) s"
    and new: "working st = insert (s, e) (working (d_stages d ! i))" "stage_done st = stage_done (d_stages d ! i)"
      "is_batch st = is_batch (d_stages d ! i)"
  shows "calls_inv inputs (d\<lparr>d_entries := es, d_stages := (d_stages d)[i := st], d_calls := d_calls d @ [(i, s, e)]\<rparr>)"
proof -
  let ?cs = "d_calls d @ [(i, s, e)]" and ?sts = "(d_stages d)[i := st]"
  have part: "distinct (calls_of j (d_calls d))" "t \<in> set (calls_of j (d_calls d)) \<longleftrightarrow> 0 \<le> t \<and> stage_started (d_stages d ! j) t"
    "is_batch (d_stages d ! j) \<Longrightarrow> sorted (calls_of j (d_calls d))" if "j < length (d_stages d)" for j t
    using calls that unfolding calls_inv_def by blast+
  have started: "stage_started st t \<longleftrightarrow> stage_started (d_stages d ! i) t \<or> t = s" for t
    using new by (auto simp: stage_started_def)
  have fresh: "s \<notin> set (calls_of i (d_calls d))" using part(2) [OF i] s by blast
  have each: "distinct (calls_of j ?cs) \<and> (\<forall>t. t \<in> set (calls_of j ?cs) \<longleftrightarrow> 0 \<le> t \<and> stage_started (?sts ! j) t) \<and>
      (is_batch (?sts ! j) \<longrightarrow> sorted (calls_of j ?cs))" if j: "j < length (d_stages d)" for j
  proof (cases "j = i")
    case True
    have "\<forall>t \<in> set (calls_of i (d_calls d)). t \<le> s" if "is_batch st"
      using part(2) [OF i] batch_calls_end [OF new(2) [symmetric], of s e] that new by auto
    then show ?thesis
      using part [OF i] fresh started s(1) i True new(3) by (auto simp: calls_of_append calls_of_call sorted_append)
  next
    case False
    then show ?thesis using part [OF j] by (simp add: calls_of_append calls_of_call)
  qed
  have "t \<in> set (calls_of j (take m ?cs))" if "m < length ?cs" "?cs ! m = (Suc j, t, e')" for m j t e'
  proof (cases "m < length (d_calls d)")
    case True
    then show ?thesis using that calls unfolding calls_inv_def after_previous_def by (auto simp: nth_append)
  next
    case False
    then have "m = length (d_calls d)" using that(1) by simp
    then have "i = Suc j" "t = s" using that(2) by (auto simp: nth_append)
    then have "t \<in> set (calls_of j (d_calls d))" using part(2) [of j t] prev [of j] i s(1) by (simp add: stage_started_def)
    then show ?thesis using \<open>m = length (d_calls d)\<close> by simp
  qed
  then have "after_previous ?cs" unfolding after_previous_def by blast
  moreover have "\<forall>(j, t, e') \<in> set ?cs. j < length (d_stages d) \<and> e' = inputs j (nat t)"
    using calls i s(3) unfolding calls_inv_def by auto
  ultimately show ?thesis using each unfolding calls_inv_def by simp
qed

lemma consumer_calls:
  assumes inv: "ring_inv k d" and calls: "calls_inv inputs d" and i: "i < length (d_stages d)"
    and change: "stage_change (ready (published (d_sequencer d) (d_producers d)) (dependents d i))
      slot out (d_stages d ! i) (d_entries d) es st call"
    and b: "is_batch st = is_batch (d_stages d ! i)" and call: "\<forall>(s, e) \<in> set call. e = inputs i (nat s)"
  shows "calls_inv inputs (d\<lparr>d_entries := es, d_stages := (d_stages d)[i := st], d_calls := d_calls d @ map (Pair i) call\<rparr>)"
  using change
proof cases
  case quiet
  then have "stage_started st = stage_started (d_stages d ! i)" by (simp add: stage_started_def fun_eq_iff)
  from calls_quiet [OF calls i this b, of es] show ?thesis by (simp only: quiet(2) list.map)
next
  case (begins s e)
  have "stage_done (d_stages d ! j) s" if "i = Suc j" for j
    using ready_level(1) [OF inv i begins(5,3)] that by (simp add: level_def)
  moreover have "\<not> stage_started (d_stages d ! i) s" using begins by (simp add: stage_started_def)
  moreover have "e = inputs i (nat s)" using call begins(2) by simp
  ultimately have "calls_inv inputs (d\<lparr>d_entries := es, d_stages := (d_stages d)[i := st], d_calls := d_calls d @ [(i, s, e)]\<rparr>)"
    using begins b by (intro calls_new [OF inv calls i begins(4)])
  then show ?thesis by (simp only: begins(2) list.map)
next
  case (finishes s e)
  have "stage_started st = stage_started (d_stages d ! i)"
    using finishes by (fastforce simp: stage_started_def fun_eq_iff)
  from calls_quiet [OF calls i this b, of es] show ?thesis by (simp only: finishes(1) list.map)
qed

lemma batch_call_group: "batch_call i s p p' = map (Pair i) (map snd (batch_call i s p p'))"
  by (cases "(i, s, p, p')" rule: batch_call.cases) auto

lemma work_call_group: "work_call i s p p' = map (Pair i) (map snd (work_call i s p p'))"
  by (cases "(i, s, p, p')" rule: work_call.cases) auto

definition pipeline_inv :: "(nat \<Rightarrow> ('e, 'h) event_handler) \<Rightarrow> (nat \<Rightarrow> 'e work_handler) \<Rightarrow> 'h group list \<Rightarrow> nat \<Rightarrow>
    ('e, 'h) disruptor \<Rightarrow> bool" where
  "pipeline_inv oe ow gs k d \<longleftrightarrow> ring_inv k d \<and> data_inv oe ow gs k d \<and> calls_inv (group_input oe ow gs (nth (d_sent d))) d"

lemma step_keeps_pipeline:
  assumes "disruptor_step oe ow d d'" "pipeline_inv oe ow gs k d"
  shows "pipeline_inv oe ow gs k d'"
proof -
  have inv: "ring_inv k d" and data: "data_inv oe ow gs k d" and calls: "calls_inv (group_input oe ow gs (nth (d_sent d))) d"
    using assms(2) by (simp_all add: pipeline_inv_def)
  have ring: "ring_inv k d'" by (rule step_keeps_inv [OF assms(1) inv])
  have "data_inv oe ow gs k d' \<and> calls_inv (group_input oe ow gs (nth (d_sent d'))) d'"
    using assms(1)
  proof cases
    case (submit i e)
    have "data_inv oe ow gs k (d\<lparr>d_sequencer := d_sequencer d, d_producers := (d_producers d)[i := Entering e]\<rparr>)"
      using submit by (intro quiet_producer_data [OF data]) auto
    moreover have "calls_inv (group_input oe ow gs (nth (d_sent d))) d'" using calls submit(1) by (simp add: calls_inv_def)
    ultimately show ?thesis using submit(1) by simp
  next
    case (produce i p q es p')
    show ?thesis using produce_data [OF inv data produce(2-4)] calls_extended [OF inv calls] by (simp add: produce(1))
  next
    case (handle i b es b')
    note ok = ri_stage [OF inv handle(2), unfolded handle(3)]
    note new = handle_data [OF inv data handle(2-4)]
    have "calls_inv (group_input oe ow gs (nth (d_sent d))) d'"
      unfolding handle(1) using consumer_calls [OF inv calls handle(2) batch_change [OF ok handle(4), of i, folded handle(3)]] new
      by (subst batch_call_group) (simp add: handle(3))
    then show ?thesis using new by (simp add: handle(1))
  next
    case (work i ws xs j es ws' x')
    note ok = ri_stage [OF inv work(2), unfolded work(3)]
    note new = work_data [OF inv data work(2-5)]
    have "worker_ok (published (d_sequencer d) (d_producers d)) (dependents d i) ws' x' \<and> wp_sequence (xs ! j) \<le> wp_sequence x' \<and>
        hold_step (published (d_sequencer d) (d_producers d)) (dependents d i) ws (xs ! j) ws' x'"
      by (rule pool_worker_step [OF ri_stage [OF inv work(2)] work(3,4) _ work(5)]) (rule available_published [OF inv work(2)])
    then have hold: "hold_step (published (d_sequencer d) (d_producers d)) (dependents d i) ws (xs ! j) ws' x'" by blast
    have "calls_inv (group_input oe ow gs (nth (d_sent d))) d'"
      unfolding work(1) using consumer_calls [OF inv calls work(2) work_change [OF ok work(4) hold work(5), of i, folded work(3)]] new
      by (subst work_call_group) (simp add: work(3))
    then show ?thesis using new by (simp add: work(1))
  qed
  then show ?thesis using ring by (simp add: pipeline_inv_def)
qed

section \<open>Runs\<close>

lemma start_fields:
  assumes "start_disruptor bufferSize e groups n = Some d"
  shows "d_stages d = map new_stage groups" "d_sent d = []" "d_calls d = []" "d_producers d = replicate n Idle"
    "m_cursor (d_sequencer d) = -1"
  using assms by (auto simp: start_disruptor_def MultiProducerSequencer_def bind_eq_Some_conv split: if_splits)

lemma start_pipeline:
  fixes d :: "('e, 'h) disruptor"
  assumes start: "start_disruptor bufferSize e groups n = Some d" and "groups \<noteq> []" "bufferSize < 2 ^ 31"
  shows "\<exists>k. pipeline_inv oe ow groups k d \<and> bufferSize = 2 ^ k"
proof -
  obtain k where k: "ring_inv k d" "bufferSize = 2 ^ k" using start_inv [OF assms] by blast
  note d = start_fields [OF start]
  have idle: "working (new_stage g :: ('e, 'h) stage) = {}" "stage_started (new_stage g :: ('e, 'h) stage) s \<Longrightarrow> s < 0" for g s
    by (cases g; auto simp: stage_started_def)+
  have "group_ok f g input (new_stage g :: ('e, 'h) stage)" for f g input by (cases g) auto
  then have "data_inv oe ow groups k d" unfolding data_inv_def Let_def slots_ok_def by (auto simp: d idle)
  moreover have "calls_inv inputs d" for inputs
    using idle(2) unfolding calls_inv_def after_previous_def by (force simp: d calls_of_def)
  ultimately show ?thesis using k by (auto simp: pipeline_inv_def)
qed

lemma run_pipeline:
  assumes "disruptor_run oe ow bufferSize e groups n d" and g: "groups \<noteq> []" "bufferSize < 2 ^ 31"
  shows "\<exists>k. pipeline_inv oe ow groups k d \<and> bufferSize = 2 ^ k"
  using assms(1)
proof induction
  case (started d)
  show ?case by (rule start_pipeline [OF started g])
next
  case (stepped d d')
  then obtain k where "pipeline_inv oe ow groups k d" "bufferSize = 2 ^ k" by blast
  then show ?case using step_keeps_pipeline [OF stepped.hyps(2)] by blast
qed

lemma calls_of_batch:
  assumes calls: "calls_inv inputs d" and i: "i < length (d_stages d)" and b: "d_stages d ! i = Batch b"
  shows "\<exists>m. calls_of i (d_calls d) = map int [0..<m]"
proof -
  define m where "m = (case bp_place b of Batch_event a e \<Rightarrow> nat (bp_next b + 1) | _ \<Rightarrow> nat (bp_next b))"
  have "0 \<le> s \<and> stage_started (d_stages d ! i) s \<longleftrightarrow> 0 \<le> s \<and> s < int m" for s
    by (cases "bp_place b") (auto simp: b stage_started_def m_def)
  then have "s \<in> set (calls_of i (d_calls d)) \<longleftrightarrow> 0 \<le> s \<and> s < int m" for s
    using calls i unfolding calls_inv_def by blast
  then have "set (calls_of i (d_calls d)) = {0..<int m}" by (intro set_eqI) (simp only: atLeastLessThan_iff)
  then have "set (calls_of i (d_calls d)) = set (map int [0..<m])" by (simp add: image_int_atLeastLessThan)
  moreover have "sorted (calls_of i (d_calls d))" "distinct (calls_of i (d_calls d))"
    using calls i b is_batch.simps(1) [of b] unfolding calls_inv_def by metis+
  moreover have "sorted (map int [0..<m])" "distinct (map int [0..<m])"
    by (simp_all add: sorted_iff_nth_mono distinct_map)
  ultimately have "calls_of i (d_calls d) = map int [0..<m]" by (intro sorted_distinct_set_unique)
  then show ?thesis ..
qed

text \<open>
  C3.  A disruptor refines the pipeline of its groups.  In every state that threads can bring it to, in whatever
  order they take their steps, every handler call was given a claimed sequence and exactly the event that the single-threaded
  reference computes for it; no group was given a sequence twice; a group was given a sequence only after the
  group before it; and a group with one handler was given the sequences from 0 on without a gap.
\<close>

theorem disruptor_refines_pipeline:
  assumes run: "disruptor_run on_event on_work bufferSize e\<^sub>0 groups n d" and g: "groups \<noteq> []" "bufferSize < 2 ^ 31"
  shows "(\<forall>(i, s, e) \<in> set (d_calls d). i < length groups \<and> 0 \<le> s \<and> s < int (length (d_sent d)) \<and>
      e = group_input on_event on_work groups (nth (d_sent d)) i (nat s)) \<and>
    (\<forall>i < length groups. distinct (calls_of i (d_calls d))) \<and> after_previous (d_calls d) \<and>
    (\<forall>i < length groups. \<forall>h. groups ! i = Handler h \<longrightarrow> (\<exists>m. calls_of i (d_calls d) = map int [0..<m]))"
proof -
  obtain k where k: "pipeline_inv on_event on_work groups k d" using run_pipeline [OF run g] by blast
  then have inv: "ring_inv k d" and data: "data_inv on_event on_work groups k d"
    and calls: "calls_inv (group_input on_event on_work groups (nth (d_sent d))) d" by (simp_all add: pipeline_inv_def)
  note len = di_length [OF data]
  have "i < length groups \<and> 0 \<le> s \<and> s < int (length (d_sent d)) \<and> e = group_input on_event on_work groups (nth (d_sent d)) i (nat s)"
    if "(i, s, e) \<in> set (d_calls d)" for i s e
    using call_reached [OF inv calls that] that calls len unfolding calls_inv_def by auto
  moreover have "\<exists>m. calls_of i (d_calls d) = map int [0..<m]" if "i < length groups" "groups ! i = Handler h" for i h
  proof -
    from that have i: "i < length groups" and h: "groups ! i = Handler h" .
    then have "is_batch (d_stages d ! i)" using di_group [OF data i] by (cases "d_stages d ! i") auto
    then show ?thesis using calls_of_batch [OF calls] i len by (metis is_batch.elims(2))
  qed
  ultimately show ?thesis using calls len unfolding calls_inv_def by auto
qed

section \<open>Slots in use\<close>

fun in_work :: "('e, 'h) stage \<Rightarrow> int list" where
  "in_work (Batch b) = (case bp_place b of Batch_event a e \<Rightarrow> [bp_next b] | _ \<Rightarrow> [])"
| "in_work (Pool ws xs) = concat (map (\<lambda>x. case wp_place x of Work_event e \<Rightarrow> [wp_next x] | _ \<Rightarrow> []) xs)"

text \<open>The slots that threads read or write at the moment, one for each such thread.\<close>

definition slots_in_use :: "('e, 'h) disruptor \<Rightarrow> int list" where
  "slots_in_use d = map (calculateIndex (d_sequencer d))
     (List.map_filter claim_of (d_producers d) @ concat (map in_work (d_stages d)))"

lemma distinct_concat_nth:
  assumes "\<And>i. i < length xss \<Longrightarrow> distinct (xss ! i)"
    and "\<And>i j. i < j \<Longrightarrow> j < length xss \<Longrightarrow> set (xss ! i) \<inter> set (xss ! j) = {}"
  shows "distinct (concat xss)"
  using assms
proof (induction xss)
  case (Cons xs xss)
  have "distinct (concat xss)"
  proof (rule Cons.IH)
    show "distinct (xss ! i)" if "i < length xss" for i using Cons.prems(1) [of "Suc i"] that by simp
    show "set (xss ! i) \<inter> set (xss ! j) = {}" if "i < j" "j < length xss" for i j
      using Cons.prems(2) [of "Suc i" "Suc j"] that by simp
  qed
  moreover have "set xs \<inter> set ys = {}" if ys: "ys \<in> set xss" for ys
  proof -
    obtain j where "j < length xss" "ys = xss ! j" using ys unfolding in_set_conv_nth by blast
    then show ?thesis using Cons.prems(2) [of 0 "Suc j"] by simp
  qed
  then have "set xs \<inter> set (concat xss) = {}" unfolding set_concat by blast
  moreover have "distinct xs" using Cons.prems(1) [of 0] by simp
  ultimately show ?case by (simp only: concat.simps distinct_append)
qed simp

lemma in_work_working: "s \<in> set (in_work st) \<longleftrightarrow> (\<exists>e. (s, e) \<in> working st)"
proof (cases st)
  case (Batch b)
  then show ?thesis by (cases "bp_place b") auto
next
  case (Pool ws xs)
  have "s \<in> set (case wp_place x of Work_event e \<Rightarrow> [wp_next x] | _ \<Rightarrow> []) \<longleftrightarrow> (\<exists>e. s = wp_next x \<and> wp_place x = Work_event e)" for x :: "'a work_processor"
    by (cases "wp_place x") auto
  then show ?thesis using Pool by simp blast
qed

lemma in_work_distinct:
  assumes "stage_ok P deps st"
  shows "distinct (in_work st)"
proof (cases st)
  case (Batch b)
  then show ?thesis by (cases "bp_place b") auto
next
  case (Pool ws xs)
  let ?f = "\<lambda>x :: 'a work_processor. case wp_place x of Work_event e \<Rightarrow> [wp_next x] | _ \<Rightarrow> []"
  have f: "s \<in> set (?f x) \<Longrightarrow> holds (wp_place x) \<and> s = wp_next x" for s x by (cases "wp_place x") auto
  have one: "one_holder xs" using assms Pool by simp
  have "set (?f (xs ! i)) \<inter> set (?f (xs ! j)) = {}" if ij: "i < j" "j < length xs" for i j
  proof -
    have "wp_next (xs ! i) \<noteq> wp_next (xs ! j)" if "holds (wp_place (xs ! i))" "holds (wp_place (xs ! j))"
      using one ij that by (simp add: one_holder_def)
    then show ?thesis using f [of _ "xs ! i"] f [of _ "xs ! j"] by blast
  qed
  moreover have "distinct (?f x)" for x by (cases "wp_place x") auto
  ultimately have "distinct (concat (map ?f xs))" by (intro distinct_concat_nth) simp_all
  then show ?thesis using Pool by simp
qed

lemma pending_claims: "s \<in> set (List.map_filter claim_of ps) \<longleftrightarrow> pending ps s"
  by (force simp: List.map_filter_def pending_def)

lemma claims_distinct: "one_claim ps \<Longrightarrow> distinct (List.map_filter claim_of ps)"
proof (induction ps)
  case (Cons p ps)
  have "one_claim ps"
    unfolding one_claim_def
  proof (intro allI impI)
    fix i j
    assume "i < length ps" "j < length ps" "i \<noteq> j" "claim_of (ps ! i) \<noteq> None"
    then show "claim_of (ps ! i) \<noteq> claim_of (ps ! j)"
      using Cons.prems [unfolded one_claim_def, rule_format, of "Suc i" "Suc j"] by simp
  qed
  moreover have "s \<notin> set (List.map_filter claim_of ps)" if p: "claim_of p = Some s" for s
  proof
    assume "s \<in> set (List.map_filter claim_of ps)"
    then obtain x where "x \<in> set ps" "claim_of x = Some s" by (auto simp: pending_claims pending_def)
    then obtain j where "j < length ps" "claim_of (ps ! j) = Some s" by (metis in_set_conv_nth)
    then show False using one_claimD [OF Cons.prems, of 0 "Suc j" s] p by simp
  qed
  ultimately show ?case using Cons.IH by (cases "claim_of p") (auto simp: List.map_filter_simps)
qed (simp add: List.map_filter_simps)

lemma in_work_apart:
  assumes inv: "ring_inv k d" and ij: "i < j" "j < length (d_stages d)"
  shows "set (in_work (d_stages d ! i)) \<inter> set (in_work (d_stages d ! j)) = {}"
proof -
  have False if s: "s \<in> set (in_work (d_stages d ! i))" "s \<in> set (in_work (d_stages d ! j))" for s
  proof -
    obtain e e' where w: "(s, e) \<in> working (d_stages d ! i)" "(s, e') \<in> working (d_stages d ! j)"
      using s by (auto simp: in_work_working)
    have "level (d_stages d) s j"
      by (rule ready_level(1) [OF inv ij(2) working_reached(4,3) [OF inv ij(2) w(2)]])
    then have "stage_done (d_stages d ! i) s" using ij by (simp add: level_def)
    moreover have "i < length (d_stages d)" using ij by simp
    ultimately show False using working_reached(4) [OF inv _ w(1)] by blast
  qed
  then show ?thesis by blast
qed

lemma sequences_in_use:
  assumes inv: "ring_inv k d"
  shows "distinct (List.map_filter claim_of (d_producers d) @ concat (map in_work (d_stages d)))"
    "s \<in> set (List.map_filter claim_of (d_producers d) @ concat (map in_work (d_stages d))) \<Longrightarrow>
     m_cursor (d_sequencer d) - 2 ^ k < s \<and> s \<le> m_cursor (d_sequencer d)"
proof -
  have work: "\<not> pending (d_producers d) t \<and> m_cursor (d_sequencer d) - 2 ^ k < t \<and> t \<le> m_cursor (d_sequencer d)"
    if t: "t \<in> set (concat (map in_work (d_stages d)))" for t
  proof -
    obtain i where i: "i < length (d_stages d)" "t \<in> set (in_work (d_stages d ! i))"
      using t by (auto simp: in_set_conv_nth [of _ "d_stages d"])
    then obtain e where w: "(t, e) \<in> working (d_stages d ! i)" by (auto simp: in_work_working)
    note r = working_reached [OF inv i(1) w]
    show ?thesis using ready_level [OF inv i(1) r(4,3)] r(3) by (simp add: ready_def published_def)
  qed
  have "distinct (concat (map in_work (d_stages d)))"
    using in_work_distinct [OF ri_stage [OF inv]] in_work_apart [OF inv] by (intro distinct_concat_nth) simp_all
  then show "distinct (List.map_filter claim_of (d_producers d) @ concat (map in_work (d_stages d)))"
    using claims_distinct [OF ri_claims [OF inv]] work pending_claims by (auto simp del: set_concat)
  show "m_cursor (d_sequencer d) - 2 ^ k < s \<and> s \<le> m_cursor (d_sequencer d)"
    if "s \<in> set (List.map_filter claim_of (d_producers d) @ concat (map in_work (d_stages d)))"
  proof (cases "s \<in> set (concat (map in_work (d_stages d)))")
    case False
    then have pend: "pending (d_producers d) s" using that pending_claims by auto
    then obtain p where "p \<in> set (d_producers d)" "claim_of p = Some s" by (auto simp: pending_def)
    then show ?thesis using pending_in_window [OF inv pend] claim_bounds [OF ri_producers [OF inv]] by blast
  qed (use work in blast)
qed

text \<open>
  C9.  No two threads touch one slot.  In every reachable state the slots that producers fill and have not published
  yet, and the slots of the events that handlers work on, are pairwise different, and inside the buffer.
\<close>

theorem slots_exclusive:
  assumes run: "disruptor_run on_event on_work bufferSize e\<^sub>0 groups n d" and g: "groups \<noteq> []" "bufferSize < 2 ^ 31"
  shows "distinct (slots_in_use d) \<and> (\<forall>i \<in> set (slots_in_use d). 0 \<le> i \<and> i < int (length (d_entries d)))"
proof -
  obtain k where k: "pipeline_inv on_event on_work groups k d" using run_pipeline [OF run g] by blast
  then have inv: "ring_inv k d" by (simp add: pipeline_inv_def)
  have idx: "calculateIndex (d_sequencer d) = (\<lambda>s. s mod 2 ^ k)"
    by (rule ext) (rule calculateIndex_mod [OF ri_sequencer [OF inv]])
  note use = sequences_in_use [OF inv]
  have "inj_on (\<lambda>s. s mod 2 ^ k) (set (List.map_filter claim_of (d_producers d) @ concat (map in_work (d_stages d))))"
    by (rule inj_onI) (metis same_slot use(2))
  then have "distinct (slots_in_use d)" using use(1) unfolding slots_in_use_def idx distinct_map by blast
  moreover have "0 \<le> i \<and> i < int (length (d_entries d))" if "i \<in> set (slots_in_use d)" for i
    using that unfolding slots_in_use_def idx by (auto simp: ri_entries [OF inv])
  ultimately show ?thesis by blast
qed

section \<open>Sizes of the buffer\<close>

lemma ceiling_loop_exp: "1 \<le> j \<Longrightarrow> j \<le> k \<Longrightarrow> k \<le> 30 \<Longrightarrow> ceiling_loop (2 ^ k) (2 ^ j) = Some (2 ^ k)"
proof (induction "k - j" arbitrary: j)
  case 0
  then show ?case by (subst ceiling_loop.simps) simp
next
  case (Suc m)
  then have j: "j < k" by simp
  then have "(2 :: int) ^ Suc j \<le> 2 ^ 30" using Suc.prems(3) by (intro power_increasing) simp_all
  moreover have "0 \<le> (2 :: int) ^ Suc j" "(2 :: int) ^ 30 < 2 ^ 31" "-(2 ^ 31) \<le> (0 :: int)" by simp_all
  ultimately have "wrap32 (2 ^ Suc j) = 2 ^ Suc j" unfolding wrap32_def
    by (intro signed_take_bit_int_eq_self) linarith+
  then have "wrap32 (2 * 2 ^ j) = 2 ^ Suc j" by simp
  moreover have "ceiling_loop (2 ^ k) (2 ^ Suc j) = Some (2 ^ k)" using Suc j by (intro Suc.hyps) simp_all
  ultimately show ?case using j by (subst ceiling_loop.simps) simp
qed

lemma isPowerOf2_power: "isPowerOf2 (2 ^ k)"
proof -
  have "(2 :: int) ^ k AND (2 ^ k - 1) = take_bit k (2 ^ k)" by (simp add: take_bit_eq_mask mask_eq_exp_minus_1)
  then show ?thesis by (simp add: isPowerOf2_def)
qed

lemma ceiling_of_one: "ceilingNextPowerOfTwo 1 = Some 2"
  unfolding ceilingNextPowerOfTwo_def by (subst ceiling_loop.simps) simp

text \<open>
  C40.  Which sizes of a ring buffer are accepted: exactly the powers of two from 2 to 2 ^ 30.  A buffer of one slot passes the
  check for a power of two in \<^verbatim>\<open>BinlogStorage::init\<close> and in the sequencer, and is then refused by the ring buffer with the
  message that the size must be a power of two.
\<close>

theorem accepted_sizes:
  assumes int32: "-(2 ^ 31) \<le> bufferSize" "bufferSize < 2 ^ 31"
  shows "(start_disruptor bufferSize e groups n \<noteq> None \<longleftrightarrow> (\<exists>k. 1 \<le> k \<and> k \<le> 30 \<and> bufferSize = 2 ^ k)) \<and>
    isPowerOf2 1 \<and> MultiProducerSequencer 1 \<noteq> None"
proof -
  have "\<exists>k. 1 \<le> k \<and> k \<le> 30 \<and> bufferSize = 2 ^ k" if "start_disruptor bufferSize e groups n \<noteq> None"
  proof -
    have power: "isPowerOf2 bufferSize" and c: "ceilingNextPowerOfTwo bufferSize = Some bufferSize"
      using that by (auto simp: start_disruptor_def MultiProducerSequencer_def split: if_splits Option.bind_splits)
    obtain k where k: "bufferSize = 2 ^ k" using isPowerOf2_exp [OF power] ..
    have "k < 31" using int32(2) power_less_imp_less_exp [of "2 :: int" k 31] by (simp add: k)
    moreover have "k \<noteq> 0"
    proof
      assume "k = 0"
      then show False using c ceiling_of_one by (simp add: k)
    qed
    ultimately show ?thesis using k by (intro exI [of _ k]) simp
  qed
  moreover have "start_disruptor (2 ^ k) e groups n \<noteq> None" if "1 \<le> k" "k \<le> 30" for k
  proof -
    have "ceilingNextPowerOfTwo (2 ^ k) = Some (2 ^ k)" unfolding ceilingNextPowerOfTwo_def using ceiling_loop_exp [of 1 k] that by simp
    moreover have "(1 :: int) \<le> 2 ^ k" by (rule one_le_power) simp
    then have "\<not> (2 :: int) ^ k < 1" by linarith
    ultimately show ?thesis using isPowerOf2_power [of k] by (simp add: start_disruptor_def MultiProducerSequencer_def)
  qed
  moreover have "isPowerOf2 1" using isPowerOf2_power [of 0] by simp
  ultimately show ?thesis by (auto simp: MultiProducerSequencer_def)
qed

theorem accepted_sizes_witness:
  "start_disruptor 1 (0 :: nat) [Workers 1 :: nat group] 1 = None \<and> start_disruptor 1024 (0 :: nat) [Workers 1 :: nat group] 1 \<noteq> None"
proof -
  have "(1 :: int) \<noteq> 2 ^ k" if "1 \<le> k" for k using that one_less_power [of "2 :: int" k] by linarith
  moreover have "(1024 :: int) = 2 ^ 10" by simp
  ultimately show ?thesis
    using accepted_sizes [of 1 "0 :: nat" "[Workers 1 :: nat group]" 1] accepted_sizes [of 1024 "0 :: nat" "[Workers 1 :: nat group]" 1]
    by (auto intro!: exI [of _ 10])
qed

section \<open>A small run\<close>

datatype 'e action = Submit nat 'e | Produce nat | Handle nat | Work nat nat

text \<open>One step of the thread an action names; an action that names no thread that can move changes nothing.\<close>

fun perform :: "(nat \<Rightarrow> ('e, 'h) event_handler) \<Rightarrow> (nat \<Rightarrow> 'e work_handler) \<Rightarrow> 'e action \<Rightarrow> ('e, 'h) disruptor \<Rightarrow> ('e, 'h) disruptor" where
  "perform oe ow (Submit i e) d =
     (if i < length (d_producers d) then case d_producers d ! i of Idle \<Rightarrow> d\<lparr>d_producers := (d_producers d)[i := Entering e]\<rparr> | _ \<Rightarrow> d
      else d)"
| "perform oe ow (Produce i) d =
     (if i < length (d_producers d) then
        case producer_step (gating d) (d_sequencer d) (d_entries d) (d_producers d ! i) of (q, es, p') \<Rightarrow>
          d\<lparr>d_sequencer := q, d_entries := es, d_producers := (d_producers d)[i := p'],
            d_sent := d_sent d @ claimed_event (d_producers d ! i) p'\<rparr>
      else d)"
| "perform oe ow (Handle i) d =
     (if i < length (d_stages d) then case d_stages d ! i of
        Batch b \<Rightarrow> (case batch_step (oe i) (d_sequencer d) (dependents d i) (d_entries d) b of (es, b') \<Rightarrow>
          d\<lparr>d_entries := es, d_stages := (d_stages d)[i := Batch b'],
            d_calls := d_calls d @ batch_call i (bp_next b) (bp_place b) (bp_place b')\<rparr>)
      | Pool ws xs \<Rightarrow> d
      else d)"
| "perform oe ow (Work i j) d =
     (if i < length (d_stages d) then case d_stages d ! i of
        Batch b \<Rightarrow> d
      | Pool ws xs \<Rightarrow> if j < length xs then
          (case work_step (ow i) (d_sequencer d) (dependents d i) (d_entries d) ws (xs ! j) of (es, ws', x') \<Rightarrow>
            d\<lparr>d_entries := es, d_stages := (d_stages d)[i := Pool ws' (xs[j := x'])],
              d_calls := d_calls d @ work_call i (wp_next (xs ! j)) (wp_place (xs ! j)) (wp_place x')\<rparr>)
        else d
      else d)"

lemma perform_run:
  assumes "disruptor_run oe ow bufferSize e groups n d"
  shows "disruptor_run oe ow bufferSize e groups n (perform oe ow a d)"
proof (cases a)
  case (Submit i x)
  then show ?thesis using assms by (auto split: producer.splits intro!: stepped [OF assms] submit)
next
  case (Produce i)
  then show ?thesis using assms by (auto split: prod.splits intro!: stepped [OF assms] produce)
next
  case (Handle i)
  then show ?thesis using assms by (auto split: prod.splits stage.splits intro!: stepped [OF assms] handle)
next
  case (Work i j)
  then show ?thesis using assms by (auto split: prod.splits stage.splits intro!: stepped [OF assms] work)
qed

lemma fold_perform_run:
  "disruptor_run oe ow bufferSize e groups n d \<Longrightarrow> disruptor_run oe ow bufferSize e groups n (fold (perform oe ow) as d)"
  by (induction as arbitrary: d) (auto intro: perform_run)

section \<open>Backlog\<close>

text \<open>One event handler on two slots whose thread has not begun, and one published event.\<close>

definition hidden_start :: "'e \<Rightarrow> 'h \<Rightarrow> ('e, 'h) disruptor" where
  "hidden_start e\<^sub>0 h = \<lparr>d_sequencer = \<lparr>m_bufferSize = 2, m_cursor = -1, m_gatingSequenceCache = -1, m_availableBuffer = [-1, -1],
       m_indexMask = 1, m_indexShift = 1\<rparr>,
     d_entries = [e\<^sub>0, e\<^sub>0], d_producers = [Idle],
     d_stages = [Batch \<lparr>bp_sequence = -1, bp_running = False, bp_next = 0, bp_handler = h, bp_place = Batch_run\<rparr>],
     d_sent = [], d_calls = []\<rparr>"

lemma two_slots: "log2 2 = 1" "isPowerOf2 2" "ceilingNextPowerOfTwo 2 = Some 2"
  using log2_exp [of 1] isPowerOf2_power [of 1] ceiling_loop_exp [of 1 1] by (simp_all add: ceilingNextPowerOfTwo_def)

lemma hidden_backlog:
  "\<exists>d. disruptor_run oe ow 2 e\<^sub>0 [Handler h] 1 d \<and> \<not> hasBacklog d \<and> d_sent d = [e] \<and> d_producers d = [Idle] \<and> d_calls d = []"
proof -
  let ?d = "fold (perform oe ow) (Submit 0 e # replicate 5 (Produce 0)) (hidden_start e\<^sub>0 h)"
  have "start_disruptor 2 e\<^sub>0 [Handler h] 1 = Some (hidden_start e\<^sub>0 h)"
    by (simp add: start_disruptor_def MultiProducerSequencer_def hidden_start_def two_slots numeral_2_eq_2)
  then have "disruptor_run oe ow 2 e\<^sub>0 [Handler h] 1 ?d" by (intro fold_perform_run started)
  moreover have "\<not> hasBacklog ?d \<and> d_sent ?d = [e] \<and> d_producers ?d = [Idle] \<and> d_calls ?d = []"
    by (simp add: hidden_start_def numeral_eq_Suc cache_refuses_def hasBacklog_def consumer_sequences_def setAvailable_def)
  ultimately show ?thesis by blast
qed

lemma idle_all_handled:
  assumes run: "disruptor_run on_event on_work bufferSize e\<^sub>0 groups n d" and g: "groups \<noteq> []" "bufferSize < 2 ^ 31"
    and idle: "\<not> hasBacklog d" "isRunning (last (d_stages d))"
  shows "\<forall>i < length groups. set (calls_of i (d_calls d)) = int ` {0..<length (d_sent d)} \<and>
    (\<forall>s < int (length (d_sent d)). stage_done (d_stages d ! i) s)"
proof (intro allI impI)
  fix i
  assume "i < length groups"
  obtain k where k: "pipeline_inv on_event on_work groups k d" using run_pipeline [OF run g] by blast
  then have inv: "ring_inv k d" and data: "data_inv on_event on_work groups k d"
    and calls: "calls_inv (group_input on_event on_work groups (nth (d_sent d))) d" by (simp_all add: pipeline_inv_def)
  have i: "i < length (d_stages d)" using \<open>i < length groups\<close> di_length [OF data] by simp
  have last: "\<forall>t \<in> set (stage_sequences (last (d_stages d))). m_cursor (d_sequencer d) \<le> t"
    using idle last_is_gating [OF ri_stages [OF inv], of False] by (force simp: hasBacklog_def consumer_sequences_def)
  have fin: "stage_done (d_stages d ! i) s" if "s < int (length (d_sent d))" for s
    using last that ri_sent [OF inv] by (intro last_done [OF inv _ i]) force
  have "s \<in> set (calls_of i (d_calls d)) \<longleftrightarrow> 0 \<le> s \<and> s < int (length (d_sent d))" for s
    using calls i fin started_reached [OF inv i] unfolding calls_inv_def by (auto simp: stage_started_def)
  then have "set (calls_of i (d_calls d)) = {0..<int (length (d_sent d))}" by (intro set_eqI) (simp only: atLeastLessThan_iff)
  then have "set (calls_of i (d_calls d)) = int ` {0..<length (d_sent d)}" by (simp add: image_int_atLeastLessThan)
  then show "set (calls_of i (d_calls d)) = int ` {0..<length (d_sent d)} \<and> (\<forall>s < int (length (d_sent d)). stage_done (d_stages d ! i) s)"
    using fin by blast
qed

text \<open>
  C10.  When there is no backlog and the last group is running, every event that was ever claimed has been handled by every
  group, so that stopping the threads there loses nothing.  Without the second condition this fails: between \<^verbatim>\<open>start\<close> and
  the first statement of its thread an event processor is not asked, and a published event that nobody has
  handled is not a backlog.
\<close>

theorem no_backlog_all_handled:
  "(disruptor_run on_event on_work bufferSize e\<^sub>0 groups n d \<and> groups \<noteq> [] \<and> bufferSize < 2 ^ 31 \<and> \<not> hasBacklog d \<and>
      isRunning (last (d_stages d)) \<longrightarrow>
    (\<forall>i < length groups. set (calls_of i (d_calls d)) = int ` {0..<length (d_sent d)} \<and>
      (\<forall>s < int (length (d_sent d)). stage_done (d_stages d ! i) s))) \<and>
   (\<exists>d. disruptor_run on_event on_work 2 e\<^sub>0 [Handler h] 1 d \<and> \<not> hasBacklog d \<and> d_sent d = [e] \<and> d_producers d = [Idle] \<and>
      d_calls d = [])"
proof (intro conjI impI)
  assume a: "disruptor_run on_event on_work bufferSize e\<^sub>0 groups n d \<and> groups \<noteq> [] \<and> bufferSize < 2 ^ 31 \<and> \<not> hasBacklog d \<and>
      isRunning (last (d_stages d))"
  then show "\<forall>i < length groups. set (calls_of i (d_calls d)) = int ` {0..<length (d_sent d)} \<and>
      (\<forall>s < int (length (d_sent d)). stage_done (d_stages d ! i) s)"
    using idle_all_handled [of on_event on_work bufferSize e\<^sub>0 groups n d] by blast
qed (rule hidden_backlog)

section \<open>Witnesses\<close>

text \<open>One producer, one handler and one worker on two slots; the event 5 goes all the way.\<close>

definition small_event :: "nat \<Rightarrow> (nat, nat) event_handler" where
  "small_event i h s e = (e + 1, h + e, False)"

definition small_work :: "nat \<Rightarrow> nat work_handler" where
  "small_work i s e = 2 * e"

definition small_start :: "(nat, nat) disruptor" where
  "small_start = \<lparr>d_sequencer = \<lparr>m_bufferSize = 2, m_cursor = -1, m_gatingSequenceCache = -1, m_availableBuffer = [-1, -1],
       m_indexMask = 1, m_indexShift = 1\<rparr>,
     d_entries = [0, 0], d_producers = [Idle],
     d_stages = [Batch \<lparr>bp_sequence = -1, bp_running = False, bp_next = 0, bp_handler = 0, bp_place = Batch_run\<rparr>,
       Pool (-1) [\<lparr>wp_sequence = -1, wp_next = -1, wp_cached = -(2 ^ 63), wp_place = Work_load\<rparr>]],
     d_sent = [], d_calls = []\<rparr>"

definition small_schedule :: "nat action list" where
  "small_schedule = Submit 0 5 # replicate 5 (Produce 0) @ replicate 10 (Handle 0) @ replicate 13 (Work 1 0)"

definition small_end :: "(nat, nat) disruptor" where
  "small_end = fold (perform small_event small_work) small_schedule small_start"

lemma small_start_run: "disruptor_run small_event small_work 2 0 [Handler 0, Workers 1] 1 small_start"
  by (rule started)
     (simp add: start_disruptor_def MultiProducerSequencer_def small_start_def two_slots numeral_2_eq_2)

lemma small_end_run: "disruptor_run small_event small_work 2 0 [Handler 0, Workers 1] 1 small_end"
  unfolding small_end_def by (rule fold_perform_run [OF small_start_run])

definition small_middle :: "(nat, nat) disruptor" where
  "small_middle = fold (perform small_event small_work)
     (Submit 0 5 # replicate 5 (Produce 0) @ replicate 7 (Handle 0) @ Submit 0 7 # replicate 3 (Produce 0)) small_start"

lemma small_middle_run: "disruptor_run small_event small_work 2 0 [Handler 0, Workers 1] 1 small_middle"
  unfolding small_middle_def by (rule fold_perform_run [OF small_start_run])

lemma small_end_calls: "d_calls small_end = [(0, 0, 5), (1, 0, 6)]"
  by code_simp

lemma small_end_idle: "\<not> hasBacklog small_end \<and> d_sent small_end = [5] \<and> isRunning (last (d_stages small_end))"
  by code_simp

lemma small_middle_slots: "slots_in_use small_middle = [1, 0]"
  by code_simp

theorem disruptor_refines_pipeline_witness:
  "d_calls small_end = [(0, 0, 5), (1, 0, 6)] \<and> after_previous (d_calls small_end) \<and>
   6 = group_input small_event small_work [Handler 0, Workers 1] (nth (d_sent small_end)) 1 0"
proof -
  have "(1, 0, 6) \<in> set (d_calls small_end)" by (simp add: small_end_calls)
  then show ?thesis using disruptor_refines_pipeline [OF small_end_run] small_end_calls by fastforce
qed

theorem no_backlog_all_handled_witness: "set (calls_of 1 (d_calls small_end)) = {0} \<and> stage_done (d_stages small_end ! 1) 0"
proof -
  have "\<not> hasBacklog small_end" "length (d_sent small_end) = 1" "isRunning (last (d_stages small_end))" using small_end_idle by auto
  then show ?thesis
    using no_backlog_all_handled [of small_event small_work 2 0 "[Handler 0, Workers 1]" 1 small_end] small_end_run
    by (auto simp del: stage_done.simps)
qed

theorem slots_exclusive_witness: "slots_in_use small_middle = [1, 0] \<and> distinct (slots_in_use small_middle)"
  using slots_exclusive [OF small_middle_run] small_middle_slots by simp

end
